theory Spec2Isabelle
  imports Main "HOL-Library.Char_ord" "HOL-Library.List_Lexorder"
begin

chapter \<open>JSNetworkX: keyed maps, graphs and relabelling\<close>

text \<open>
  A shallow embedding of \<^verbatim>\<open>jsnx/classes/map.js\<close> (the class HashMap),
  \<^verbatim>\<open>jsnx/classes/graph.js\<close>, \<^verbatim>\<open>digraph.js\<close>, \<^verbatim>\<open>multigraph.js\<close>,
  \<^verbatim>\<open>multidigraph.js\<close> and the relabel module. Every JavaScript method becomes a
  function that takes the objects it reads and returns the objects it has changed; a
  \<^verbatim>\<open>throw\<close> becomes a result \<open>Inl e\<close>.
\<close>

section \<open>Values, keys and errors\<close>

type_synonym addr = nat

text \<open>
  The values the modelled code stores or passes around. Numbers are the integers (the
  node labels and edge keys of the sources are integers or strings); \<open>JRef a\<close> is a
  reference to the attribute record or map allocated at address \<open>a\<close>.
\<close>

datatype jsval = JUndefined | JNull | JBool bool | JNum int | JStr string | JRef addr

text \<open>
  A key of a HashMap is any JavaScript value. \<^verbatim>\<open>keyHash_\<close> tells apart: the
  primitives; an object that owns a property \<^verbatim>\<open>hash\<close> (modelled by its identity and
  the string that property yields); a plain object (its identity is the number
  \<^verbatim>\<open>goog.getUid\<close> gives it); an array; and every other object (a function, a date, ...). Two
  keys are \<^verbatim>\<open>===\<close> exactly when they are equal in this datatype.
\<close>

datatype key =
    KUndefined
  | KNull
  | KBool bool
  | KNum int
  | KStr string
  | KHashed nat string
  | KPlain nat
  | KArray nat
  | KOther nat

datatype error =
    Error string
  | TypeError
  | ReferenceError
  | StopIteration
  | JSNetworkXError string
  | JSNetworkXUnfeasible string
  | NotModelled

text \<open>
  \<open>NotModelled\<close> is not a JavaScript exception: it marks the few calls whose behaviour
  the embedding leaves out (each is named where it occurs).
\<close>

subsection \<open>Conversion to string\<close>

definition digit_char :: "nat \<Rightarrow> char" where
  "digit_char d =
     (if d = 0 then CHR ''0'' else if d = 1 then CHR ''1'' else if d = 2 then CHR ''2''
      else if d = 3 then CHR ''3'' else if d = 4 then CHR ''4'' else if d = 5 then CHR ''5''
      else if d = 6 then CHR ''6'' else if d = 7 then CHR ''7'' else if d = 8 then CHR ''8''
      else CHR ''9'')"

fun show_nat :: "nat \<Rightarrow> string" where
  "show_nat n = (if n < 10 then [digit_char n] else show_nat (n div 10) @ [digit_char (n mod 10)])"

declare show_nat.simps [simp del]

definition show_int :: "int \<Rightarrow> string" where
  "show_int i = (if i < 0 then CHR ''-'' # show_nat (nat (- i)) else show_nat (nat i))"

text \<open>The JavaScript expression \<^verbatim>\<open>"" + val\<close> on a primitive.\<close>

fun to_string :: "key \<Rightarrow> string" where
  "to_string KUndefined = ''undefined''"
| "to_string KNull = ''null''"
| "to_string (KBool b) = (if b then ''true'' else ''false'')"
| "to_string (KNum i) = show_int i"
| "to_string (KStr s) = s"
| "to_string (KHashed uid h) = ''[object Object]''"
| "to_string (KPlain uid) = ''[object Object]''"
| "to_string (KArray uid) = ''[array]''"
| "to_string (KOther uid) = ''[object]''"

definition isDef :: "key \<Rightarrow> bool" where
  "isDef k = (k \<noteq> KUndefined)"

definition isDefAndNotNull :: "key \<Rightarrow> bool" where
  "isDefAndNotNull k = (k \<noteq> KUndefined \<and> k \<noteq> KNull)"

section \<open>HashMap\<close>

text \<open>
  \<^verbatim>\<open>map_\<close> is the underlying object: a property per hash, holding the pair
  \<^verbatim>\<open>[key, value]\<close>. \<^verbatim>\<open>hashes_\<close> is the array of hashes in insertion order (it may
  hold dead or repeated hashes until it is cleaned up). \<^verbatim>\<open>opts_hash\<close> is
  \<^verbatim>\<open>opts_['hash']\<close>, the custom hash function, when the map was given one.
\<close>

record 'v hashmap =
  map' :: "string \<Rightarrow> (key \<times> 'v) option"
  hashes' :: "string list"
  opts_hash :: "(key \<Rightarrow> string) option"
  count' :: int
  version' :: nat

definition HashMap :: "(key \<Rightarrow> string) option \<Rightarrow> 'v hashmap" where
  "HashMap opt_hash =
     \<lparr>map' = (\<lambda>h. None), hashes' = [], opts_hash = opt_hash, count' = 0, version' = 0\<rparr>"

text \<open>
  \<^verbatim>\<open>keyHash_\<close>: the map's own hash function wins; otherwise an object answers with its
  \<^verbatim>\<open>hash\<close> property, a plain object with its unique id, any other object with the
  empty string, and a primitive with its string form.
\<close>

definition keyHash :: "'v hashmap \<Rightarrow> key \<Rightarrow> string" where
  "keyHash m val =
     (case opts_hash m of
        Some f \<Rightarrow> f val
      | None \<Rightarrow>
          (case val of
             KHashed uid h \<Rightarrow> h
           | KPlain uid \<Rightarrow> show_nat uid
           | KArray uid \<Rightarrow> []
           | KOther uid \<Rightarrow> []
           | _ \<Rightarrow> to_string val))"

definition hasHash :: "(string \<Rightarrow> 'a option) \<Rightarrow> string \<Rightarrow> bool" where
  "hasHash obj hash = (obj hash \<noteq> None)"

definition getCount :: "'v hashmap \<Rightarrow> int" where
  "getCount m = count' m"

definition containsKey :: "'v hashmap \<Rightarrow> key \<Rightarrow> bool" where
  "containsKey m k =
     (if isDef k then
        (case map' m (keyHash m k) of
           Some entry \<Rightarrow> fst entry = k
         | None \<Rightarrow> False)
      else False)"

text \<open>
  \<^verbatim>\<open>get(key, opt_val)\<close>: \<open>None\<close> stands for the result \<^verbatim>\<open>undefined\<close> (no entry and
  no default given).
\<close>

definition HashMap_get :: "'v hashmap \<Rightarrow> key \<Rightarrow> 'v option \<Rightarrow> error + 'v option" where
  "HashMap_get m k opt_val =
     (if isDef k then
        (case map' m (keyHash m k) of
           Some entry \<Rightarrow>
             if k \<noteq> fst entry then Inl (Error ''Provided key not equal to hashed key'')
             else Inr (Some (snd entry))
         | None \<Rightarrow> Inr opt_val)
      else Inr opt_val)"

text \<open>
  \<^verbatim>\<open>set(key, value)\<close>. The source replaces an undefined \<^verbatim>\<open>value\<close> by
  \<^verbatim>\<open>true\<close> before storing; \<open>v\<close> is the value after that step. With an undefined key
  the local \<^verbatim>\<open>hash\<close> stays undefined and the final assignment writes the property
  \<^verbatim>\<open>"undefined"\<close> without touching count, hashes or version.
\<close>

definition HashMap_set :: "'v hashmap \<Rightarrow> key \<Rightarrow> 'v \<Rightarrow> 'v hashmap" where
  "HashMap_set m k v =
     (if isDef k then
        (let hash = keyHash m k;
             m1 = (if \<not> hasHash (map' m) hash
                   then m\<lparr>count' := count' m + 1,
                          hashes' := hashes' m @ [hash],
                          version' := version' m + 1\<rparr>
                   else m)
         in m1\<lparr>map' := (map' m1)(hash \<mapsto> (k, v))\<rparr>)
      else m\<lparr>map' := (map' m)(''undefined'' \<mapsto> (k, v))\<rparr>)"

text \<open>The second pass of \<^verbatim>\<open>cleanupKeysArray_\<close>: keep the first occurrence of each hash.\<close>

fun dedup_seen :: "string list \<Rightarrow> string list \<Rightarrow> string list" where
  "dedup_seen seen [] = []"
| "dedup_seen seen (h # hs) =
     (if h \<in> set seen then dedup_seen seen hs else h # dedup_seen (h # seen) hs)"

definition cleanupKeysArray :: "'v hashmap \<Rightarrow> 'v hashmap" where
  "cleanupKeysArray m =
     (let m1 = (if count' m \<noteq> int (length (hashes' m))
                then m\<lparr>hashes' := filter (hasHash (map' m)) (hashes' m)\<rparr>
                else m)
      in if count' m1 \<noteq> int (length (hashes' m1))
         then m1\<lparr>hashes' := dedup_seen [] (hashes' m1)\<rparr>
         else m1)"

text \<open>\<^verbatim>\<open>remove(key)\<close> returns whether an entry was removed, and the map.\<close>

definition HashMap_remove :: "'v hashmap \<Rightarrow> key \<Rightarrow> bool \<times> 'v hashmap" where
  "HashMap_remove m k =
     (let hash = keyHash m k in
      if hasHash (map' m) hash then
        (let m1 = m\<lparr>map' := (map' m)(hash := None),
                     count' := count' m - 1,
                     version' := version' m + 1\<rparr>;
             m2 = (if int (length (hashes' m1)) > 2 * count' m1
                   then cleanupKeysArray m1 else m1)
         in (True, m2))
      else (False, m))"

definition HashMap_clear :: "'v hashmap \<Rightarrow> 'v hashmap" where
  "HashMap_clear m = m\<lparr>map' := (\<lambda>h. None), hashes' := [], count' := 0, version' := 0\<rparr>"

subsection \<open>Iterators\<close>

text \<open>
  \<^verbatim>\<open>__iterator__\<close> cleans the hashes array, then captures the index \<^verbatim>\<open>i = 0\<close> and
  the version. The closure also holds the map object itself (\<^verbatim>\<open>selfObj\<close>, with its
  arrays): \<^verbatim>\<open>next\<close> therefore takes the map as it is when the iterator is advanced.
  \<^verbatim>\<open>next\<close> yields the entry \<^verbatim>\<open>[key, value]\<close>; the key and value iterators
  project it.
\<close>

record iterator =
  it_i :: nat
  it_version :: nat

definition HashMap_iterator :: "'v hashmap \<Rightarrow> 'v hashmap \<times> iterator" where
  "HashMap_iterator m =
     (let m1 = cleanupKeysArray m in (m1, \<lparr>it_i = 0, it_version = version' m1\<rparr>))"

definition HashMap_next :: "'v hashmap \<Rightarrow> iterator \<Rightarrow> error + ((key \<times> 'v) \<times> iterator)" where
  "HashMap_next m it =
     (if it_version it \<noteq> version' m
      then Inl (Error ''The map has changed since the iterator was created'')
      else if it_i it \<ge> length (hashes' m) then Inl StopIteration
      else (case map' m (hashes' m ! it_i it) of
              None \<Rightarrow> Inl TypeError
            | Some entry \<Rightarrow> Inr (entry, it\<lparr>it_i := it_i it + 1\<rparr>)))"

text \<open>The mutations of a map a caller can interleave with an iteration.\<close>

datatype 'v mutation = Set key 'v | Remove key

fun mutate :: "'v hashmap \<Rightarrow> 'v mutation \<Rightarrow> 'v hashmap" where
  "mutate m (Set k v) = HashMap_set m k v"
| "mutate m (Remove k) = snd (HashMap_remove m k)"

text \<open>
  \<open>collides m k\<close>: the hash of \<open>k\<close> is taken in \<open>m\<close> by another key.

  A mutation is structural when it is a \<^verbatim>\<open>set\<close> of a new key (a defined key that the map
  does not contain, \<^verbatim>\<open>containsKey\<close> being false) whose hash is not taken by another
  key, or a \<^verbatim>\<open>remove\<close> of an existing key (a key the map contains).
\<close>

definition collides :: "'v hashmap \<Rightarrow> key \<Rightarrow> bool" where
  "collides m k = (case map' m (keyHash m k) of Some entry \<Rightarrow> fst entry \<noteq> k | None \<Rightarrow> False)"

fun structural :: "'v hashmap \<Rightarrow> 'v mutation \<Rightarrow> bool" where
  "structural m (Set k v) = (isDef k \<and> \<not> containsKey m k \<and> \<not> collides m k)"
| "structural m (Remove k) = containsKey m k"

fun mutations :: "'v hashmap \<Rightarrow> 'v mutation list \<Rightarrow> 'v hashmap" where
  "mutations m [] = m"
| "mutations m (x # xs) = mutations (mutate m x) xs"

section \<open>Properties of HashMap\<close>

lemma version_cleanupKeysArray [simp]: "version' (cleanupKeysArray m) = version' m"
  by (simp add: cleanupKeysArray_def Let_def)

lemma version_mutate_mono: "version' m \<le> version' (mutate m x)"
  by (cases x) (simp_all add: HashMap_set_def HashMap_remove_def Let_def)

lemma containsKey_hasHash: "containsKey m k \<Longrightarrow> hasHash (map' m) (keyHash m k)"
  by (auto simp: containsKey_def hasHash_def split: if_splits option.splits)

lemma new_key_hasHash:
  "\<not> containsKey m k \<Longrightarrow> \<not> collides m k \<Longrightarrow> isDef k \<Longrightarrow> \<not> hasHash (map' m) (keyHash m k)"
  by (auto simp: containsKey_def collides_def hasHash_def split: option.splits)

lemma version_mutate_structural: "structural m x \<Longrightarrow> version' (mutate m x) = version' m + 1"
  by (cases x)
    (simp_all add: HashMap_set_def HashMap_remove_def Let_def containsKey_hasHash new_key_hasHash)

lemma version_mutations_mono: "version' m \<le> version' (mutations m xs)"
proof (induction xs arbitrary: m)
  case Nil
  show ?case by simp
next
  case (Cons x xs)
  have "version' m \<le> version' (mutate m x)" by (rule version_mutate_mono)
  also have "\<dots> \<le> version' (mutations (mutate m x) xs)" by (rule Cons.IH)
  finally show ?case by simp
qed

lemma mutations_append: "mutations m (xs @ ys) = mutations (mutations m xs) ys"
  by (induction xs arbitrary: m) simp_all

lemma keyHash_HashMap_set [simp]: "keyHash (HashMap_set m k v) = keyHash m"
  by (rule ext) (simp add: keyHash_def HashMap_set_def Let_def)

lemma show_nat_0 [simp]: "show_nat 0 = ''0''"
  by (simp add: show_nat.simps digit_char_def)

lemma show_nat_1 [simp]: "show_nat 1 = ''1''"
  by (simp add: show_nat.simps digit_char_def)

lemma show_nat_Suc_0 [simp]: "show_nat (Suc 0) = ''1''"
  by (simp add: show_nat.simps digit_char_def)

lemma show_nat_numeral [simp]:
  "show_nat (numeral n) =
     (if (numeral n :: nat) < 10 then [digit_char (numeral n)]
      else show_nat (numeral n div 10) @ [digit_char (numeral n mod 10)])"
  by (rule show_nat.simps)

lemma map_HashMap_set_same:
  "isDef k \<Longrightarrow> map' (HashMap_set m k v) (keyHash m k) = Some (k, v)"
  by (simp add: HashMap_set_def Let_def)

text \<open>
  \<^verbatim>\<open>clear()\<close> sets the version back to 0, so the version is not monotone across it:
  after \<^verbatim>\<open>set('a', v)\<close>, an iterator captures version 1; \<^verbatim>\<open>clear()\<close> followed by
  \<^verbatim>\<open>set('b', v)\<close> brings the map back to version 1, and the iterator's version test
  does not fire although the map has lost and gained a key.
\<close>

lemma HashMap_clear_resets_version:
  "isDef k \<Longrightarrow> version' (HashMap_set (HashMap_clear m) k v) = 1"
  by (simp add: HashMap_set_def HashMap_clear_def Let_def hasHash_def)

lemma HashMap_clear_restores_version:
  "snd (HashMap_iterator (HashMap_set (HashMap None) (KStr ''a'') (JBool True)))
     = \<lparr>it_i = 0, it_version = 1\<rparr>
   \<and> version' (HashMap_set (HashMap_clear (HashMap_set (HashMap None) (KStr ''a'') (JBool True)))
        (KStr ''b'') (JBool True)) = 1"
  by (simp add: HashMap_iterator_def cleanupKeysArray_def HashMap_set_def HashMap_clear_def
      HashMap_def Let_def isDef_def hasHash_def)






section \<open>Attribute records and the store\<close>

text \<open>
  An attribute record is a plain JavaScript object: its properties in insertion order.
  Records are shared (both mirror entries of an edge hold the same record), so they
  live in a store and the maps hold references \<open>JRef a\<close> to them. The key-maps of the
  multi variants are shared in the same way and live in the store too. The neighbour
  map of a node is referenced by exactly one entry of the adjacency map, so it is held
  in that entry.
\<close>

type_synonym dict = "(string \<times> jsval) list"

record world =
  dicts :: "addr \<Rightarrow> dict option"
  keymaps :: "addr \<Rightarrow> jsval hashmap option"
  fresh :: addr

type_synonym ('a, 's) res = "(error + 'a) \<times> 's"

definition new_object :: "world \<Rightarrow> dict \<Rightarrow> addr \<times> world" where
  "new_object w d = (fresh w, w\<lparr>dicts := (dicts w)(fresh w \<mapsto> d), fresh := fresh w + 1\<rparr>)"

definition dict_put :: "string \<Rightarrow> jsval \<Rightarrow> dict \<Rightarrow> dict" where
  "dict_put k v d = (if k \<in> fst ` set d then map (\<lambda>p. if fst p = k then (k, v) else p) d else d @ [(k, v)])"

text \<open>The enumerable properties of a value: those of the record it refers to, if any.\<close>

definition props :: "world \<Rightarrow> jsval \<Rightarrow> dict" where
  "props w x = (case x of JRef a \<Rightarrow> (case dicts w a of Some d \<Rightarrow> d | None \<Rightarrow> []) | _ \<Rightarrow> [])"

text \<open>
  \<^verbatim>\<open>goog.object.extend(target, source)\<close> assigns every property of the source to the
  target. Assigning to \<^verbatim>\<open>undefined\<close> or \<^verbatim>\<open>null\<close> throws a TypeError.
\<close>

definition object_extend :: "world \<Rightarrow> jsval \<Rightarrow> jsval \<Rightarrow> (unit, world) res" where
  "object_extend w target source =
     (case props w source of
        [] \<Rightarrow> (Inr (), w)
      | p # ps \<Rightarrow>
          (case target of
             JRef a \<Rightarrow>
               (case dicts w a of
                  Some t \<Rightarrow> (Inr (), w\<lparr>dicts := (dicts w)(a \<mapsto> fold (\<lambda>q. dict_put (fst q) (snd q)) (p # ps) t)\<rparr>)
                | None \<Rightarrow> (Inr (), w))
           | JUndefined \<Rightarrow> (Inl TypeError, w)
           | JNull \<Rightarrow> (Inl TypeError, w)
           | _ \<Rightarrow> (Inr (), w)))"

text \<open>\<^verbatim>\<open>goog.object.clone(obj)\<close>: a new record with the same properties (a flat clone).\<close>

definition object_clone :: "world \<Rightarrow> jsval \<Rightarrow> jsval \<times> world" where
  "object_clone w x = (let (a, w1) = new_object w (props w x) in (JRef a, w1))"

text \<open>JavaScript truthiness and \<^verbatim>\<open>goog.typeOf(x) === 'object'\<close> on the modelled values.\<close>

definition truthy :: "jsval \<Rightarrow> bool" where
  "truthy x = (case x of JUndefined \<Rightarrow> False | JNull \<Rightarrow> False | JBool b \<Rightarrow> b
                | JNum i \<Rightarrow> i \<noteq> 0 | JStr s \<Rightarrow> s \<noteq> [] | JRef a \<Rightarrow> True)"

definition is_object :: "jsval \<Rightarrow> bool" where
  "is_object x = (case x of JRef a \<Rightarrow> True | _ \<Rightarrow> False)"

section \<open>Graph\<close>

text \<open>
  The fields of a graph object: \<^verbatim>\<open>graph_\<close> (the graph attributes, with
  \<^verbatim>\<open>graph_['hash']\<close> kept apart as \<open>graph_hash\<close>), \<^verbatim>\<open>nodes_\<close> (node to attribute
  record) and \<^verbatim>\<open>adj_\<close> (node to neighbour map; a neighbour map takes a neighbour to
  the edge's attribute record, or to the key-map in the multi variants).
\<close>

record graph =
  graph' :: dict
  graph_hash :: "(key \<Rightarrow> string) option"
  nodes' :: "jsval hashmap"
  adj' :: "jsval hashmap hashmap"

definition newNodeMap :: "'z graph_scheme \<Rightarrow> 'v hashmap" where
  "newNodeMap g = HashMap (graph_hash g)"

text \<open>
  The object stored under key \<open>k\<close> of the map \<open>m\<close> has been mutated in place and is now
  \<open>x\<close>: the entry holds the new state. The map \<open>m\<close> itself is not changed by that (its
  count, hashes and version stay).
\<close>

definition mutated :: "'v hashmap \<Rightarrow> key \<Rightarrow> 'v \<Rightarrow> 'v hashmap" where
  "mutated m k x = m\<lparr>map' := (map' m)(keyHash m k \<mapsto> (k, x))\<rparr>"

definition isArray :: "key \<Rightarrow> bool" where
  "isArray k = (case k of KArray uid \<Rightarrow> True | _ \<Rightarrow> False)"

definition has_node :: "'z graph_scheme \<Rightarrow> key \<Rightarrow> bool" where
  "has_node g n = (\<not> isArray n \<and> containsKey (nodes' g) n)"

text \<open>\<^verbatim>\<open>this.node(n)\<close> and \<^verbatim>\<open>this.adj(n)\<close>.\<close>

definition node :: "'z graph_scheme \<Rightarrow> key \<Rightarrow> error + jsval option" where
  "node g n = HashMap_get (nodes' g) n None"

definition adj :: "'z graph_scheme \<Rightarrow> key \<Rightarrow> error + jsval hashmap option" where
  "adj g n = HashMap_get (adj' g) n None"

definition Graph_add_node_impl ::
  "graph \<Rightarrow> world \<Rightarrow> key \<Rightarrow> jsval \<Rightarrow> (unit, graph \<times> world) res" where
  "Graph_add_node_impl g w n opt_attr_dict =
     (if \<not> has_node g n then
        (let g1 = g\<lparr>adj' := HashMap_set (adj' g) n (newNodeMap g)\<rparr>;
             (a, w1) = (if truthy opt_attr_dict then (opt_attr_dict, w)
                        else (let (b, w2) = new_object w [] in (JRef b, w2)))
         in (Inr (), g1\<lparr>nodes' := HashMap_set (nodes' g1) n a\<rparr>, w1))
      else if truthy opt_attr_dict then
        (case node g n of
           Inl e \<Rightarrow> (Inl e, g, w)
         | Inr t \<Rightarrow>
             (case object_extend w (case t of Some x \<Rightarrow> x | None \<Rightarrow> JUndefined) opt_attr_dict of
                (Inl e, w1) \<Rightarrow> (Inl e, g, w1)
              | (Inr u, w1) \<Rightarrow> (Inr (), g, w1)))
      else (Inr (), g, w))"

text \<open>
  \<^verbatim>\<open>add_node(n, opt_attr_dict)\<close>; \<open>impl\<close> is the \<^verbatim>\<open>add_node_impl\<close> of the object's
  class.
\<close>

definition add_node ::
  "('g \<Rightarrow> world \<Rightarrow> key \<Rightarrow> jsval \<Rightarrow> (unit, 'g \<times> world) res)
   \<Rightarrow> 'g \<Rightarrow> world \<Rightarrow> key \<Rightarrow> jsval \<Rightarrow> (unit, 'g \<times> world) res" where
  "add_node impl g w n opt_attr_dict =
     (let (attr, w1) = (if opt_attr_dict = JUndefined \<or> opt_attr_dict = JNull
                        then (let (b, w2) = new_object w [] in (JRef b, w2))
                        else (opt_attr_dict, w))
      in if \<not> is_object attr
         then (Inl (JSNetworkXError ''The attr_dict argument must be an object.''), g, w1)
         else impl g w1 n attr)"

definition Graph_add_node :: "graph \<Rightarrow> world \<Rightarrow> key \<Rightarrow> jsval \<Rightarrow> (unit, graph \<times> world) res" where
  "Graph_add_node = add_node Graph_add_node_impl"

text \<open>
  A method call \<^verbatim>\<open>this.adj(n).f(...)\<close> on the neighbour map of \<open>n\<close>: \<^verbatim>\<open>this.adj(n)\<close>
  may throw, or be undefined (then the call is a TypeError); otherwise \<open>f\<close> runs on the
  neighbour map, which is mutated in place.
\<close>

definition adj_call ::
  "'z graph_scheme \<Rightarrow> key \<Rightarrow> (jsval hashmap \<Rightarrow> 'r \<times> jsval hashmap) \<Rightarrow> ('r, 'z graph_scheme) res" where
  "adj_call g n f =
     (case adj g n of
        Inl e \<Rightarrow> (Inl e, g)
      | Inr None \<Rightarrow> (Inl TypeError, g)
      | Inr (Some m) \<Rightarrow> (let (r, m1) = f m in (Inr r, g\<lparr>adj' := mutated (adj' g) n m1\<rparr>)))"

definition Graph_add_edge_impl ::
  "graph \<Rightarrow> world \<Rightarrow> key \<Rightarrow> key \<Rightarrow> jsval \<Rightarrow> (unit, graph \<times> world) res" where
  "Graph_add_edge_impl g w u v opt_attr_dict =
     (case Graph_add_node g w u JUndefined of
        (Inl e, s) \<Rightarrow> (Inl e, s)
      | (Inr x1, g1, w1) \<Rightarrow>
     (case Graph_add_node g1 w1 v JUndefined of
        (Inl e, s) \<Rightarrow> (Inl e, s)
      | (Inr x2, g2, w2) \<Rightarrow>
     (case adj g2 u of
        Inl e \<Rightarrow> (Inl e, g2, w2)
      | Inr edges \<Rightarrow>
     (let (d, w3) = new_object w2 [] in
      case edges of
        None \<Rightarrow> (Inl TypeError, g2, w3)
      | Some es \<Rightarrow>
          if containsKey es v then
            (case HashMap_get es v None of
               Inl e \<Rightarrow> (Inl e, g2, w3)
             | Inr dd \<Rightarrow>
                 (case object_extend w3 (case dd of Some x \<Rightarrow> x | None \<Rightarrow> JUndefined) opt_attr_dict of
                    (Inl e, w4) \<Rightarrow> (Inl e, g2, w4)
                  | (Inr x3, w4) \<Rightarrow> (Inr (), g2, w4)))
          else
            (case object_extend w3 (JRef d) opt_attr_dict of
               (Inl e, w4) \<Rightarrow> (Inl e, g2, w4)
             | (Inr x3, w4) \<Rightarrow>
            (case adj_call g2 u (\<lambda>m. ((), HashMap_set m v (JRef d))) of
               (Inl e, g3) \<Rightarrow> (Inl e, g3, w4)
             | (Inr x4, g3) \<Rightarrow>
            (case adj_call g3 v (\<lambda>m. ((), HashMap_set m u (JRef d))) of
               (Inl e, g4) \<Rightarrow> (Inl e, g4, w4)
             | (Inr x5, g4) \<Rightarrow> (Inr (), g4, w4))))))))"

text \<open>
  \<^verbatim>\<open>add_edge(u, v, opt_attr_dict)\<close>; \<open>impl\<close> is the \<^verbatim>\<open>add_edge_impl\<close> of the object's
  class.
\<close>

definition add_edge ::
  "('g \<Rightarrow> world \<Rightarrow> key \<Rightarrow> key \<Rightarrow> jsval \<Rightarrow> (unit, 'g \<times> world) res)
   \<Rightarrow> 'g \<Rightarrow> world \<Rightarrow> key \<Rightarrow> key \<Rightarrow> jsval \<Rightarrow> (unit, 'g \<times> world) res" where
  "add_edge impl g w u v opt_attr_dict =
     (let (attr, w1) = (if truthy opt_attr_dict then (opt_attr_dict, w)
                        else (let (b, w2) = new_object w [] in (JRef b, w2)))
      in if \<not> is_object attr
         then (Inl (JSNetworkXError ''The attr_dict argument must be an object.''), g, w1)
         else impl g w1 u v attr)"

definition Graph_add_edge :: "graph \<Rightarrow> world \<Rightarrow> key \<Rightarrow> key \<Rightarrow> jsval \<Rightarrow> (unit, graph \<times> world) res" where
  "Graph_add_edge = add_edge Graph_add_edge_impl"

definition has_edge :: "'z graph_scheme \<Rightarrow> key \<Rightarrow> key \<Rightarrow> error + bool" where
  "has_edge g u v =
     (if has_node g u \<and> has_node g v then
        (case adj g u of
           Inl e \<Rightarrow> Inl e
         | Inr None \<Rightarrow> Inl TypeError
         | Inr (Some m) \<Rightarrow> Inr (containsKey m v))
      else Inr False)"

subsection \<open>Removing nodes and edges\<close>

text \<open>
  \<^verbatim>\<open>neighbors_iter(n)\<close> returns the key iterator of the neighbour map of \<open>n\<close> (creating
  it cleans that map's hashes array).
\<close>

definition neighbors_iter :: "'z graph_scheme \<Rightarrow> key \<Rightarrow> (iterator, 'z graph_scheme) res" where
  "neighbors_iter g n =
     (if \<not> has_node g n
      then (Inl (JSNetworkXError (''The node '' @ to_string n @ '' is not in the graph to retrieve.'')), g)
      else adj_call g n (\<lambda>m. (snd (HashMap_iterator m), fst (HashMap_iterator m))))"

text \<open>
  The loop of \<^verbatim>\<open>remove_node_impl\<close>:
  \<^verbatim>\<open>goog.iter.forEach(nbrs, function(u) { this.adj(u).remove(n); }, this)\<close>.
  The iterator \<open>it\<close> walks the neighbour map of \<open>n\<close>, the object held in the entry of
  \<^verbatim>\<open>adj_\<close> under the hash of \<open>n\<close>; each advancement reads that object as it is
  then. \<^verbatim>\<open>forEach\<close> ends on StopIteration and lets every other exception through.
\<close>

definition walked :: "'z graph_scheme \<Rightarrow> key \<Rightarrow> jsval hashmap option" where
  "walked g n = map_option snd (map' (adj' g) (keyHash (adj' g) n))"

definition iter_measure :: "iterator \<Rightarrow> 'v hashmap option \<Rightarrow> nat" where
  "iter_measure it mo =
     (case mo of
        None \<Rightarrow> 0
      | Some m \<Rightarrow> if it_version it = version' m then Suc (length (hashes' m) - it_i it) else 0)"

function remove_node_loop :: "key \<Rightarrow> iterator \<Rightarrow> graph \<Rightarrow> (unit, graph) res" where
  "remove_node_loop n it g =
     (case walked g n of
        None \<Rightarrow> (Inl TypeError, g)
      | Some m \<Rightarrow>
          (case HashMap_next m it of
             Inl e \<Rightarrow> if e = StopIteration then (Inr (), g) else (Inl e, g)
           | Inr (entry, it1) \<Rightarrow>
               (case adj_call g (fst entry) (\<lambda>a. HashMap_remove a n) of
                  (Inl e, g1) \<Rightarrow> (Inl e, g1)
                | (Inr r, g1) \<Rightarrow> remove_node_loop n it1 g1)))"
  by pat_completeness auto

lemma keyHash_updates [simp]:
  "keyHash (m\<lparr>map' := a\<rparr>) = keyHash m"
  "keyHash (m\<lparr>hashes' := b\<rparr>) = keyHash m"
  "keyHash (m\<lparr>count' := c\<rparr>) = keyHash m"
  "keyHash (m\<lparr>version' := d\<rparr>) = keyHash m"
  by (rule ext, simp add: keyHash_def)+

lemma keyHash_mutated [simp]: "keyHash (mutated m k x) = keyHash m"
  by (rule ext) (simp add: keyHash_def mutated_def)

lemma version_HashMap_remove:
  "version' (snd (HashMap_remove m k)) = (if hasHash (map' m) (keyHash m k) then version' m + 1 else version' m)"
  by (simp add: HashMap_remove_def Let_def)

lemma HashMap_remove_unchanged:
  "\<not> hasHash (map' m) (keyHash m k) \<Longrightarrow> snd (HashMap_remove m k) = m"
  by (simp add: HashMap_remove_def Let_def)

lemma HashMap_next_InrD:
  "HashMap_next m it = Inr (entry, it1) \<Longrightarrow>
     it_version it = version' m \<and> it_i it < length (hashes' m) \<and> it1 = it\<lparr>it_i := it_i it + 1\<rparr>"
  by (auto simp: HashMap_next_def split: if_splits option.splits)

lemma walked_adj_call:
  assumes "adj_call g u f = (Inr r, g1)" and "walked g n = Some m"
  shows "walked g1 n = Some m \<or> walked g1 n = Some (snd (f m))"
  using assms
  by (auto simp: adj_call_def adj_def HashMap_get_def walked_def mutated_def
      split: sum.splits option.splits if_splits prod.splits)

lemma remove_node_loop_decreases:
  assumes "walked g n = Some m" and "HashMap_next m it = Inr (entry, it1)"
    and "adj_call g u (\<lambda>a. HashMap_remove a n) = (Inr r, g1)"
  shows "iter_measure it1 (walked g1 n) < iter_measure it (Some m)"
proof -
  from HashMap_next_InrD [OF assms(2)]
  have v: "it_version it = version' m" and i: "it_i it < length (hashes' m)"
    and it1: "it1 = it\<lparr>it_i := it_i it + 1\<rparr>" by simp_all
  from walked_adj_call [OF assms(3) assms(1)]
  consider "walked g1 n = Some m" | "walked g1 n = Some (snd (HashMap_remove m n))" by auto
  then show ?thesis
  proof cases
    case 1
    with v i it1 assms(1) show ?thesis by (simp add: iter_measure_def)
  next
    case 2
    show ?thesis
    proof (cases "hasHash (map' m) (keyHash m n)")
      case True
      with 2 v i it1 assms(1) show ?thesis
        by (simp add: iter_measure_def version_HashMap_remove)
    next
      case False
      with 2 v i it1 assms(1) show ?thesis
        by (simp add: iter_measure_def HashMap_remove_unchanged)
    qed
  qed
qed

termination remove_node_loop
proof (relation "measure (\<lambda>(n, it, g). iter_measure it (walked g n))", goal_cases)
  case 1
  show ?case by simp
next
  case (2 n it g m x entry it1 y r g1)
  have a: "HashMap_next m it = Inr (entry, it1)" using 2 by simp
  have b: "adj_call g (fst entry) (\<lambda>a. HashMap_remove a n) = (Inr g1, r)" using 2 by simp
  from remove_node_loop_decreases [OF 2(1) a b] 2(1) show ?case by simp
qed

definition Graph_remove_node_impl :: "graph \<Rightarrow> key \<Rightarrow> (unit, graph) res" where
  "Graph_remove_node_impl g n =
     (case neighbors_iter g n of
        (Inl e, g1) \<Rightarrow> (Inl e, g1)
      | (Inr nbrs, g1) \<Rightarrow>
          (let g2 = g1\<lparr>nodes' := snd (HashMap_remove (nodes' g1) n)\<rparr> in
           case remove_node_loop n nbrs g2 of
             (Inl e, g3) \<Rightarrow> (Inl e, g3)
           | (Inr x, g3) \<Rightarrow> (Inr (), g3\<lparr>adj' := snd (HashMap_remove (adj' g3) n)\<rparr>)))"

definition remove_node ::
  "('z graph_scheme \<Rightarrow> key \<Rightarrow> (unit, 'z graph_scheme) res)
   \<Rightarrow> 'z graph_scheme \<Rightarrow> key \<Rightarrow> (unit, 'z graph_scheme) res" where
  "remove_node impl g n =
     (if \<not> has_node g n
      then (Inl (JSNetworkXError (''The node '' @ to_string n @ '' is not in the graph to remove.'')), g)
      else impl g n)"

definition Graph_remove_node :: "graph \<Rightarrow> key \<Rightarrow> (unit, graph) res" where
  "Graph_remove_node = remove_node Graph_remove_node_impl"

text \<open>
  The loose comparison \<^verbatim>\<open>u != v\<close> of \<^verbatim>\<open>remove_edge_impl\<close>. Between a number and a
  string JavaScript compares the number with the numeric value of the string; of the
  numeric strings only the decimal integers (and the empty string, which is 0) are
  modelled. \<^verbatim>\<open>null == undefined\<close> holds; every other pair is compared strictly.
\<close>

definition digit_val :: "char \<Rightarrow> nat option" where
  "digit_val = map_of
     [(CHR ''0'', 0), (CHR ''1'', 1), (CHR ''2'', 2), (CHR ''3'', 3), (CHR ''4'', 4),
      (CHR ''5'', 5), (CHR ''6'', 6), (CHR ''7'', 7), (CHR ''8'', 8), (CHR ''9'', 9)]"

fun parse_digits :: "nat \<Rightarrow> string \<Rightarrow> nat option" where
  "parse_digits acc [] = Some acc"
| "parse_digits acc (c # cs) =
     (case digit_val c of Some d \<Rightarrow> parse_digits (d + 10 * acc) cs | None \<Rightarrow> None)"

definition to_number :: "string \<Rightarrow> int option" where
  "to_number s =
     (case s of
        [] \<Rightarrow> Some 0
      | c # cs \<Rightarrow>
          if c = CHR ''-'' then (if cs = [] then None else map_option (\<lambda>n. - int n) (parse_digits 0 cs))
          else map_option int (parse_digits 0 s))"

definition loose_eq :: "key \<Rightarrow> key \<Rightarrow> bool" where
  "loose_eq a b =
     (a = b \<or>
      (case (a, b) of
         (KNum i, KStr s) \<Rightarrow> to_number s = Some i
       | (KStr s, KNum i) \<Rightarrow> to_number s = Some i
       | (KUndefined, KNull) \<Rightarrow> True
       | (KNull, KUndefined) \<Rightarrow> True
       | _ \<Rightarrow> False))"

definition Graph_remove_edge_impl :: "graph \<Rightarrow> key \<Rightarrow> key \<Rightarrow> (unit, graph) res" where
  "Graph_remove_edge_impl g u v =
     (case adj_call g u (\<lambda>m. HashMap_remove m v) of
        (Inl e, g1) \<Rightarrow> (Inl e, g1)
      | (Inr r, g1) \<Rightarrow>
          if \<not> loose_eq u v then
            (case adj_call g1 v (\<lambda>m. HashMap_remove m u) of
               (Inl e, g2) \<Rightarrow> (Inl e, g2)
             | (Inr r2, g2) \<Rightarrow> (Inr (), g2))
          else (Inr (), g1))"

definition Graph_remove_edge :: "graph \<Rightarrow> key \<Rightarrow> key \<Rightarrow> (unit, graph) res" where
  "Graph_remove_edge g u v =
     (case Graph_remove_edge_impl g u v of
        (Inl e, g1) \<Rightarrow>
          if e = TypeError
          then (Inl (JSNetworkXError (''The edge '' @ to_string u @ ''-'' @ to_string v @ '' is not in the graph'')), g1)
          else (Inl e, g1)
      | (Inr x, g1) \<Rightarrow> (Inr (), g1))"

declare remove_node_loop.simps [simp del]

subsection \<open>Construction and sequences of calls\<close>

text \<open>The constructor without initial data: \<^verbatim>\<open>new jsnx.Graph(null, opt_attr)\<close>.\<close>

definition Graph_empty :: "dict \<Rightarrow> (key \<Rightarrow> string) option \<Rightarrow> graph" where
  "Graph_empty opt_attr hash =
     \<lparr>graph' = opt_attr, graph_hash = hash, nodes' = HashMap hash, adj' = HashMap hash\<rparr>"

definition world_empty :: world where
  "world_empty = \<lparr>dicts = (\<lambda>a. None), keymaps = (\<lambda>a. None), fresh = 0\<rparr>"

text \<open>
  A call of one of the four mutators of a simple undirected graph, and the state of the
  graph object and the store after the call, whether it returned or threw.
\<close>

datatype call = AddNode key jsval | AddEdge key key jsval | RemoveEdge key key | RemoveNode key

fun Graph_call :: "graph \<times> world \<Rightarrow> call \<Rightarrow> (unit, graph \<times> world) res" where
  "Graph_call (g, w) (AddNode n attr) = Graph_add_node g w n attr"
| "Graph_call (g, w) (AddEdge u v attr) = Graph_add_edge g w u v attr"
| "Graph_call (g, w) (RemoveEdge u v) = (case Graph_remove_edge g u v of (r, g1) \<Rightarrow> (r, g1, w))"
| "Graph_call (g, w) (RemoveNode n) = (case Graph_remove_node g n of (r, g1) \<Rightarrow> (r, g1, w))"

fun Graph_calls :: "graph \<times> world \<Rightarrow> call list \<Rightarrow> graph \<times> world" where
  "Graph_calls s [] = s"
| "Graph_calls s (c # cs) = Graph_calls (snd (Graph_call s c)) cs"

text \<open>
  \<open>neighbour g u v\<close>: \<open>v\<close> is a key of \<^verbatim>\<open>adj[u]\<close>, and \<open>edge_record g u v\<close> is the
  record \<^verbatim>\<open>adj[u][v]\<close> refers to.
\<close>

definition neighbour :: "'z graph_scheme \<Rightarrow> key \<Rightarrow> key \<Rightarrow> bool" where
  "neighbour g u v = (case adj g u of Inr (Some m) \<Rightarrow> containsKey m v | _ \<Rightarrow> False)"

definition edge_record :: "'z graph_scheme \<Rightarrow> key \<Rightarrow> key \<Rightarrow> jsval option" where
  "edge_record g u v =
     (case adj g u of
        Inr (Some m) \<Rightarrow> (case HashMap_get m v None of Inr r \<Rightarrow> r | Inl e \<Rightarrow> None)
      | _ \<Rightarrow> None)"

subsection \<open>Graph objects and the constructor\<close>

text \<open>
  A graph object holds references to its two maps. The functions above work on the
  contents of the maps of one graph; \<open>invoke\<close> runs such a method on the maps the fields
  of the object refer to and leaves the results in the same cells, so that two objects
  whose fields refer to the same maps see each other's changes.
\<close>

record objects =
  node_maps :: "addr \<Rightarrow> jsval hashmap option"
  adj_maps :: "addr \<Rightarrow> jsval hashmap hashmap option"
  next_map :: addr

record graph_obj =
  obj_graph :: dict
  obj_hash :: "(key \<Rightarrow> string) option"
  obj_nodes :: addr
  obj_adj :: addr

definition objects_empty :: objects where
  "objects_empty = \<lparr>node_maps = (\<lambda>a. None), adj_maps = (\<lambda>a. None), next_map = 0\<rparr>"

definition contents :: "objects \<Rightarrow> graph_obj \<Rightarrow> graph" where
  "contents os G =
     \<lparr>graph' = obj_graph G, graph_hash = obj_hash G,
      nodes' = (case node_maps os (obj_nodes G) of Some m \<Rightarrow> m | None \<Rightarrow> HashMap (obj_hash G)),
      adj' = (case adj_maps os (obj_adj G) of Some m \<Rightarrow> m | None \<Rightarrow> HashMap (obj_hash G))\<rparr>"

definition invoke ::
  "(graph \<Rightarrow> world \<Rightarrow> ('a, graph \<times> world) res) \<Rightarrow> graph_obj \<Rightarrow> objects \<times> world
   \<Rightarrow> ('a, objects \<times> world) res" where
  "invoke method G s =
     (case method (contents (fst s) G) (snd s) of
        (r, g1, w1) \<Rightarrow>
          (r, (fst s)\<lparr>node_maps := (node_maps (fst s))(obj_nodes G \<mapsto> nodes' g1),
                      adj_maps := (adj_maps (fst s))(obj_adj G \<mapsto> adj' g1)\<rparr>, w1))"

text \<open>
  The constructor \<^verbatim>\<open>jsnx.classes.Graph(opt_data, opt_attr)\<close> with no data or with a
  graph as data. (The graph attributes are held by value: \<^verbatim>\<open>jsnx.helper.deepcopy\<close> of
  a record of primitive values is that record.) The two fresh maps are created first;
  with a graph as data the fields are then overwritten by the fields of that graph.
\<close>

definition Graph_new :: "objects \<Rightarrow> graph_obj option \<Rightarrow> dict \<Rightarrow> graph_obj \<times> objects" where
  "Graph_new os opt_data opt_attr =
     (let this_graph = opt_attr;
          hash = None;
          n = next_map os;
          os1 = os\<lparr>node_maps := (node_maps os)(n \<mapsto> HashMap hash),
                    adj_maps := (adj_maps os)(n + 1 \<mapsto> HashMap hash),
                    next_map := n + 2\<rparr>;
          this = \<lparr>obj_graph = this_graph, obj_hash = hash, obj_nodes = n, obj_adj = n + 1\<rparr>
      in case opt_data of
           None \<Rightarrow> (this, os1)
         | Some G \<Rightarrow>
             (this\<lparr>obj_graph := fold (\<lambda>q. dict_put (fst q) (snd q)) (obj_graph G) this_graph,
                    obj_nodes := obj_nodes G, obj_adj := obj_adj G\<rparr>, os1))"

lemmas HashMap_simps =
  HashMap_def HashMap_set_def HashMap_get_def HashMap_remove_def containsKey_def keyHash_def
  hasHash_def isDef_def cleanupKeysArray_def HashMap_iterator_def HashMap_next_def

lemmas Graph_simps =
  Graph_empty_def world_empty_def Graph_add_edge_def add_edge_def Graph_add_edge_impl_def
  Graph_add_node_def add_node_def Graph_add_node_impl_def has_node_def isArray_def node_def
  adj_def adj_call_def mutated_def new_object_def object_extend_def props_def truthy_def
  is_object_def newNodeMap_def Graph_remove_node_def remove_node_def Graph_remove_node_impl_def
  neighbors_iter_def walked_def neighbour_def edge_record_def

text \<open>
  C1 (the code breaks the claim). Symmetry of the adjacency of a simple undirected graph
  does not survive \<^verbatim>\<open>remove_node\<close> on a node with a self-loop. After
  \<^verbatim>\<open>add_edge('a','b'); add_edge('a','a')\<close> the call \<^verbatim>\<open>remove_node('a')\<close> removes
  \<^verbatim>\<open>'a'\<close> from its own neighbour map while the iterator over that map is live; the
  next advancement throws "The map has changed since the iterator was created", and
  the graph is left with \<^verbatim>\<open>'b'\<close> a key of \<^verbatim>\<open>adj['a']\<close> but \<^verbatim>\<open>'a'\<close> not a key of
  \<^verbatim>\<open>adj['b']\<close>.
\<close>

theorem Graph_remove_node_selfloop_breaks_symmetry:
  "(let s = Graph_calls (Graph_empty [] None, world_empty)
              [AddEdge (KStr ''a'') (KStr ''b'') JUndefined, AddEdge (KStr ''a'') (KStr ''a'') JUndefined];
        r = Graph_call s (RemoveNode (KStr ''a''));
        g = fst (snd r)
    in neighbour (fst s) (KStr ''a'') (KStr ''b'') \<and> neighbour (fst s) (KStr ''b'') (KStr ''a'')
       \<and> fst r = Inl (Error ''The map has changed since the iterator was created'')
       \<and> neighbour g (KStr ''a'') (KStr ''b'') \<and> \<not> neighbour g (KStr ''b'') (KStr ''a''))"
  by (simp add: HashMap_simps Graph_simps Let_def remove_node_loop.simps)

text \<open>
  C2 (the code breaks the claim). \<^verbatim>\<open>new jsnx.Graph(G)\<close> does not copy: the new
  object's \<^verbatim>\<open>nodes_\<close> and \<^verbatim>\<open>adj_\<close> are the maps of \<open>G\<close> themselves. With \<open>G\<close>
  holding the edge 1-2 and \<open>H = new Graph(G)\<close>, the call \<^verbatim>\<open>H.add_node(3)\<close> makes 3 a
  node of \<open>G\<close>, and \<^verbatim>\<open>H.remove_node(1)\<close> removes node 1 from \<open>G\<close>.
\<close>

theorem Graph_constructor_shares_maps:
  "(let (G, os1) = Graph_new objects_empty None [];
        (r1, s1) = invoke (\<lambda>g w. Graph_add_edge g w (KNum 1) (KNum 2) JUndefined) G (os1, world_empty);
        (H, os2) = Graph_new (fst s1) (Some G) [];
        s2 = (os2, snd s1);
        (r3, s3) = invoke (\<lambda>g w. Graph_add_node g w (KNum 3) JUndefined) H s2;
        (r4, s4) = invoke (\<lambda>g w. case Graph_remove_node g (KNum 1) of (r, g1) \<Rightarrow> (r, g1, w)) H s3
    in \<not> has_node (contents (fst s2) G) (KNum 3) \<and> r3 = Inr ()
       \<and> has_node (contents (fst s3) G) (KNum 3)
       \<and> has_node (contents (fst s3) G) (KNum 1) \<and> r4 = Inr ()
       \<and> \<not> has_node (contents (fst s4) G) (KNum 1))"
  by (simp add: HashMap_simps Graph_simps Let_def remove_node_loop.simps show_int_def
      digit_char_def Graph_new_def objects_empty_def invoke_def contents_def)

section \<open>Iteration over nodes and edges\<close>

text \<open>
  \<^verbatim>\<open>goog.iter.toArray\<close> (or \<^verbatim>\<open>goog.iter.forEach\<close>) over the entry iterator of a map
  that is not changed meanwhile: advance until StopIteration.
\<close>

function iter_from :: "'v hashmap \<Rightarrow> iterator \<Rightarrow> error + (key \<times> 'v) list" where
  "iter_from m it =
     (case HashMap_next m it of
        Inl e \<Rightarrow> if e = StopIteration then Inr [] else Inl e
      | Inr (entry, it1) \<Rightarrow>
          (case iter_from m it1 of Inl e \<Rightarrow> Inl e | Inr xs \<Rightarrow> Inr (entry # xs)))"
  by pat_completeness auto
termination
proof (relation "measure (\<lambda>(m, it). length (hashes' m) - it_i it)", goal_cases)
  case 1
  show ?case by simp
next
  case (2 m it x entry it1)
  then have "HashMap_next m it = Inr (entry, it1)" by simp
  from HashMap_next_InrD [OF this] show ?case by auto
qed

declare iter_from.simps [simp del]

definition getEntries :: "'v hashmap \<Rightarrow> error + (key \<times> 'v) list" where
  "getEntries m = iter_from (fst (HashMap_iterator m)) (snd (HashMap_iterator m))"

text \<open>
  \<^verbatim>\<open>generate_adjacency_iter(adj, opt_nbunch)\<close>: the entries of the map, or, for a
  bunch of nodes, the pairs \<^verbatim>\<open>[n, adj.get(n)]\<close> (the second component may be
  undefined). A single node as bunch is the one-element list.
\<close>

fun lookup_all :: "jsval hashmap hashmap \<Rightarrow> key list \<Rightarrow> error + (key \<times> jsval hashmap option) list" where
  "lookup_all a [] = Inr []"
| "lookup_all a (n # ns) =
     (case HashMap_get a n None of
        Inl e \<Rightarrow> Inl e
      | Inr m \<Rightarrow> (case lookup_all a ns of Inl e \<Rightarrow> Inl e | Inr xs \<Rightarrow> Inr ((n, m) # xs)))"

fun join :: "string list \<Rightarrow> string" where
  "join [] = []"
| "join [x] = x"
| "join (x # y # ys) = x @ '', '' @ join (y # ys)"

definition generate_adjacency_iter ::
  "'z graph_scheme \<Rightarrow> jsval hashmap hashmap \<Rightarrow> key list option
   \<Rightarrow> error + (key \<times> jsval hashmap option) list" where
  "generate_adjacency_iter g a opt_nbunch =
     (case opt_nbunch of
        None \<Rightarrow> (case getEntries a of Inl e \<Rightarrow> Inl e | Inr es \<Rightarrow> Inr (map (\<lambda>p. (fst p, Some (snd p))) es))
      | Some nbunch \<Rightarrow>
          (let missing = filter (\<lambda>n. \<not> has_node g n) nbunch in
           if missing \<noteq> []
           then Inl (JSNetworkXError (''The nodes ['' @ join (map to_string missing)
                                        @ ''] are not in the graph to retrieve.''))
           else lookup_all a nbunch))"

definition Graph_adjacency_iter ::
  "'z graph_scheme \<Rightarrow> key list option \<Rightarrow> error + (key \<times> jsval hashmap option) list" where
  "Graph_adjacency_iter g opt_nbunch = generate_adjacency_iter g (adj' g) opt_nbunch"

text \<open>
  Modelled from the spec: \<^verbatim>\<open>jsnx.helper.nested_chain\<close> (the module
  \<^verbatim>\<open>jsnx.helper\<close> is not among the sources). It chains, for each element of the
  outer iterator, the iterator the first callback returns for it, passes every element
  of that iterator to the second callback and yields the results, skipping every
  element for which the second callback returns nothing (this is how the spec's "skip
  any neighbor already marked seen" is done by a callback that returns only for unseen
  neighbours). An inner iterator is given by its elements and by what its \<^verbatim>\<open>next\<close>
  does to the state of the closure when it is exhausted. The chain is lazy: the first
  callback runs for an element only when the iterator of the element before is
  exhausted.
\<close>

fun nested_chain ::
  "'a list \<Rightarrow> ('a \<Rightarrow> 's \<Rightarrow> (error + 'b list \<times> ('s \<Rightarrow> 's)) \<times> 's) \<Rightarrow> ('b \<Rightarrow> 's \<Rightarrow> 'r option) \<Rightarrow> 's
   \<Rightarrow> error + 'r list" where
  "nested_chain [] f1 f2 s = Inr []"
| "nested_chain (x # xs) f1 f2 s =
     (case f1 x s of
        (Inl e, s1) \<Rightarrow> Inl e
      | (Inr (ys, on_stop), s1) \<Rightarrow>
          (case nested_chain xs f1 f2 (on_stop s1) of
             Inl e \<Rightarrow> Inl e
           | Inr zs \<Rightarrow> Inr (List.map_filter (\<lambda>y. f2 y s1) ys @ zs)))"

text \<open>Edge tuples: \<^verbatim>\<open>[u, v]\<close>, \<^verbatim>\<open>[u, v, data]\<close>, \<^verbatim>\<open>[u, v, key]\<close>, \<^verbatim>\<open>[u, v, key, data]\<close>.\<close>

datatype etuple = E2 key key | E3 key key jsval | E3k key key key | E4 key key key jsval

text \<open>
  \<^verbatim>\<open>Graph.prototype.generate_edges_iter(visit, nbunch_iter)\<close>. The closure holds the
  current node \<^verbatim>\<open>n\<close> and the map \<^verbatim>\<open>seen\<close>. The iterator made for a node marks that
  node as seen when it is exhausted; a neighbour entry is visited only if the neighbour
  is not in \<^verbatim>\<open>seen\<close>.
\<close>

definition Graph_generate_edges_iter ::
  "'z graph_scheme \<Rightarrow> (key \<Rightarrow> key \<times> jsval \<Rightarrow> 'r) \<Rightarrow> (key \<times> jsval hashmap option) list \<Rightarrow> error + 'r list" where
  "Graph_generate_edges_iter g visit nbunch_iter =
     nested_chain nbunch_iter
       (\<lambda>nd s. case snd nd of
                  None \<Rightarrow> (Inl TypeError, (fst nd, snd s))
                | Some nbrs \<Rightarrow>
                    (case getEntries nbrs of
                       Inl e \<Rightarrow> (Inl e, (fst nd, snd s))
                     | Inr es \<Rightarrow> (Inr (es, \<lambda>s1. (fst s1, HashMap_set (snd s1) (fst s1) True)), (fst nd, snd s))))
       (\<lambda>nbrd s. if \<not> containsKey (snd s) (fst nbrd) then Some (visit (fst s) nbrd) else None)
       (KNull, (newNodeMap g :: bool hashmap))"

definition Graph_edges_iter :: "'z graph_scheme \<Rightarrow> key list option \<Rightarrow> bool \<Rightarrow> error + etuple list" where
  "Graph_edges_iter g opt_nbunch opt_data =
     (let visit = (if opt_data then (\<lambda>n nbrd. E3 n (fst nbrd) (snd nbrd))
                   else (\<lambda>n nbrd. E2 n (fst nbrd)))
      in case Graph_adjacency_iter g opt_nbunch of
           Inl e \<Rightarrow> Inl e
         | Inr nodes_nbrs \<Rightarrow> Graph_generate_edges_iter g visit nodes_nbrs)"

section \<open>DiGraph\<close>

text \<open>
  A DiGraph has the fields of a Graph and \<^verbatim>\<open>pred_\<close>; \<^verbatim>\<open>succ_\<close> is the same object
  as \<^verbatim>\<open>adj_\<close> (the constructor assigns \<^verbatim>\<open>this.succ_ = this.adj_\<close>), so it is the
  field \<open>adj'\<close>. The methods a DiGraph inherits from Graph are the functions above.
\<close>

record digraph = graph +
  pred' :: "jsval hashmap hashmap"

definition DiGraph_empty :: "(key \<Rightarrow> string) option \<Rightarrow> digraph" where
  "DiGraph_empty hash =
     \<lparr>graph' = [], graph_hash = hash, nodes' = HashMap hash, adj' = HashMap hash, pred' = HashMap hash\<rparr>"

definition defined :: "jsval \<Rightarrow> bool" where
  "defined x = (x \<noteq> JUndefined \<and> x \<noteq> JNull)"

text \<open>The value \<^verbatim>\<open>set\<close> stores: \<^verbatim>\<open>true\<close> in place of an undefined value.\<close>

definition or_true :: "jsval \<Rightarrow> jsval" where
  "or_true x = (if x = JUndefined then JBool True else x)"

text \<open>
  \<^verbatim>\<open>this.succ(n)\<close> and \<^verbatim>\<open>this.pred(n)\<close>. For an undefined or null \<open>n\<close> the source
  returns the whole map instead of a neighbour map; that case is left out.
\<close>

definition succ :: "digraph \<Rightarrow> key \<Rightarrow> error + jsval hashmap option" where
  "succ g n = (if isDefAndNotNull n then HashMap_get (adj' g) n None else Inl NotModelled)"

definition pred :: "digraph \<Rightarrow> key \<Rightarrow> error + jsval hashmap option" where
  "pred g n = (if isDefAndNotNull n then HashMap_get (pred' g) n None else Inl NotModelled)"

definition succ_call ::
  "digraph \<Rightarrow> key \<Rightarrow> (jsval hashmap \<Rightarrow> 'r \<times> jsval hashmap) \<Rightarrow> ('r, digraph) res" where
  "succ_call g n f =
     (case succ g n of
        Inl e \<Rightarrow> (Inl e, g)
      | Inr None \<Rightarrow> (Inl TypeError, g)
      | Inr (Some m) \<Rightarrow> (let (r, m1) = f m in (Inr r, g\<lparr>adj' := mutated (adj' g) n m1\<rparr>)))"

definition pred_call ::
  "digraph \<Rightarrow> key \<Rightarrow> (jsval hashmap \<Rightarrow> 'r \<times> jsval hashmap) \<Rightarrow> ('r, digraph) res" where
  "pred_call g n f =
     (case pred g n of
        Inl e \<Rightarrow> (Inl e, g)
      | Inr None \<Rightarrow> (Inl TypeError, g)
      | Inr (Some m) \<Rightarrow> (let (r, m1) = f m in (Inr r, g\<lparr>pred' := mutated (pred' g) n m1\<rparr>)))"

text \<open>
  \<^verbatim>\<open>DiGraph.prototype.add_node_impl\<close>: a given attribute record is replaced by an
  empty one (the test of the source is \<^verbatim>\<open>if (goog.isDefAndNotNull(opt_attr_dict))\<close>).
\<close>

definition DiGraph_add_node_impl ::
  "digraph \<Rightarrow> world \<Rightarrow> key \<Rightarrow> jsval \<Rightarrow> (unit, digraph \<times> world) res" where
  "DiGraph_add_node_impl g w n opt_attr_dict =
     (let (attr, w1) = (if defined opt_attr_dict
                        then (let (b, w2) = new_object w [] in (JRef b, w2))
                        else (opt_attr_dict, w))
      in if \<not> containsKey (nodes' g) n then
           (let g1 = g\<lparr>adj' := HashMap_set (adj' g) n (newNodeMap g)\<rparr>;
                g2 = g1\<lparr>pred' := HashMap_set (pred' g1) n (newNodeMap g1)\<rparr>
            in (Inr (), g2\<lparr>nodes' := HashMap_set (nodes' g2) n (or_true attr)\<rparr>, w1))
         else
           (case node g n of
              Inl e \<Rightarrow> (Inl e, g, w1)
            | Inr t \<Rightarrow>
                (case object_extend w1 (case t of Some x \<Rightarrow> x | None \<Rightarrow> JUndefined) attr of
                   (Inl e, w2) \<Rightarrow> (Inl e, g, w2)
                 | (Inr u, w2) \<Rightarrow> (Inr (), g, w2))))"

definition DiGraph_add_node :: "digraph \<Rightarrow> world \<Rightarrow> key \<Rightarrow> jsval \<Rightarrow> (unit, digraph \<times> world) res" where
  "DiGraph_add_node = add_node DiGraph_add_node_impl"

definition DiGraph_add_edge_impl ::
  "digraph \<Rightarrow> world \<Rightarrow> key \<Rightarrow> key \<Rightarrow> jsval \<Rightarrow> (unit, digraph \<times> world) res" where
  "DiGraph_add_edge_impl g w0 u v opt_attr =
     (let (opt_attr_dict, w) = (if truthy opt_attr then (opt_attr, w0)
                                else (let (b, w2) = new_object w0 [] in (JRef b, w2))) in
      case DiGraph_add_node g w u JUndefined of
        (Inl e, s) \<Rightarrow> (Inl e, s)
      | (Inr x1, g1, w1) \<Rightarrow>
     (case DiGraph_add_node g1 w1 v JUndefined of
        (Inl e, s) \<Rightarrow> (Inl e, s)
      | (Inr x2, g2, w2) \<Rightarrow>
     (case succ g2 u of
        Inl e \<Rightarrow> (Inl e, g2, w2)
      | Inr edges \<Rightarrow>
     (let (d, w3) = new_object w2 [] in
      case edges of
        None \<Rightarrow> (Inl TypeError, g2, w3)
      | Some es \<Rightarrow>
          if containsKey es v then
            (case HashMap_get es v None of
               Inl e \<Rightarrow> (Inl e, g2, w3)
             | Inr dd \<Rightarrow>
                 (case object_extend w3 (case dd of Some x \<Rightarrow> x | None \<Rightarrow> JUndefined) opt_attr_dict of
                    (Inl e, w4) \<Rightarrow> (Inl e, g2, w4)
                  | (Inr x3, w4) \<Rightarrow> (Inr (), g2, w4)))
          else
            (case object_extend w3 (JRef d) opt_attr_dict of
               (Inl e, w4) \<Rightarrow> (Inl e, g2, w4)
             | (Inr x3, w4) \<Rightarrow>
            (case succ_call g2 u (\<lambda>m. ((), HashMap_set m v (JRef d))) of
               (Inl e, g3) \<Rightarrow> (Inl e, g3, w4)
             | (Inr x4, g3) \<Rightarrow>
            (case pred_call g3 v (\<lambda>m. ((), HashMap_set m u (JRef d))) of
               (Inl e, g4) \<Rightarrow> (Inl e, g4, w4)
             | (Inr x5, g4) \<Rightarrow> (Inr (), g4, w4))))))))"

definition DiGraph_add_edge :: "digraph \<Rightarrow> world \<Rightarrow> key \<Rightarrow> key \<Rightarrow> jsval \<Rightarrow> (unit, digraph \<times> world) res" where
  "DiGraph_add_edge = add_edge DiGraph_add_edge_impl"

text \<open>
  \<^verbatim>\<open>DiGraph.prototype.remove_edge_impl\<close> starts with
  \<^verbatim>\<open>if (this.has_node_(u) && this.has_node_(v))\<close>. No class of the sources has a
  method \<^verbatim>\<open>has_node_\<close> (the method is \<^verbatim>\<open>has_node\<close>), so the call of the undefined
  property throws a TypeError before anything is removed.
\<close>

definition DiGraph_remove_edge_impl :: "digraph \<Rightarrow> key \<Rightarrow> key \<Rightarrow> (unit, digraph) res" where
  "DiGraph_remove_edge_impl g u v = (Inl TypeError, g)"

text \<open>
  \<^verbatim>\<open>DiGraph.prototype.adjacency_iter(opt_nbunch, opt_pred, opt_succ)\<close>: the entries of
  \<^verbatim>\<open>pred_\<close>, of \<^verbatim>\<open>succ_\<close>, both zipped (\<^verbatim>\<open>jsnx.helper.zip\<close> pairs the elements
  of the two iterators), or \<^verbatim>\<open>null\<close> when neither is asked for.
\<close>

datatype adjacency =
    Single "(key \<times> jsval hashmap option) list"
  | Both "((key \<times> jsval hashmap option) \<times> (key \<times> jsval hashmap option)) list"
  | Neither

definition DiGraph_adjacency_iter ::
  "digraph \<Rightarrow> key list option \<Rightarrow> bool option \<Rightarrow> bool option \<Rightarrow> error + adjacency" where
  "DiGraph_adjacency_iter g opt_nbunch opt_pred opt_succ =
     (let include_pred = (case opt_pred of Some b \<Rightarrow> b | None \<Rightarrow> False);
          include_succ = (case opt_succ of Some b \<Rightarrow> b | None \<Rightarrow> True)
      in if include_pred then
           (case generate_adjacency_iter g (pred' g) opt_nbunch of
              Inl e \<Rightarrow> Inl e
            | Inr ps \<Rightarrow>
                if include_succ then
                  (case generate_adjacency_iter g (adj' g) opt_nbunch of
                     Inl e \<Rightarrow> Inl e
                   | Inr ss \<Rightarrow> Inr (Both (zip ps ss)))
                else Inr (Single ps))
         else if include_succ then
           (case generate_adjacency_iter g (adj' g) opt_nbunch of
              Inl e \<Rightarrow> Inl e
            | Inr ss \<Rightarrow> Inr (Single ss))
         else Inr Neither)"

text \<open>
  \<^verbatim>\<open>DiGraph.prototype.generate_edges_iter(opt_nbunch, opt_data, opt_pred, opt_succ)\<close>.
  The second callback given to \<^verbatim>\<open>nested_chain\<close> is
  \<^verbatim>\<open>function(nbrd) { visit(n,nbrd); }\<close>: it calls \<^verbatim>\<open>visit\<close> and returns nothing.
  (With neither direction the source passes \<^verbatim>\<open>null\<close> to \<^verbatim>\<open>nested_chain\<close>; that
  call is left out.)
\<close>

definition DiGraph_generate_edges_iter ::
  "digraph \<Rightarrow> key list option \<Rightarrow> bool \<Rightarrow> bool option \<Rightarrow> bool option \<Rightarrow> error + etuple list" where
  "DiGraph_generate_edges_iter g opt_nbunch opt_data opt_pred opt_succ =
     (let include_pred = (case opt_pred of Some b \<Rightarrow> b | None \<Rightarrow> False);
          include_succ = (case opt_succ of Some b \<Rightarrow> b | None \<Rightarrow> True)
      in if include_pred \<and> include_succ
         then Inl (Error ''Why are you iterating over both directions?'')
         else
           (let visit =
                  (if opt_data then
                     (if include_succ then (\<lambda>n nbrd. E3 n (fst nbrd) (snd nbrd))
                      else (\<lambda>n nbrd. E3 (fst nbrd) n (snd nbrd)))
                   else
                     (if include_succ then (\<lambda>n nbrd. E2 n (fst nbrd))
                      else (\<lambda>n nbrd. E2 (fst nbrd) n)))
            in case DiGraph_adjacency_iter g opt_nbunch (Some include_pred) (Some include_succ) of
                 Inl e \<Rightarrow> Inl e
               | Inr (Single nodes_nbrs) \<Rightarrow>
                   nested_chain nodes_nbrs
                     (\<lambda>nd n. case snd nd of
                                None \<Rightarrow> (Inl TypeError, fst nd)
                              | Some nbrs \<Rightarrow>
                                  (case getEntries nbrs of
                                     Inl e \<Rightarrow> (Inl e, fst nd)
                                   | Inr es \<Rightarrow> (Inr (es, \<lambda>s. s), fst nd)))
                     (\<lambda>nbrd n. (let unused = visit n nbrd in None))
                     KNull
               | Inr other \<Rightarrow> Inl NotModelled))"

definition DiGraph_edges_iter :: "digraph \<Rightarrow> key list option \<Rightarrow> bool \<Rightarrow> error + etuple list" where
  "DiGraph_edges_iter g opt_nbunch opt_data =
     DiGraph_generate_edges_iter g opt_nbunch opt_data (Some True) (Some False)"

definition DiGraph_in_edges_iter :: "digraph \<Rightarrow> key list option \<Rightarrow> bool \<Rightarrow> error + etuple list" where
  "DiGraph_in_edges_iter g opt_nbunch opt_data =
     DiGraph_generate_edges_iter g opt_nbunch opt_data (Some True) (Some False)"

text \<open>
  \<^verbatim>\<open>DiGraph.prototype.generate_degree_iter\<close> assigns the adjacency iterator to
  \<^verbatim>\<open>node_nbrs\<close>, a variable that is declared nowhere (the declared local is
  \<^verbatim>\<open>nodes_nbrs\<close>). The file is in strict mode, where this assignment throws a
  ReferenceError, after the right-hand side has been evaluated.
\<close>

definition DiGraph_generate_degree_iter ::
  "digraph \<Rightarrow> key list option \<Rightarrow> string option \<Rightarrow> bool option \<Rightarrow> bool option \<Rightarrow> error + (key \<times> int) list" where
  "DiGraph_generate_degree_iter g opt_nbunch opt_weight opt_pred opt_succ =
     (let include_pred = (case opt_pred of Some b \<Rightarrow> b | None \<Rightarrow> False);
          include_succ = (case opt_succ of Some b \<Rightarrow> b | None \<Rightarrow> True)
      in case DiGraph_adjacency_iter g opt_nbunch (Some include_pred) (Some include_succ) of
           Inl e \<Rightarrow> Inl e
         | Inr node_nbrs \<Rightarrow> Inl ReferenceError)"

definition DiGraph_degree_iter :: "digraph \<Rightarrow> key list option \<Rightarrow> string option \<Rightarrow> error + (key \<times> int) list" where
  "DiGraph_degree_iter g opt_nbunch opt_weight =
     DiGraph_generate_degree_iter g opt_nbunch opt_weight (Some True) (Some True)"

lemmas DiGraph_simps =
  DiGraph_empty_def defined_def or_true_def succ_def pred_def succ_call_def pred_call_def
  DiGraph_add_node_impl_def DiGraph_add_node_def DiGraph_add_edge_impl_def DiGraph_add_edge_def
  DiGraph_adjacency_iter_def DiGraph_generate_edges_iter_def DiGraph_edges_iter_def
  isDefAndNotNull_def generate_adjacency_iter_def getEntries_def

lemma nested_chain_yields_nothing:
  "nested_chain xs f1 (\<lambda>y s. None) s = Inr zs \<Longrightarrow> zs = []"
proof (induction xs arbitrary: s zs)
  case Nil
  then show ?case by simp
next
  case (Cons x xs)
  then show ?case
    by (auto simp: List.map_filter_simps map_filter_def split: sum.splits prod.splits)
qed

lemma DiGraph_edges_iter_yields_nothing:
  "DiGraph_edges_iter g opt_nbunch opt_data = Inr es \<Longrightarrow> es = []"
  by (auto simp: DiGraph_edges_iter_def DiGraph_generate_edges_iter_def Let_def
      split: sum.splits adjacency.splits if_splits dest: nested_chain_yields_nothing)

text \<open>
  C3 (the code breaks the claim). Edge iteration over a directed graph yields no edge at
  all: the callback that should return the tuple \<^verbatim>\<open>[u, v]\<close> calls \<^verbatim>\<open>visit\<close> and
  drops its result, and \<^verbatim>\<open>nested_chain\<close> skips every element. For the digraph with
  the single edge (1, 2), \<^verbatim>\<open>edges_iter()\<close> and \<^verbatim>\<open>edges_iter(true)\<close> are exhausted at
  once, although 2 is a successor of 1.
\<close>

theorem DiGraph_edges_iter_omits_edge:
  "(let s = snd (DiGraph_add_edge (DiGraph_empty None) world_empty (KNum 1) (KNum 2) JUndefined);
        g = fst s
    in neighbour g (KNum 1) (KNum 2)
       \<and> DiGraph_edges_iter g None False = Inr []
       \<and> DiGraph_edges_iter g None True = Inr [])"
  by (simp add: HashMap_simps Graph_simps DiGraph_simps Let_def iter_from.simps show_int_def
      digit_char_def map_filter_def)

section \<open>MultiGraph and MultiDiGraph\<close>

text \<open>
  In the multi variants a neighbour map takes a neighbour to the key-map of the pair, a
  HashMap from edge key to attribute record. The key-map is one object referenced from
  both mirror entries, so it lives in the store (\<open>keymaps\<close>) and the entries hold
  \<open>JRef\<close> to it. \<^verbatim>\<open>newEdgeMap_\<close> is \<^verbatim>\<open>new jsnx.classes.HashMap()\<close>.
\<close>

definition new_keymap :: "world \<Rightarrow> addr \<times> world" where
  "new_keymap w = (fresh w, w\<lparr>keymaps := (keymaps w)(fresh w \<mapsto> HashMap None), fresh := fresh w + 1\<rparr>)"

definition the_keymap :: "world \<Rightarrow> jsval option \<Rightarrow> (addr \<times> jsval hashmap) option" where
  "the_keymap w x =
     (case x of
        Some (JRef a) \<Rightarrow> (case keymaps w a of Some km \<Rightarrow> Some (a, km) | None \<Rightarrow> None)
      | _ \<Rightarrow> None)"

text \<open>
  The search for a key when the caller gives none:
  \<^verbatim>\<open>opt_key = keydict.getCount(); while (keydict.containsKey(opt_key)) { opt_key += 1; }\<close>.
  \<open>find_key keydict k\<close> is the loop started at \<open>k\<close>; it is \<open>None\<close> if the loop does
  not end.
\<close>

partial_function (option) find_key :: "jsval hashmap \<Rightarrow> int \<Rightarrow> int option" where
  "find_key keydict k = (if containsKey keydict (KNum k) then find_key keydict (k + 1) else Some k)"

text \<open>
  The branch of \<^verbatim>\<open>add_edge_impl\<close> taken when the pair has a key-map already (the same
  text in MultiGraph and MultiDiGraph): choose the key, fetch or create the attribute
  record, extend it, store it under the key. The result is \<open>None\<close> if the key search
  does not end.
\<close>

definition add_to_keydict ::
  "world \<Rightarrow> jsval option \<Rightarrow> key \<Rightarrow> jsval \<Rightarrow> (unit, world) res option" where
  "add_to_keydict w kd opt_key opt_attr_dict =
     (case the_keymap w kd of
        None \<Rightarrow> Some (Inl TypeError, w)
      | Some (a, keydict) \<Rightarrow>
          (case (if \<not> isDefAndNotNull opt_key
                 then map_option KNum (find_key keydict (getCount keydict))
                 else Some opt_key) of
             None \<Rightarrow> None
           | Some k \<Rightarrow>
               (let (d, w1) = new_object w [] in
                case HashMap_get keydict k (Some (JRef d)) of
                  Inl e \<Rightarrow> Some (Inl e, w1)
                | Inr datadict \<Rightarrow>
                    (let dd = (case datadict of Some x \<Rightarrow> x | None \<Rightarrow> JUndefined) in
                     case object_extend w1 dd opt_attr_dict of
                       (Inl e, w2) \<Rightarrow> Some (Inl e, w2)
                     | (Inr x, w2) \<Rightarrow>
                         Some (Inr (), w2\<lparr>keymaps := (keymaps w2)(a \<mapsto> HashMap_set keydict k (or_true dd))\<rparr>)))))"

text \<open>
  The other branch: a new key-map with one entry, under key 0 if the caller gave none.
  It returns the reference to the key-map.
\<close>

definition new_keydict :: "world \<Rightarrow> key \<Rightarrow> jsval \<Rightarrow> (jsval, world) res" where
  "new_keydict w opt_key opt_attr_dict =
     (let k = (if \<not> isDefAndNotNull opt_key then KNum 0 else opt_key);
          (d, w1) = new_object w []
      in case object_extend w1 (JRef d) opt_attr_dict of
           (Inl e, w2) \<Rightarrow> (Inl e, w2)
         | (Inr x, w2) \<Rightarrow>
             (let (a, w3) = new_keymap w2
              in (Inr (JRef a), w3\<lparr>keymaps := (keymaps w3)(a \<mapsto> HashMap_set (HashMap None) k (JRef d))\<rparr>)))"

text \<open>
  \<^verbatim>\<open>MultiGraph.prototype.add_edge_impl(u, v, opt_key, opt_attr_dict)\<close>. The locals
  \<^verbatim>\<open>uadj\<close> and \<^verbatim>\<open>vadj\<close> are references to the two neighbour maps, fetched before
  the branch; the final \<^verbatim>\<open>uadj.set\<close> and \<^verbatim>\<open>vadj.set\<close> act on those objects as they
  are then.
\<close>

definition MultiGraph_add_edge_impl ::
  "graph \<Rightarrow> world \<Rightarrow> key \<Rightarrow> key \<Rightarrow> key \<Rightarrow> jsval \<Rightarrow> (unit, graph \<times> world) res option" where
  "MultiGraph_add_edge_impl g w u v opt_key opt_attr_dict =
     (case Graph_add_node g w u JUndefined of
        (Inl e, s) \<Rightarrow> Some (Inl e, s)
      | (Inr x1, g1, w1) \<Rightarrow>
     (case Graph_add_node g1 w1 v JUndefined of
        (Inl e, s) \<Rightarrow> Some (Inl e, s)
      | (Inr x2, g2, w2) \<Rightarrow>
     (case adj g2 u of
        Inl e \<Rightarrow> Some (Inl e, g2, w2)
      | Inr uadj \<Rightarrow>
     (case adj g2 v of
        Inl e \<Rightarrow> Some (Inl e, g2, w2)
      | Inr vadj \<Rightarrow>
     (case uadj of
        None \<Rightarrow> Some (Inl TypeError, g2, w2)
      | Some ua \<Rightarrow>
          if containsKey ua v then
            (case HashMap_get ua v None of
               Inl e \<Rightarrow> Some (Inl e, g2, w2)
             | Inr kd \<Rightarrow>
                 (case add_to_keydict w2 kd opt_key opt_attr_dict of
                    None \<Rightarrow> None
                  | Some (r, w3) \<Rightarrow> Some (r, g2, w3)))
          else
            (case new_keydict w2 opt_key opt_attr_dict of
               (Inl e, w3) \<Rightarrow> Some (Inl e, g2, w3)
             | (Inr keydict, w3) \<Rightarrow>
            (case adj_call g2 u (\<lambda>m. ((), HashMap_set m v keydict)) of
               (Inl e, g3) \<Rightarrow> Some (Inl e, g3, w3)
             | (Inr x4, g3) \<Rightarrow>
            (case adj_call g3 v (\<lambda>m. ((), HashMap_set m u keydict)) of
               (Inl e, g4) \<Rightarrow> Some (Inl e, g4, w3)
             | (Inr x5, g4) \<Rightarrow> Some (Inr (), g4, w3)))))))))"

text \<open>
  \<^verbatim>\<open>add_edge(u, v, opt_key, opt_attr_dict)\<close> of MultiGraph and of MultiDiGraph (the
  same text), for a key that is absent, a number or a string (any other third argument
  is taken as the attribute record by the source; the typed model has no such call).
  \<open>impl\<close> is the \<^verbatim>\<open>add_edge_impl\<close> of the object's class.
\<close>

definition multi_add_edge ::
  "('g \<Rightarrow> world \<Rightarrow> key \<Rightarrow> key \<Rightarrow> key \<Rightarrow> jsval \<Rightarrow> (unit, 'g \<times> world) res option)
   \<Rightarrow> 'g \<Rightarrow> world \<Rightarrow> key \<Rightarrow> key \<Rightarrow> key \<Rightarrow> jsval \<Rightarrow> (unit, 'g \<times> world) res option" where
  "multi_add_edge impl g w u v opt_key opt_attr_dict =
     (let (attr, w1) = (if truthy opt_attr_dict then (opt_attr_dict, w)
                        else (let (b, w2) = new_object w [] in (JRef b, w2)))
      in if \<not> is_object attr
         then Some (Inl (JSNetworkXError ''The attr_dict argument must be an object.''), g, w1)
         else impl g w1 u v opt_key attr)"

definition MultiGraph_add_edge ::
  "graph \<Rightarrow> world \<Rightarrow> key \<Rightarrow> key \<Rightarrow> key \<Rightarrow> jsval \<Rightarrow> (unit, graph \<times> world) res option" where
  "MultiGraph_add_edge = multi_add_edge MultiGraph_add_edge_impl"

text \<open>
  \<^verbatim>\<open>MultiDiGraph.prototype.add_node_impl\<close> and \<^verbatim>\<open>add_edge_impl\<close>. The test
  \<^verbatim>\<open>this.has_edge(u, v)\<close> is the \<^verbatim>\<open>has_edge\<close> mixed in from MultiGraph:
  \<^verbatim>\<open>e = this.adj(u); return goog.isDef(e) && e.containsKey(v)\<close>.
\<close>

definition MultiDiGraph_add_node_impl ::
  "digraph \<Rightarrow> world \<Rightarrow> key \<Rightarrow> jsval \<Rightarrow> (unit, digraph \<times> world) res" where
  "MultiDiGraph_add_node_impl g w n opt_attr_dict =
     (if \<not> has_node g n then
        (let g1 = g\<lparr>adj' := HashMap_set (adj' g) n (newNodeMap g)\<rparr>;
             g2 = g1\<lparr>pred' := HashMap_set (pred' g1) n (newNodeMap g1)\<rparr>
         in (Inr (), g2\<lparr>nodes' := HashMap_set (nodes' g2) n (or_true opt_attr_dict)\<rparr>, w))
      else (Inr (), g, w))"

definition MultiGraph_has_edge :: "'z graph_scheme \<Rightarrow> key \<Rightarrow> key \<Rightarrow> error + bool" where
  "MultiGraph_has_edge g u v =
     (case adj g u of
        Inl e \<Rightarrow> Inl e
      | Inr None \<Rightarrow> Inr False
      | Inr (Some m) \<Rightarrow> Inr (containsKey m v))"

definition MultiDiGraph_add_edge_impl ::
  "digraph \<Rightarrow> world \<Rightarrow> key \<Rightarrow> key \<Rightarrow> key \<Rightarrow> jsval \<Rightarrow> (unit, digraph \<times> world) res option" where
  "MultiDiGraph_add_edge_impl g w u v opt_key opt_attr_dict =
     (case add_node MultiDiGraph_add_node_impl g w u JUndefined of
        (Inl e, s) \<Rightarrow> Some (Inl e, s)
      | (Inr x1, g1, w1) \<Rightarrow>
     (case add_node MultiDiGraph_add_node_impl g1 w1 v JUndefined of
        (Inl e, s) \<Rightarrow> Some (Inl e, s)
      | (Inr x2, g2, w2) \<Rightarrow>
     (case MultiGraph_has_edge g2 u v of
        Inl e \<Rightarrow> Some (Inl e, g2, w2)
      | Inr True \<Rightarrow>
          (case adj g2 u of
             Inl e \<Rightarrow> Some (Inl e, g2, w2)
           | Inr None \<Rightarrow> Some (Inl TypeError, g2, w2)
           | Inr (Some ua) \<Rightarrow>
               (case HashMap_get ua v None of
                  Inl e \<Rightarrow> Some (Inl e, g2, w2)
                | Inr kd \<Rightarrow>
                    (case add_to_keydict w2 kd opt_key opt_attr_dict of
                       None \<Rightarrow> None
                     | Some (r, w3) \<Rightarrow> Some (r, g2, w3))))
      | Inr False \<Rightarrow>
          (case new_keydict w2 opt_key opt_attr_dict of
             (Inl e, w3) \<Rightarrow> Some (Inl e, g2, w3)
           | (Inr keydict, w3) \<Rightarrow>
          (case succ_call g2 u (\<lambda>m. ((), HashMap_set m v keydict)) of
             (Inl e, g3) \<Rightarrow> Some (Inl e, g3, w3)
           | (Inr x4, g3) \<Rightarrow>
          (case pred_call g3 v (\<lambda>m. ((), HashMap_set m u keydict)) of
             (Inl e, g4) \<Rightarrow> Some (Inl e, g4, w3)
           | (Inr x5, g4) \<Rightarrow> Some (Inr (), g4, w3)))))))"

definition MultiDiGraph_add_edge ::
  "digraph \<Rightarrow> world \<Rightarrow> key \<Rightarrow> key \<Rightarrow> key \<Rightarrow> jsval \<Rightarrow> (unit, digraph \<times> world) res option" where
  "MultiDiGraph_add_edge = multi_add_edge MultiDiGraph_add_edge_impl"

text \<open>The edge keys of the pair \<open>(u, v)\<close>, in the order of the key-map.\<close>

definition edge_keys :: "'z graph_scheme \<Rightarrow> world \<Rightarrow> key \<Rightarrow> key \<Rightarrow> key list option" where
  "edge_keys g w u v =
     (case the_keymap w (edge_record g u v) of
        None \<Rightarrow> None
      | Some (a, km) \<Rightarrow> (case getEntries km of Inl e \<Rightarrow> None | Inr es \<Rightarrow> Some (map fst es)))"

lemmas MultiGraph_simps =
  new_keymap_def the_keymap_def add_to_keydict_def new_keydict_def MultiGraph_add_edge_impl_def
  MultiGraph_add_edge_def multi_add_edge_def MultiDiGraph_add_edge_def MultiDiGraph_add_node_impl_def MultiGraph_has_edge_def
  MultiDiGraph_add_edge_impl_def edge_keys_def getCount_def find_key.simps

text \<open>
  C4 (the code breaks the claim). Without a key from the caller, \<^verbatim>\<open>add_edge(u, v)\<close>
  on a pair that has a key-map starts the search at the number of entries of that
  key-map, not at 0. After \<^verbatim>\<open>add_edge('a', 'b', 1)\<close> the call \<^verbatim>\<open>add_edge('a', 'b')\<close>
  inserts under key 2, although 0 is the smallest non-negative integer not in the
  key-map. The same holds in MultiGraph and in MultiDiGraph.
\<close>

theorem add_edge_key_is_not_smallest_unused:
  "(case MultiGraph_add_edge (Graph_empty [] None) world_empty (KStr ''a'') (KStr ''b'') (KNum 1) JUndefined of
      Some (r1, g1, w1) \<Rightarrow>
        (case MultiGraph_add_edge g1 w1 (KStr ''a'') (KStr ''b'') KUndefined JUndefined of
           Some (r2, g2, w2) \<Rightarrow>
             r1 = Inr () \<and> edge_keys g1 w1 (KStr ''a'') (KStr ''b'') = Some [KNum 1]
             \<and> r2 = Inr () \<and> edge_keys g2 w2 (KStr ''a'') (KStr ''b'') = Some [KNum 1, KNum 2]
         | None \<Rightarrow> False)
    | None \<Rightarrow> False)
   \<and>
   (case MultiDiGraph_add_edge (DiGraph_empty None) world_empty (KStr ''a'') (KStr ''b'') (KNum 1) JUndefined of
      Some (r1, g1, w1) \<Rightarrow>
        (case MultiDiGraph_add_edge g1 w1 (KStr ''a'') (KStr ''b'') KUndefined JUndefined of
           Some (r2, g2, w2) \<Rightarrow>
             r1 = Inr () \<and> edge_keys g1 w1 (KStr ''a'') (KStr ''b'') = Some [KNum 1]
             \<and> r2 = Inr () \<and> edge_keys g2 w2 (KStr ''a'') (KStr ''b'') = Some [KNum 1, KNum 2]
         | None \<Rightarrow> False)
    | None \<Rightarrow> False)"
  by (simp add: HashMap_simps Graph_simps DiGraph_simps MultiGraph_simps Let_def iter_from.simps
      show_int_def digit_char_def)

section \<open>Bulk insertion, names, nodes and degrees\<close>

text \<open>
  \<^verbatim>\<open>jsnx.helper.forEach\<close> over an array (or over an iterator that does not depend on
  what the callback changes): the callback runs on each element in turn; an exception
  ends the loop.
\<close>

fun forEach :: "('a \<Rightarrow> 's \<Rightarrow> (unit, 's) res) \<Rightarrow> 'a list \<Rightarrow> 's \<Rightarrow> (unit, 's) res" where
  "forEach f [] s = (Inr (), s)"
| "forEach f (x # xs) s = (case f x s of (Inl e, s1) \<Rightarrow> (Inl e, s1) | (Inr u, s1) \<Rightarrow> forEach f xs s1)"

text \<open>An element given to \<^verbatim>\<open>add_nodes_from\<close>: a node, or a pair \<^verbatim>\<open>[node, attributes]\<close>.\<close>

datatype nodearg = Node key | NodeAttr key jsval

definition add_nodes_from_step ::
  "('z graph_scheme \<Rightarrow> world \<Rightarrow> key \<Rightarrow> jsval \<Rightarrow> (unit, 'z graph_scheme \<times> world) res)
   \<Rightarrow> jsval \<Rightarrow> nodearg \<Rightarrow> 'z graph_scheme \<times> world \<Rightarrow> (unit, 'z graph_scheme \<times> world) res" where
  "add_nodes_from_step impl opt_attr n s =
     (case n of
        NodeAttr nn ndict \<Rightarrow>
          (let (attr, w1) = object_clone (snd s) opt_attr in
           case object_extend w1 attr ndict of
             (Inl e, w2) \<Rightarrow> (Inl e, fst s, w2)
           | (Inr x, w2) \<Rightarrow> impl (fst s) w2 nn attr)
      | Node k \<Rightarrow>
          if \<not> has_node (fst s) k then
            (let (attr, w1) = object_clone (snd s) opt_attr in add_node impl (fst s) w1 k attr)
          else
            (case node (fst s) k of
               Inl e \<Rightarrow> (Inl e, s)
             | Inr t \<Rightarrow>
                 (case object_extend (snd s) (case t of Some x \<Rightarrow> x | None \<Rightarrow> JUndefined) opt_attr of
                    (Inl e, w1) \<Rightarrow> (Inl e, fst s, w1)
                  | (Inr x, w1) \<Rightarrow> (Inr (), fst s, w1))))"

definition add_nodes_from ::
  "('z graph_scheme \<Rightarrow> world \<Rightarrow> key \<Rightarrow> jsval \<Rightarrow> (unit, 'z graph_scheme \<times> world) res)
   \<Rightarrow> 'z graph_scheme \<Rightarrow> world \<Rightarrow> nodearg list \<Rightarrow> jsval \<Rightarrow> (unit, 'z graph_scheme \<times> world) res" where
  "add_nodes_from impl g w nodes opt_attr =
     (let (attr, w1) = (if defined opt_attr then (opt_attr, w)
                        else (let (b, w2) = new_object w [] in (JRef b, w2)))
      in forEach (add_nodes_from_step impl attr) nodes (g, w1))"

text \<open>
  \<^verbatim>\<open>Graph.prototype.add_edges_from(ebunch, opt_attr_dict)\<close>: \<open>start\<close> is the part
  before the loop, \<open>step\<close> the callback of the loop. \<open>add_edge_fn\<close> is the
  \<^verbatim>\<open>add_edge\<close> of the object's class.
\<close>

definition key_val :: "key \<Rightarrow> jsval" where
  "key_val k = (case k of KNum i \<Rightarrow> JNum i | KStr s \<Rightarrow> JStr s | KBool b \<Rightarrow> JBool b
                 | KNull \<Rightarrow> JNull | _ \<Rightarrow> JUndefined)"

definition tuple_string :: "etuple \<Rightarrow> string" where
  "tuple_string e =
     (case e of
        E2 u v \<Rightarrow> to_string u @ '','' @ to_string v
      | E3 u v d \<Rightarrow> to_string u @ '','' @ to_string v @ '',[object Object]''
      | E3k u v k \<Rightarrow> to_string u @ '','' @ to_string v @ '','' @ to_string k
      | E4 u v k d \<Rightarrow> to_string u @ '','' @ to_string v @ '','' @ to_string k @ '',[object Object]'')"

definition add_edges_from_start :: "world \<Rightarrow> jsval \<Rightarrow> (jsval, world) res" where
  "add_edges_from_start w opt_attr_dict =
     (let (attr, w1) = (if truthy opt_attr_dict then (opt_attr_dict, w)
                        else (let (b, w2) = new_object w [] in (JRef b, w2)))
      in if \<not> is_object attr
         then (Inl (JSNetworkXError ''The attr_dict argument must be an object.''), w1)
         else (Inr attr, w1))"

definition add_edges_from_step ::
  "('g \<Rightarrow> world \<Rightarrow> key \<Rightarrow> key \<Rightarrow> jsval \<Rightarrow> (unit, 'g \<times> world) res)
   \<Rightarrow> jsval \<Rightarrow> etuple \<Rightarrow> 'g \<times> world \<Rightarrow> (unit, 'g \<times> world) res" where
  "add_edges_from_step add_edge_fn opt_attr_dict e s =
     (let go = (\<lambda>u v dd w.
                  (let (dict, w1) = object_clone w opt_attr_dict in
                   case object_extend w1 dict dd of
                     (Inl x, w2) \<Rightarrow> (Inl x, fst s, w2)
                   | (Inr x, w2) \<Rightarrow> add_edge_fn (fst s) w2 u v dict))
      in case e of
           E3 u v dd \<Rightarrow> go u v dd (snd s)
         | E3k u v k \<Rightarrow> go u v (key_val k) (snd s)
         | E2 u v \<Rightarrow> (let (d, w1) = new_object (snd s) [] in go u v (JRef d) w1)
         | E4 u v k d \<Rightarrow>
             (Inl (JSNetworkXError (''Edge tuple '' @ tuple_string e @ '' must be a 2-tuple or 3-tuple.'')), s))"

definition add_edges_from ::
  "('g \<Rightarrow> world \<Rightarrow> key \<Rightarrow> key \<Rightarrow> jsval \<Rightarrow> (unit, 'g \<times> world) res)
   \<Rightarrow> 'g \<Rightarrow> world \<Rightarrow> etuple list \<Rightarrow> jsval \<Rightarrow> (unit, 'g \<times> world) res" where
  "add_edges_from add_edge_fn g w ebunch opt_attr_dict =
     (case add_edges_from_start w opt_attr_dict of
        (Inl e, w1) \<Rightarrow> (Inl e, g, w1)
      | (Inr attr, w1) \<Rightarrow> forEach (add_edges_from_step add_edge_fn attr) ebunch (g, w1))"

text \<open>
  The same loop for a callback that may not return (the key search of the multigraph
  \<^verbatim>\<open>add_edge_impl\<close>): \<open>None\<close> if a call of the callback does not return.
\<close>

fun forEach_option ::
  "('a \<Rightarrow> 's \<Rightarrow> (unit, 's) res option) \<Rightarrow> 'a list \<Rightarrow> 's \<Rightarrow> (unit, 's) res option" where
  "forEach_option f [] s = Some (Inr (), s)"
| "forEach_option f (x # xs) s =
     (case f x s of
        None \<Rightarrow> None
      | Some (Inl e, s1) \<Rightarrow> Some (Inl e, s1)
      | Some (Inr u, s1) \<Rightarrow> forEach_option f xs s1)"

text \<open>
  \<^verbatim>\<open>MultiGraph.prototype.add_edges_from(ebunch, opt_attr_dict)\<close>: the part before the
  loop is that of Graph; \<open>step\<close> is the callback of the loop. Its declaration
  \<^verbatim>\<open>dd = {}\<close> creates an object for every tuple; \<^verbatim>\<open>key\<close> stays \<^verbatim>\<open>null\<close> unless the
  tuple has four elements. \<open>impl\<close> is the \<^verbatim>\<open>add_edge_impl\<close> of the object's class.
\<close>

definition MultiGraph_add_edges_from_step ::
  "('g \<Rightarrow> world \<Rightarrow> key \<Rightarrow> key \<Rightarrow> key \<Rightarrow> jsval \<Rightarrow> (unit, 'g \<times> world) res option)
   \<Rightarrow> jsval \<Rightarrow> etuple \<Rightarrow> 'g \<times> world \<Rightarrow> (unit, 'g \<times> world) res option" where
  "MultiGraph_add_edges_from_step impl opt_attr_dict e s =
     (let (dd0, w0) = new_object (snd s) [];
          go = (\<lambda>u v key dd.
                  (let (datadict, w1) = object_clone w0 opt_attr_dict in
                   case object_extend w1 datadict dd of
                     (Inl x, w2) \<Rightarrow> Some (Inl x, fst s, w2)
                   | (Inr x, w2) \<Rightarrow> impl (fst s) w2 u v key datadict))
      in case e of
           E4 u v k d \<Rightarrow> go u v k d
         | E3 u v d \<Rightarrow> go u v KNull d
         | E3k u v k \<Rightarrow> go u v KNull (key_val k)
         | E2 u v \<Rightarrow> go u v KNull (JRef dd0))"

definition MultiGraph_add_edges_from ::
  "('g \<Rightarrow> world \<Rightarrow> key \<Rightarrow> key \<Rightarrow> key \<Rightarrow> jsval \<Rightarrow> (unit, 'g \<times> world) res option)
   \<Rightarrow> 'g \<Rightarrow> world \<Rightarrow> etuple list \<Rightarrow> jsval \<Rightarrow> (unit, 'g \<times> world) res option" where
  "MultiGraph_add_edges_from impl g w ebunch opt_attr_dict =
     (case add_edges_from_start w opt_attr_dict of
        (Inl e, w1) \<Rightarrow> Some (Inl e, g, w1)
      | (Inr attr, w1) \<Rightarrow> forEach_option (MultiGraph_add_edges_from_step impl attr) ebunch (g, w1))"

text \<open>
  \<^verbatim>\<open>MultiGraph.prototype.edges_iter(opt_nbunch, opt_data, opt_keys)\<close>, after the shift
  of the arguments that the source does when the first one is a boolean (the call
  \<^verbatim>\<open>edges_iter(true, true)\<close> asks for data and keys, without a bunch). The outer
  iterator is \<^verbatim>\<open>Graph.prototype.edges_iter.call(this, opt_nbunch, true)\<close>, which yields
  each pair of neighbours once with its key-map; the first callback keeps the pair in
  the closure and returns the entry iterator of the key-map, the second one returns
  \<^verbatim>\<open>visit(n, nbr, edata)\<close>.
\<close>

definition MultiGraph_edges_iter ::
  "'z graph_scheme \<Rightarrow> world \<Rightarrow> key list option \<Rightarrow> bool \<Rightarrow> bool \<Rightarrow> error + etuple list" where
  "MultiGraph_edges_iter g w opt_nbunch opt_data opt_keys =
     (let visit =
            (if opt_keys then
               (if opt_data then (\<lambda>n nbr edata. E4 n nbr (fst edata) (snd edata))
                else (\<lambda>n nbr edata. E3k n nbr (fst edata)))
             else
               (if opt_data then (\<lambda>n nbr edata. E3 n nbr (snd edata))
                else (\<lambda>n nbr edata. E2 n nbr)))
      in case Graph_edges_iter g opt_nbunch True of
           Inl e \<Rightarrow> Inl e
         | Inr superiter \<Rightarrow>
             nested_chain superiter
               (\<lambda>nd s. case nd of
                          E3 n nbr kd \<Rightarrow>
                            (case the_keymap w (Some kd) of
                               None \<Rightarrow> (Inl TypeError, (n, nbr))
                             | Some (a, km) \<Rightarrow>
                                 (case getEntries km of
                                    Inl e \<Rightarrow> (Inl e, (n, nbr))
                                  | Inr es \<Rightarrow> (Inr (es, \<lambda>s1. s1), (n, nbr))))
                        | _ \<Rightarrow> (Inl NotModelled, s))
               (\<lambda>edata s. Some (visit (fst s) (snd s) edata))
               (KNull, KNull))"

text \<open>
  \<^verbatim>\<open>MultiDiGraph.prototype.generate_edges_iter(opt_nbunch, opt_data, opt_keys, opt_pred,
  opt_succ)\<close> and \<^verbatim>\<open>edges_iter(opt_nbunch, opt_data, opt_keys)\<close>. The first argument is
  a bunch of nodes or, in calls such as \<^verbatim>\<open>edges_iter(true, true)\<close>, a boolean. For a
  boolean first argument the source does \<^verbatim>\<open>opt_data = opt_nbunch; opt_nbunch = null\<close>
  and nothing else: \<^verbatim>\<open>opt_keys\<close> keeps the value of the third argument. The chain has
  three levels: the nodes with their neighbour maps, the neighbours with their key-maps,
  the keys with their records (\<open>keymap_entries\<close> lists the last two levels for one
  node); the last callback returns \<^verbatim>\<open>visit(n, nbr, edgedata)\<close>.
\<close>

datatype nbunch = Nodes "key list" | Flag bool

fun keymap_entries :: "world \<Rightarrow> (key \<times> jsval) list \<Rightarrow> error + (key \<times> key \<times> jsval) list" where
  "keymap_entries w [] = Inr []"
| "keymap_entries w (nbrd # es) =
     (case the_keymap w (Some (snd nbrd)) of
        None \<Rightarrow> Inl TypeError
      | Some (a, km) \<Rightarrow>
          (case getEntries km of
             Inl e \<Rightarrow> Inl e
           | Inr ks \<Rightarrow>
               (case keymap_entries w es of
                  Inl e \<Rightarrow> Inl e
                | Inr rest \<Rightarrow> Inr (map (\<lambda>edge. (fst nbrd, edge)) ks @ rest))))"

definition MultiDiGraph_generate_edges_iter ::
  "digraph \<Rightarrow> world \<Rightarrow> nbunch option \<Rightarrow> bool option \<Rightarrow> bool option \<Rightarrow> bool option \<Rightarrow> bool option
   \<Rightarrow> error + etuple list" where
  "MultiDiGraph_generate_edges_iter g w opt_nbunch opt_data opt_keys opt_pred opt_succ =
     (let (opt_data1, opt_nbunch1) =
            (case opt_nbunch of
               Some (Flag b) \<Rightarrow> (Some b, None)
             | Some (Nodes ns) \<Rightarrow> (opt_data, Some ns)
             | None \<Rightarrow> (opt_data, None));
          include_pred = (case opt_pred of Some b \<Rightarrow> b | None \<Rightarrow> False);
          include_succ = (case opt_succ of Some b \<Rightarrow> b | None \<Rightarrow> True)
      in if include_pred \<and> include_succ
         then Inl (Error ''Why are you iterating over both directions?'')
         else
           (let visit =
                  (if opt_data1 = Some True then
                     (if opt_keys = Some True then
                        (if include_succ then (\<lambda>n nb edge. E4 n nb (fst edge) (snd edge))
                         else (\<lambda>n nb edge. E4 nb n (fst edge) (snd edge)))
                      else
                        (if include_succ then (\<lambda>n nb edge. E3 n nb (snd edge))
                         else (\<lambda>n nb edge. E3 nb n (snd edge))))
                   else
                     (if opt_keys = Some True then
                        (if include_succ then (\<lambda>n nb edge. E3k n nb (fst edge))
                         else (\<lambda>n nb edge. E3k nb n (fst edge)))
                      else
                        (if include_succ then (\<lambda>n nb edge. E2 n nb)
                         else (\<lambda>n nb edge. E2 nb n))))
            in case DiGraph_adjacency_iter g opt_nbunch1 (Some include_pred) (Some include_succ) of
                 Inl e \<Rightarrow> Inl e
               | Inr (Single nodes_nbrs) \<Rightarrow>
                   nested_chain nodes_nbrs
                     (\<lambda>nd n. case snd nd of
                                None \<Rightarrow> (Inl TypeError, fst nd)
                              | Some nbrs \<Rightarrow>
                                  (case getEntries nbrs of
                                     Inl e \<Rightarrow> (Inl e, fst nd)
                                   | Inr es \<Rightarrow>
                                       (case keymap_entries w es of
                                          Inl e \<Rightarrow> (Inl e, fst nd)
                                        | Inr ys \<Rightarrow> (Inr (ys, \<lambda>s. s), fst nd))))
                     (\<lambda>y n. Some (visit n (fst y) (snd y)))
                     KNull
               | Inr other \<Rightarrow> Inl NotModelled))"

definition MultiDiGraph_edges_iter ::
  "digraph \<Rightarrow> world \<Rightarrow> nbunch option \<Rightarrow> bool option \<Rightarrow> bool option \<Rightarrow> error + etuple list" where
  "MultiDiGraph_edges_iter g w opt_nbunch opt_data opt_keys =
     MultiDiGraph_generate_edges_iter g w opt_nbunch opt_data opt_keys (Some False) (Some True)"

text \<open>\<^verbatim>\<open>name()\<close> and \<^verbatim>\<open>name(opt_name)\<close>.\<close>

definition name :: "'z graph_scheme \<Rightarrow> string" where
  "name g = (case map_of (graph' g) ''name'' of Some (JStr s) \<Rightarrow> s | _ \<Rightarrow> [])"

definition set_name :: "'z graph_scheme \<Rightarrow> string \<Rightarrow> 'z graph_scheme" where
  "set_name g s = g\<lparr>graph' := dict_put ''name'' (JStr s) (graph' g)\<rparr>"

text \<open>\<^verbatim>\<open>nodes()\<close> and \<^verbatim>\<open>nodes(true)\<close>: the keys and the entries of \<^verbatim>\<open>nodes_\<close>.\<close>

definition nodes :: "'z graph_scheme \<Rightarrow> error + key list" where
  "nodes g = (case getEntries (nodes' g) of Inl e \<Rightarrow> Inl e | Inr es \<Rightarrow> Inr (map fst es))"

definition nodes_data :: "'z graph_scheme \<Rightarrow> error + (key \<times> jsval) list" where
  "nodes_data g = getEntries (nodes' g)"

text \<open>
  \<^verbatim>\<open>Graph.prototype.degree_iter(opt_nbunch)\<close> without a weight: for each node the
  count of its neighbour map, plus one if the node is its own neighbour
  (\<^verbatim>\<open>jsnx.classes.Graph.count_edges\<close>).
\<close>

definition count_edges :: "key \<Rightarrow> int \<Rightarrow> 'v hashmap \<Rightarrow> int" where
  "count_edges n r nbrs = r + getCount nbrs + (if containsKey nbrs n then 1 else 0)"

fun degrees :: "(key \<times> jsval hashmap option) list \<Rightarrow> error + (key \<times> int) list" where
  "degrees [] = Inr []"
| "degrees ((n, None) # nds) = Inl TypeError"
| "degrees ((n, Some nbrs) # nds) =
     (case degrees nds of Inl e \<Rightarrow> Inl e | Inr ds \<Rightarrow> Inr ((n, count_edges n 0 nbrs) # ds))"

definition Graph_degree_iter :: "'z graph_scheme \<Rightarrow> key list option \<Rightarrow> error + (key \<times> int) list" where
  "Graph_degree_iter g opt_nbunch =
     (case Graph_adjacency_iter g opt_nbunch of Inl e \<Rightarrow> Inl e | Inr nodes_nbrs \<Rightarrow> degrees nodes_nbrs)"

section \<open>Relabel\<close>

text \<open>
  A mapping is a plain object: its own properties (the old labels, as property names) in
  enumeration order, each with the new label. A plain object inherits the properties of
  \<^verbatim>\<open>Object.prototype\<close>: the seven methods of the language standard, and, in the
  engines that run the library, the four legacy accessor methods and \<^verbatim>\<open>__proto__\<close>,
  whose value is \<^verbatim>\<open>Object.prototype\<close> itself. The methods are function objects (keys
  \<open>KOther\<close>), \<^verbatim>\<open>Object.prototype\<close> is a plain object.

  \<^verbatim>\<open>goog.object.get(mapping, n, n)\<close> is
  \<^verbatim>\<open>if (key in obj) { return obj[key]; } return opt_val;\<close>. It looks the node up under
  its string form, and \<^verbatim>\<open>in\<close> finds an own property as well as an inherited one: a
  node \<^verbatim>\<open>'toString'\<close> that the mapping does not name is relabelled to the function
  \<^verbatim>\<open>Object.prototype.toString\<close>.
\<close>

type_synonym mapping = "(string \<times> key) list"

definition Object_prototype :: "(string \<times> key) list" where
  "Object_prototype =
     [(''constructor'', KOther 0), (''toString'', KOther 1), (''toLocaleString'', KOther 2),
      (''valueOf'', KOther 3), (''hasOwnProperty'', KOther 4), (''isPrototypeOf'', KOther 5),
      (''propertyIsEnumerable'', KOther 6), (''__defineGetter__'', KOther 7),
      (''__defineSetter__'', KOther 8), (''__lookupGetter__'', KOther 9),
      (''__lookupSetter__'', KOther 10), (''__proto__'', KPlain 0)]"

definition mapping_get :: "mapping \<Rightarrow> key \<Rightarrow> key" where
  "mapping_get m n =
     (case map_of m (to_string n) of
        Some x \<Rightarrow> x
      | None \<Rightarrow> (case map_of Object_prototype (to_string n) of Some x \<Rightarrow> x | None \<Rightarrow> n))"

text \<open>The assignment \<^verbatim>\<open>mapping[n] = j\<close>.\<close>

definition mapping_put :: "key \<Rightarrow> key \<Rightarrow> mapping \<Rightarrow> mapping" where
  "mapping_put n j m =
     (if to_string n \<in> fst ` set m
      then map (\<lambda>p. if fst p = to_string n then (to_string n, j) else p) m
      else m @ [(to_string n, j)])"

text \<open>
  What \<^verbatim>\<open>relabel_copy_\<close> does with one edge \<^verbatim>\<open>[u, v, data]\<close> of \<open>G\<close>: the tuple
  \<^verbatim>\<open>[mapping.get(u, u), mapping.get(v, v), goog.object.clone(data)]\<close> goes through the
  loop body of \<^verbatim>\<open>add_edges_from\<close>.
\<close>

definition relabel_edge ::
  "('g \<Rightarrow> world \<Rightarrow> key \<Rightarrow> key \<Rightarrow> jsval \<Rightarrow> (unit, 'g \<times> world) res)
   \<Rightarrow> jsval \<Rightarrow> mapping \<Rightarrow> etuple \<Rightarrow> 'g \<times> world \<Rightarrow> (unit, 'g \<times> world) res" where
  "relabel_edge add_edge_fn attr mapping d s =
     (case d of
        E3 u v dd \<Rightarrow>
          (let (c, w2) = object_clone (snd s) dd
           in add_edges_from_step add_edge_fn attr
                (E3 (mapping_get mapping u) (mapping_get mapping v) c) (fst s, w2))
      | _ \<Rightarrow> (Inl NotModelled, s))"

text \<open>
  The second half of \<^verbatim>\<open>relabel_copy_\<close>, the same for every variant: the two calls of
  \<^verbatim>\<open>H.add_nodes_from\<close>, on the relabelled nodes of \<open>G\<close> and on the relabelled nodes
  with their attribute records. \<open>impl\<close> is the \<^verbatim>\<open>add_node_impl\<close> of the class.
\<close>

definition relabel_copy_nodes ::
  "('y graph_scheme \<Rightarrow> world \<Rightarrow> key \<Rightarrow> jsval \<Rightarrow> (unit, 'y graph_scheme \<times> world) res)
   \<Rightarrow> 'z graph_scheme \<Rightarrow> mapping \<Rightarrow> 'y graph_scheme \<Rightarrow> world \<Rightarrow> ('y graph_scheme, world) res" where
  "relabel_copy_nodes impl G mapping H2 w2 =
     (case nodes G of
        Inl e \<Rightarrow> (Inl e, w2)
      | Inr ns \<Rightarrow>
     (case add_nodes_from impl H2 w2 (map (\<lambda>n. Node (mapping_get mapping n)) ns) JUndefined of
        (Inl e, H3, w3) \<Rightarrow> (Inl e, w3)
      | (Inr x, H3, w3) \<Rightarrow>
     (case nodes_data G of
        Inl e \<Rightarrow> (Inl e, w3)
      | Inr nd \<Rightarrow>
     (case add_nodes_from impl H3 w3
             (map (\<lambda>entry. NodeAttr (mapping_get mapping (fst entry)) (snd entry)) nd) JUndefined of
        (Inl e, H4, w4) \<Rightarrow> (Inl e, w4)
      | (Inr x, H4, w4) \<Rightarrow> (Inr H4, w4)))))"

text \<open>
  \<^verbatim>\<open>relabel_copy_(G, mapping)\<close> for the simple variants (the branch for
  \<^verbatim>\<open>G.is_multigraph()\<close> false). \<open>H0\<close> is the result of
  \<^verbatim>\<open>new G.constructor(null, G.graph())\<close>, \<open>edges\<close> that of \<^verbatim>\<open>G.edges_iter(true)\<close>;
  \<open>add_edge_fn\<close> and \<open>impl\<close> are \<^verbatim>\<open>add_edge\<close> and \<^verbatim>\<open>add_node_impl\<close> of the class.
  The edges of \<open>G\<close> are mapped lazily: the clone of an edge's record is made when
  \<^verbatim>\<open>add_edges_from\<close> asks for that edge. \<open>G\<close> is not changed while \<open>H\<close> is filled, so
  its iterators yield what they would yield at once.
\<close>

definition relabel_copy ::
  "(error + 'y graph_scheme) \<Rightarrow> (error + etuple list)
   \<Rightarrow> ('y graph_scheme \<Rightarrow> world \<Rightarrow> key \<Rightarrow> key \<Rightarrow> jsval \<Rightarrow> (unit, 'y graph_scheme \<times> world) res)
   \<Rightarrow> ('y graph_scheme \<Rightarrow> world \<Rightarrow> key \<Rightarrow> jsval \<Rightarrow> (unit, 'y graph_scheme \<times> world) res)
   \<Rightarrow> 'z graph_scheme \<Rightarrow> world \<Rightarrow> mapping \<Rightarrow> ('y graph_scheme, world) res" where
  "relabel_copy H0 edges add_edge_fn impl G w mapping =
     (case H0 of
        Inl e \<Rightarrow> (Inl e, w)
      | Inr H1 \<Rightarrow>
     (let H = set_name H1 (''('' @ name G @ '')'') in
      case add_edges_from_start w JUndefined of
        (Inl e, w1) \<Rightarrow> (Inl e, w1)
      | (Inr attr, w1) \<Rightarrow>
     (case edges of
        Inl e \<Rightarrow> (Inl e, w1)
      | Inr es \<Rightarrow>
     (case forEach (relabel_edge add_edge_fn attr mapping) es (H, w1) of
        (Inl e, H2, w2) \<Rightarrow> (Inl e, w2)
      | (Inr x, H2, w2) \<Rightarrow> relabel_copy_nodes impl G mapping H2 w2))))"

text \<open>
  What the multigraph branch of \<^verbatim>\<open>relabel_copy_\<close> does with one edge
  \<^verbatim>\<open>[u, v, key, data]\<close> of \<open>G\<close>: the tuple
  \<^verbatim>\<open>[mapping.get(u, u), mapping.get(v, v), key, goog.object.clone(data)]\<close> goes through
  the loop body of \<^verbatim>\<open>MultiGraph.prototype.add_edges_from\<close>.
\<close>

definition relabel_keyed_edge ::
  "('g \<Rightarrow> world \<Rightarrow> key \<Rightarrow> key \<Rightarrow> key \<Rightarrow> jsval \<Rightarrow> (unit, 'g \<times> world) res option)
   \<Rightarrow> jsval \<Rightarrow> mapping \<Rightarrow> etuple \<Rightarrow> 'g \<times> world \<Rightarrow> (unit, 'g \<times> world) res option" where
  "relabel_keyed_edge impl attr mapping d s =
     (case d of
        E4 u v k dd \<Rightarrow>
          (let (c, w2) = object_clone (snd s) dd
           in MultiGraph_add_edges_from_step impl attr
                (E4 (mapping_get mapping u) (mapping_get mapping v) k c) (fst s, w2))
      | _ \<Rightarrow> Some (Inl NotModelled, s))"

text \<open>
  \<^verbatim>\<open>relabel_copy_(G, mapping)\<close> for a multigraph (the branch for
  \<^verbatim>\<open>G.is_multigraph()\<close> true). \<open>edges\<close> is the result of \<^verbatim>\<open>G.edges_iter(true, true)\<close>,
  \<open>add_edge_impl_fn\<close> the \<^verbatim>\<open>add_edge_impl\<close> of the class. The result is \<open>None\<close> if a
  key search of \<^verbatim>\<open>add_edge_impl\<close> does not end.
\<close>

definition relabel_copy_multi ::
  "(error + 'y graph_scheme) \<Rightarrow> (error + etuple list)
   \<Rightarrow> ('y graph_scheme \<Rightarrow> world \<Rightarrow> key \<Rightarrow> key \<Rightarrow> key \<Rightarrow> jsval \<Rightarrow> (unit, 'y graph_scheme \<times> world) res option)
   \<Rightarrow> ('y graph_scheme \<Rightarrow> world \<Rightarrow> key \<Rightarrow> jsval \<Rightarrow> (unit, 'y graph_scheme \<times> world) res)
   \<Rightarrow> 'z graph_scheme \<Rightarrow> world \<Rightarrow> mapping \<Rightarrow> ('y graph_scheme, world) res option" where
  "relabel_copy_multi H0 edges add_edge_impl_fn impl G w mapping =
     (case H0 of
        Inl e \<Rightarrow> Some (Inl e, w)
      | Inr H1 \<Rightarrow>
     (let H = set_name H1 (''('' @ name G @ '')'') in
      case add_edges_from_start w JUndefined of
        (Inl e, w1) \<Rightarrow> Some (Inl e, w1)
      | (Inr attr, w1) \<Rightarrow>
     (case edges of
        Inl e \<Rightarrow> Some (Inl e, w1)
      | Inr es \<Rightarrow>
     (case forEach_option (relabel_keyed_edge add_edge_impl_fn attr mapping) es (H, w1) of
        None \<Rightarrow> None
      | Some (Inl e, H2, w2) \<Rightarrow> Some (Inl e, w2)
      | Some (Inr x, H2, w2) \<Rightarrow> Some (relabel_copy_nodes impl G mapping H2 w2)))))"

text \<open>
  The constructor of MultiGraph hands its arguments to that of Graph, so
  \<^verbatim>\<open>new G.constructor(null, G.graph())\<close> is the empty graph with the attributes of
  \<open>G\<close> in both classes.
\<close>

definition MultiGraph_relabel_copy :: "graph \<Rightarrow> world \<Rightarrow> mapping \<Rightarrow> (graph, world) res option" where
  "MultiGraph_relabel_copy G w mapping =
     relabel_copy_multi (Inr (Graph_empty (graph' G) (graph_hash G)))
       (MultiGraph_edges_iter G w None True True)
       MultiGraph_add_edge_impl Graph_add_node_impl G w mapping"

definition Graph_relabel_copy :: "graph \<Rightarrow> world \<Rightarrow> mapping \<Rightarrow> (graph, world) res" where
  "Graph_relabel_copy G w mapping =
     relabel_copy (Inr (Graph_empty (graph' G) (graph_hash G))) (Graph_edges_iter G None True)
       Graph_add_edge Graph_add_node_impl G w mapping"

text \<open>
  The DiGraph constructor runs \<^verbatim>\<open>goog.object.extend(this.graph_, opt_attr || {})\<close>
  before it assigns \<^verbatim>\<open>this.graph_ = {}\<close>: the target is the \<^verbatim>\<open>null\<close> of the
  prototype, and a non-empty \<^verbatim>\<open>opt_attr\<close> is a TypeError. The graph attributes of
  the new object are empty.
\<close>

definition DiGraph_new :: "dict \<Rightarrow> error + digraph" where
  "DiGraph_new opt_attr = (if opt_attr \<noteq> [] then Inl TypeError else Inr (DiGraph_empty None))"

definition DiGraph_relabel_copy :: "digraph \<Rightarrow> world \<Rightarrow> mapping \<Rightarrow> (digraph, world) res" where
  "DiGraph_relabel_copy G w mapping =
     relabel_copy (DiGraph_new (graph' G)) (DiGraph_edges_iter G None True)
       DiGraph_add_edge DiGraph_add_node_impl G w mapping"

text \<open>
  \<^verbatim>\<open>convert_node_labels_to_integers(G, opt_first_label, opt_ordering)\<close>, with the
  \<^verbatim>\<open>degree_iter\<close> of the class of \<open>G\<close> and \<^verbatim>\<open>relabel_nodes\<close> in copy mode. The array
  method \<^verbatim>\<open>sort\<close> is a stable sort: without a comparator by the string forms of the
  elements, with the comparators of the source by degree. \<open>labelling\<close> is the loop
  \<^verbatim>\<open>for (i = 0, j = first; i < l; i++, j++) mapping[nodes[i]] = j\<close>.
\<close>

fun labelling :: "key list \<Rightarrow> int \<Rightarrow> mapping \<Rightarrow> mapping" where
  "labelling [] j m = m"
| "labelling (n # ns) j m = labelling ns (j + 1) (mapping_put n (KNum j) m)"

definition node_order ::
  "(error + key list) \<Rightarrow> (error + (key \<times> int) list) \<Rightarrow> string \<Rightarrow> error + key list" where
  "node_order G_nodes G_degree_iter opt_ordering =
     (if opt_ordering = ''default'' then G_nodes
      else if opt_ordering = ''sorted'' then
        (case G_nodes of Inl e \<Rightarrow> Inl e | Inr ns \<Rightarrow> Inr (sort_key to_string ns))
      else if opt_ordering = ''increasing degree'' then
        (case G_degree_iter of Inl e \<Rightarrow> Inl e | Inr dv_pairs \<Rightarrow> Inr (map fst (sort_key snd dv_pairs)))
      else if opt_ordering = ''decreasing degree'' then
        (case G_degree_iter of Inl e \<Rightarrow> Inl e | Inr dv_pairs \<Rightarrow> Inr (map fst (sort_key (\<lambda>p. - snd p) dv_pairs)))
      else Inl (JSNetworkXError (''Unkown node ordering: '' @ opt_ordering)))"

definition convert_node_labels_to_integers ::
  "('g graph_scheme \<Rightarrow> error + (key \<times> int) list)
   \<Rightarrow> ('g graph_scheme \<Rightarrow> world \<Rightarrow> mapping \<Rightarrow> ('z graph_scheme, world) res)
   \<Rightarrow> 'g graph_scheme \<Rightarrow> world \<Rightarrow> int \<Rightarrow> string \<Rightarrow> ('z graph_scheme, world) res" where
  "convert_node_labels_to_integers degree_iter_fn relabel_nodes_fn G w opt_first_label opt_ordering =
     (case node_order (nodes G) (degree_iter_fn G) opt_ordering of
        Inl e \<Rightarrow> (Inl e, w)
      | Inr order \<Rightarrow>
          (case relabel_nodes_fn G w (labelling order opt_first_label []) of
             (Inl e, w1) \<Rightarrow> (Inl e, w1)
           | (Inr H, w1) \<Rightarrow> (Inr (set_name H (''('' @ name G @ '')_with_int_labels'')), w1)))"

definition Graph_convert_node_labels_to_integers ::
  "graph \<Rightarrow> world \<Rightarrow> int \<Rightarrow> string \<Rightarrow> (graph, world) res" where
  "Graph_convert_node_labels_to_integers =
     convert_node_labels_to_integers (\<lambda>G. Graph_degree_iter G None) Graph_relabel_copy"

definition DiGraph_convert_node_labels_to_integers ::
  "digraph \<Rightarrow> world \<Rightarrow> int \<Rightarrow> string \<Rightarrow> (digraph, world) res" where
  "DiGraph_convert_node_labels_to_integers =
     convert_node_labels_to_integers (\<lambda>G. DiGraph_degree_iter G None None) DiGraph_relabel_copy"

subsection \<open>In-place relabel\<close>

text \<open>
  \<^verbatim>\<open>old_labels.intersection(mapping).getCount() > 0\<close>: \<^verbatim>\<open>old_labels\<close> is the
  \<^verbatim>\<open>goog.structs.Set\<close> of the property names of the mapping, which are strings; the
  set tells a string from a number, so a new label lies in it only if it is a string
  equal to one of the names.
\<close>

definition overlap :: "mapping \<Rightarrow> bool" where
  "overlap m = list_ex (\<lambda>x. case x of KStr s \<Rightarrow> s \<in> fst ` set m | _ \<Rightarrow> False) (map snd m)"

text \<open>
  \<^verbatim>\<open>Graph.prototype.selfloop_edges()\<close> from the result of \<^verbatim>\<open>this.adjacency_iter()\<close>,
  and \<^verbatim>\<open>Graph.prototype.remove_edges_from(ebunch)\<close>, which DiGraph takes over as it
  is; \<open>impl\<close> is the \<^verbatim>\<open>remove_edge_impl\<close> of the class.
\<close>

definition selfloop_edges :: "(key \<times> jsval hashmap option) list \<Rightarrow> error + etuple list" where
  "selfloop_edges nds =
     (if list_ex (\<lambda>nd. snd nd = None) nds then Inl TypeError
      else Inr (map (\<lambda>nd. E2 (fst nd) (fst nd))
                    (filter (\<lambda>nd. case snd nd of Some nbrs \<Rightarrow> containsKey nbrs (fst nd) | None \<Rightarrow> False) nds)))"

definition remove_edges_from ::
  "('z graph_scheme \<Rightarrow> key \<Rightarrow> key \<Rightarrow> (unit, 'z graph_scheme) res)
   \<Rightarrow> 'z graph_scheme \<Rightarrow> etuple list \<Rightarrow> (unit, 'z graph_scheme) res" where
  "remove_edges_from impl g ebunch =
     forEach
       (\<lambda>e s. (let (u, v) = (case e of E2 a b \<Rightarrow> (a, b) | E3 a b d \<Rightarrow> (a, b)
                                | E3k a b k \<Rightarrow> (a, b) | E4 a b k d \<Rightarrow> (a, b))
                in case has_edge s u v of
                     Inl x \<Rightarrow> (Inl x, s)
                   | Inr True \<Rightarrow> impl s u v
                   | Inr False \<Rightarrow> (Inr (), s)))
       ebunch g"

text \<open>
  Modelled from the spec: \<^verbatim>\<open>jsnx.convert.to_networkx_graph\<close>, which the DiGraph
  constructor calls with the edge list, is not among the sources; with an edge list
  the construction "equals empty construction followed by \<^verbatim>\<open>add_edges_from\<close>".
  \<^verbatim>\<open>jsnx.helper.items(mapping)\<close> are the pairs \<^verbatim>\<open>[name, new label]\<close>.
\<close>

definition DiGraph_of_mapping :: "world \<Rightarrow> mapping \<Rightarrow> (unit, digraph \<times> world) res" where
  "DiGraph_of_mapping w m =
     add_edges_from DiGraph_add_edge (DiGraph_empty None) w (map (\<lambda>p. E2 (KStr (fst p)) (snd p)) m) JUndefined"

text \<open>
  The callback of the loop of \<^verbatim>\<open>relabel_inplace_\<close> for a simple undirected graph
  (\<^verbatim>\<open>multigraph\<close> and \<^verbatim>\<open>directed\<close> false).
\<close>

definition relabel_step :: "mapping \<Rightarrow> key \<Rightarrow> graph \<times> world \<Rightarrow> (unit, graph \<times> world) res" where
  "relabel_step mapping old s =
     (case map_of mapping (to_string old) of
        None \<Rightarrow> (Inr (), s)
      | Some new \<Rightarrow>
          if \<not> has_node (fst s) old
          then (Inl (JSNetworkXError (''Node '' @ to_string old @ '' is not in the graph to relabel.'')), s)
          else
            (case node (fst s) old of
               Inl e \<Rightarrow> (Inl e, s)
             | Inr t \<Rightarrow>
            (case Graph_add_node (fst s) (snd s) new (case t of Some x \<Rightarrow> x | None \<Rightarrow> JUndefined) of
               (Inl e, s1) \<Rightarrow> (Inl e, s1)
             | (Inr x, g1, w1) \<Rightarrow>
            (case Graph_edges_iter g1 (Some [old]) True of
               Inl e \<Rightarrow> (Inl e, g1, w1)
             | Inr es \<Rightarrow>
            (let new_edges = map (\<lambda>d. case d of E3 a b dd \<Rightarrow> E3 new b dd | other \<Rightarrow> other) es in
             case Graph_remove_node g1 old of
               (Inl e, g2) \<Rightarrow> (Inl e, g2, w1)
             | (Inr x, g2) \<Rightarrow> add_edges_from Graph_add_edge g2 w1 new_edges JUndefined)))))"

text \<open>
  \<^verbatim>\<open>relabel_inplace_(G, mapping)\<close> for a simple undirected graph \<open>G\<close>.
  \<^verbatim>\<open>jsnx.algorithms.dag.topological_sort\<close> is not among the sources: it is the
  parameter \<open>topological_sort\<close>. An exception of it other than JSNetworkXUnfeasible is
  swallowed by the \<^verbatim>\<open>catch\<close>, and \<^verbatim>\<open>nodes.reverse()\<close> then fails on the undefined
  \<^verbatim>\<open>nodes\<close>.
\<close>

definition relabel_inplace ::
  "(digraph \<Rightarrow> error + key list) \<Rightarrow> graph \<Rightarrow> world \<Rightarrow> mapping \<Rightarrow> (unit, graph \<times> world) res" where
  "relabel_inplace topological_sort G w mapping =
     (if overlap mapping then
        (case DiGraph_of_mapping w mapping of
           (Inl e, D, w1) \<Rightarrow> (Inl e, G, w1)
         | (Inr x, D, w1) \<Rightarrow>
        (case DiGraph_adjacency_iter D None None None of
           Inl e \<Rightarrow> (Inl e, G, w1)
         | Inr (Single nds) \<Rightarrow>
            (case selfloop_edges nds of
               Inl e \<Rightarrow> (Inl e, G, w1)
             | Inr loops \<Rightarrow>
            (case remove_edges_from DiGraph_remove_edge_impl D loops of
               (Inl e, D1) \<Rightarrow> (Inl e, G, w1)
             | (Inr x, D1) \<Rightarrow>
            (case topological_sort D1 of
               Inl e \<Rightarrow>
                 (case e of
                    JSNetworkXUnfeasible msg \<Rightarrow>
                      (Inl (JSNetworkXUnfeasible
                         (''The node label sets are overlapping and no ordering can resolve the mapping. Use copy=True.'')),
                       G, w1)
                  | _ \<Rightarrow> (Inl TypeError, G, w1))
             | Inr ns \<Rightarrow> forEach (relabel_step mapping) (rev ns) (G, w1))))
         | Inr other \<Rightarrow> (Inl NotModelled, G, w1)))
      else forEach (relabel_step mapping) (map (\<lambda>p. KStr (fst p)) mapping) (G, w))"

lemmas relabel_simps =
  forEach.simps add_edges_from_def add_edges_from_start_def add_edges_from_step_def object_clone_def
  overlap_def selfloop_edges_def remove_edges_from_def DiGraph_of_mapping_def relabel_inplace_def
  has_edge_def DiGraph_remove_edge_impl_def

text \<open>
  C6 (the code breaks the claim). In-place relabel with overlapping label sets does not
  remove the self-loops of the induced digraph: \<^verbatim>\<open>D.remove_edges_from\<close> reaches
  \<^verbatim>\<open>DiGraph.prototype.remove_edge_impl\<close>, whose first step calls the method
  \<^verbatim>\<open>has_node_\<close>, which does not exist. For the graph with the single node \<^verbatim>\<open>'a'\<close>
  and the mapping \<^verbatim>\<open>{a: 'a'}\<close> the digraph has the self-loop (a, a) only, so after
  its removal it would be acyclic and the relabelling should complete; the call ends
  in a TypeError instead, before any topological sort, whatever that sort would do.
\<close>

theorem relabel_inplace_selfloop_TypeError:
  "(let s = snd (Graph_add_node (Graph_empty [] None) world_empty (KStr ''a'') JUndefined)
    in overlap [(''a'', KStr ''a'')]
       \<and> has_node (fst s) (KStr ''a'')
       \<and> fst (relabel_inplace topological_sort (fst s) (snd s) [(''a'', KStr ''a'')]) = Inl TypeError)"
  by (simp add: HashMap_simps Graph_simps DiGraph_simps relabel_simps Let_def iter_from.simps)

lemmas convert_simps =
  convert_node_labels_to_integers_def Graph_convert_node_labels_to_integers_def
  DiGraph_convert_node_labels_to_integers_def node_order_def nodes_def nodes_data_def
  DiGraph_degree_iter_def DiGraph_generate_degree_iter_def Graph_degree_iter_def
  Graph_adjacency_iter_def count_edges_def getCount_def

text \<open>
  C9 (the code breaks the claim). With a degree ordering
  \<^verbatim>\<open>convert_node_labels_to_integers\<close> fails on a directed graph: it calls
  \<^verbatim>\<open>G.degree_iter()\<close>, and \<^verbatim>\<open>DiGraph.prototype.generate_degree_iter\<close> assigns to the
  undeclared \<^verbatim>\<open>node_nbrs\<close> (a ReferenceError in the strict mode the file declares;
  without strict mode the call \<^verbatim>\<open>goog.iter.map(nodes_nbrs, ...)\<close> that follows gets
  \<^verbatim>\<open>null\<close> and throws a TypeError). For the digraph with the single node
  \<^verbatim>\<open>'a'\<close>, first label 0 and the ordering "increasing degree" no graph is returned;
  with the default ordering the nodes of the result are the integer 0.
\<close>

theorem convert_node_labels_DiGraph_degree_throws:
  "(let s = snd (DiGraph_add_node (DiGraph_empty None) world_empty (KStr ''a'') JUndefined)
    in nodes (fst s) = Inr [KStr ''a'']
       \<and> fst (DiGraph_convert_node_labels_to_integers (fst s) (snd s) 0 ''increasing degree'')
           = Inl ReferenceError
       \<and> fst (DiGraph_convert_node_labels_to_integers (fst s) (snd s) 0 ''decreasing degree'')
           = Inl ReferenceError
       \<and> (case DiGraph_convert_node_labels_to_integers (fst s) (snd s) 0 ''default'' of
             (Inr H, w) \<Rightarrow> nodes H = Inr [KNum 0]
           | (Inl e, w) \<Rightarrow> False))"
  by (simp add: HashMap_simps Graph_simps DiGraph_simps relabel_simps convert_simps Let_def
      iter_from.simps map_filter_def DiGraph_relabel_copy_def relabel_copy_def relabel_copy_nodes_def relabel_edge_def DiGraph_new_def
      set_name_def name_def dict_put_def mapping_put_def mapping_get_def Object_prototype_def add_nodes_from_def
      add_nodes_from_step_def show_int_def digit_char_def)

section \<open>What a HashMap holds\<close>

text \<open>
  \<open>lookup m k\<close> is the value the map holds for the key \<open>k\<close>: the entry stored under the
  hash of \<open>k\<close>, provided its key is \<open>k\<close> itself. \<open>hm_ok m\<close> is the state every map built
  by \<^verbatim>\<open>set\<close> from keys with distinct hashes is in: every hash with an entry is listed in
  \<^verbatim>\<open>hashes_\<close>, \<^verbatim>\<open>count_\<close> is the number of entries, and every entry sits under the hash
  of its own key. \<open>fits m k\<close>: the hash of \<open>k\<close> is free in \<open>m\<close> or taken by \<open>k\<close> itself.
\<close>

definition lookup :: "'v hashmap \<Rightarrow> key \<Rightarrow> 'v option" where
  "lookup m k =
     (case map' m (keyHash m k) of
        Some entry \<Rightarrow> if fst entry = k then Some (snd entry) else None
      | None \<Rightarrow> None)"

definition hm_ok :: "'v hashmap \<Rightarrow> bool" where
  "hm_ok m \<longleftrightarrow>
     dom (map' m) \<subseteq> set (hashes' m)
     \<and> count' m = int (card (dom (map' m)))
     \<and> (\<forall>h k v. map' m h = Some (k, v) \<longrightarrow> keyHash m k = h \<and> isDef k)"

definition fits :: "'v hashmap \<Rightarrow> key \<Rightarrow> bool" where
  "fits m k \<longleftrightarrow> isDef k \<and> (\<forall>k' v. map' m (keyHash m k) = Some (k', v) \<longrightarrow> k' = k)"

lemma hm_ok_HashMap [simp]: "hm_ok (HashMap f)"
  by (simp add: hm_ok_def HashMap_def)

lemma lookup_HashMap [simp]: "lookup (HashMap f) k = None"
  by (simp add: lookup_def HashMap_def)

lemma finite_dom_hm_ok: "hm_ok m \<Longrightarrow> finite (dom (map' m))"
  unfolding hm_ok_def by (meson finite_set finite_subset)

lemma containsKey_lookup: "hm_ok m \<Longrightarrow> containsKey m k \<longleftrightarrow> lookup m k \<noteq> None"
  by (auto simp: containsKey_def lookup_def hm_ok_def split: option.splits)

lemma lookup_SomeD: "lookup m k = Some v \<Longrightarrow> map' m (keyHash m k) = Some (k, v)"
  by (auto simp: lookup_def split: option.splits if_splits)

lemma hm_ok_entry: "hm_ok m \<Longrightarrow> map' m h = Some (k, v) \<Longrightarrow> keyHash m k = h \<and> isDef k"
  unfolding hm_ok_def by blast

lemma lookup_fits: "lookup m k = Some v \<Longrightarrow> hm_ok m \<Longrightarrow> fits m k"
  using hm_ok_entry [of m "keyHash m k" k v] by (auto simp: fits_def dest!: lookup_SomeD)

lemma HashMap_get_lookup:
  "fits m k \<Longrightarrow> HashMap_get m k d = Inr (case lookup m k of Some v \<Rightarrow> Some v | None \<Rightarrow> d)"
  by (auto simp: HashMap_get_def lookup_def fits_def split: option.splits)

lemma opts_hash_HashMap_set [simp]: "opts_hash (HashMap_set m k v) = opts_hash m"
  by (simp add: HashMap_set_def Let_def)

lemma hm_ok_HashMap_set:
  assumes "hm_ok m" and "fits m k"
  shows "hm_ok (HashMap_set m k v)"
proof -
  let ?h = "keyHash m k"
  have fin: "finite (dom (map' m))" using assms(1) by (rule finite_dom_hm_ok)
  show ?thesis
  proof (cases "map' m ?h")
    case None
    then have "?h \<notin> dom (map' m)" by auto
    with fin have "card (insert ?h (dom (map' m))) = Suc (card (dom (map' m)))" by simp
    with assms None show ?thesis
      by (auto simp: hm_ok_def HashMap_set_def Let_def hasHash_def fits_def)
  next
    case (Some e)
    then have "insert ?h (dom (map' m)) = dom (map' m)" by auto
    with assms Some show ?thesis
      by (auto simp: hm_ok_def HashMap_set_def Let_def hasHash_def fits_def)
  qed
qed

lemma lookup_HashMap_set:
  assumes "fits m k"
  shows "lookup (HashMap_set m k v) = (lookup m)(k \<mapsto> v)"
proof
  fix k2
  show "lookup (HashMap_set m k v) k2 = ((lookup m)(k \<mapsto> v)) k2"
    using assms
    by (auto simp: lookup_def HashMap_set_def Let_def fits_def split: option.splits)
qed

lemma set_dedup_seen: "set (dedup_seen seen xs) = set xs - set seen"
  by (induction xs arbitrary: seen) auto

lemma distinct_dedup_seen: "distinct (dedup_seen seen xs)"
  by (induction xs arbitrary: seen) (auto simp: set_dedup_seen)

lemma full_list_distinct:
  assumes "D \<subseteq> set H" and "card D = length H"
  shows "distinct H \<and> set H = D"
proof -
  have "card (set H) \<le> length H" by (rule card_length)
  moreover have "card D \<le> card (set H)" using assms(1) by (simp add: card_mono)
  ultimately have c: "card (set H) = length H" using assms(2) by simp
  then have d: "distinct H" by (simp add: card_distinct)
  have "D = set H" using assms c by (intro card_subset_eq) simp_all
  with d show ?thesis by simp
qed

lemma cleanupKeysArray_ok:
  assumes "hm_ok m"
  shows "distinct (hashes' (cleanupKeysArray m)) \<and> set (hashes' (cleanupKeysArray m)) = dom (map' m)
    \<and> cleanupKeysArray m = m\<lparr>hashes' := hashes' (cleanupKeysArray m)\<rparr>"
proof -
  let ?H = "hashes' m" and ?D = "dom (map' m)"
  from assms have sub: "?D \<subseteq> set ?H" and cnt: "count' m = int (card ?D)"
    by (simp_all add: hm_ok_def)
  let ?H1 = "filter (hasHash (map' m)) ?H"
  have set1: "set ?H1 = ?D" using sub by (auto simp: hasHash_def)
  show ?thesis
  proof (cases "count' m = int (length ?H)")
    case True
    then have "card ?D = length ?H" using cnt by simp
    from full_list_distinct [OF sub this] True show ?thesis
      by (simp add: cleanupKeysArray_def)
  next
    case False
    show ?thesis
    proof (cases "count' m = int (length ?H1)")
      case True
      then have "card ?D = length ?H1" using cnt by simp
      moreover have "?D \<subseteq> set ?H1" using set1 by simp
      ultimately have "distinct ?H1 \<and> set ?H1 = ?D" by (rule full_list_distinct [rotated])
      with False True show ?thesis by (simp add: cleanupKeysArray_def Let_def)
    next
      case F2: False
      with False set1 show ?thesis
        by (simp add: cleanupKeysArray_def Let_def set_dedup_seen distinct_dedup_seen)
    qed
  qed
qed

lemma map_cleanupKeysArray [simp]: "map' (cleanupKeysArray m) = map' m"
  by (simp add: cleanupKeysArray_def Let_def)

lemma count_cleanupKeysArray [simp]: "count' (cleanupKeysArray m) = count' m"
  by (simp add: cleanupKeysArray_def Let_def)

lemma opts_hash_cleanupKeysArray [simp]: "opts_hash (cleanupKeysArray m) = opts_hash m"
  by (simp add: cleanupKeysArray_def Let_def)

lemma keyHash_cong: "opts_hash m1 = opts_hash m2 \<Longrightarrow> keyHash m1 = keyHash m2"
  by (rule ext) (simp add: keyHash_def)

lemma keyHash_cleanupKeysArray [simp]: "keyHash (cleanupKeysArray m) = keyHash m"
  by (rule keyHash_cong) simp

lemma lookup_cleanupKeysArray [simp]: "lookup (cleanupKeysArray m) = lookup m"
  by (rule ext) (simp add: lookup_def)

lemma hm_ok_cleanupKeysArray: "hm_ok m \<Longrightarrow> hm_ok (cleanupKeysArray m)"
  using cleanupKeysArray_ok [of m] by (simp add: hm_ok_def)

lemma iter_from_live:
  assumes "set (hashes' m) \<subseteq> dom (map' m)" and "it_version it = version' m"
  shows "iter_from m it = Inr (map (\<lambda>h. the (map' m h)) (drop (it_i it) (hashes' m)))"
  using assms
proof (induction "length (hashes' m) - it_i it" arbitrary: it)
  case 0
  then show ?case by (simp add: iter_from.simps [of m it] HashMap_next_def)
next
  case (Suc n)
  then have i: "it_i it < length (hashes' m)" by simp
  then have "hashes' m ! it_i it \<in> dom (map' m)" using Suc.prems(1) by (auto simp: subset_eq)
  then obtain e where e: "map' m (hashes' m ! it_i it) = Some e" by auto
  let ?it1 = "it\<lparr>it_i := it_i it + 1\<rparr>"
  have nx: "HashMap_next m it = Inr (e, ?it1)"
    using i e Suc.prems(2) by (simp add: HashMap_next_def)
  have "n = length (hashes' m) - it_i ?it1" using Suc.hyps(2) by simp
  from Suc.hyps(1) [OF this Suc.prems(1)] Suc.prems(2)
  have ih: "iter_from m ?it1 = Inr (map (\<lambda>h. the (map' m h)) (drop (Suc (it_i it)) (hashes' m)))"
    by simp
  have "drop (it_i it) (hashes' m) = hashes' m ! it_i it # drop (Suc (it_i it)) (hashes' m)"
    using i by (simp add: Cons_nth_drop_Suc)
  with nx ih e show ?case by (simp add: iter_from.simps [of m it])
qed

text \<open>The entries in the order \<^verbatim>\<open>getEntries\<close> returns them.\<close>

definition entries :: "'v hashmap \<Rightarrow> (key \<times> 'v) list" where
  "entries m = map (\<lambda>h. the (map' m h)) (hashes' (cleanupKeysArray m))"

lemma getEntries_entries: "hm_ok m \<Longrightarrow> getEntries m = Inr (entries m)"
  using cleanupKeysArray_ok [of m] iter_from_live [of "cleanupKeysArray m" "\<lparr>it_i = 0, it_version = version' m\<rparr>"]
  by (simp add: getEntries_def HashMap_iterator_def Let_def entries_def)

lemma set_entries:
  assumes "hm_ok m"
  shows "set (entries m) = {(k, v). lookup m k = Some v}"
proof -
  from cleanupKeysArray_ok [OF assms]
  have s: "set (hashes' (cleanupKeysArray m)) = dom (map' m)" by simp
  show ?thesis
  proof (intro set_eqI iffI)
    fix x assume "x \<in> set (entries m)"
    then obtain h where h: "h \<in> dom (map' m)" and x: "x = the (map' m h)"
      using s by (auto simp: entries_def)
    then have mh: "map' m h = Some (fst x, snd x)" by auto
    from hm_ok_entry [OF assms this] mh show "x \<in> {(k, v). lookup m k = Some v}"
      by (auto simp: lookup_def)
  next
    fix x assume "x \<in> {(k, v). lookup m k = Some v}"
    then have "lookup m (fst x) = Some (snd x)" by auto
    then have mx: "map' m (keyHash m (fst x)) = Some x" by (auto dest: lookup_SomeD)
    then have "keyHash m (fst x) \<in> set (hashes' (cleanupKeysArray m))" using s by auto
    then have "the (map' m (keyHash m (fst x))) \<in> set (entries m)"
      unfolding entries_def set_map by (rule imageI)
    with mx show "x \<in> set (entries m)" by simp
  qed
qed

lemma distinct_entries:
  assumes "hm_ok m"
  shows "distinct (map fst (entries m))"
proof -
  from cleanupKeysArray_ok [OF assms]
  have d: "distinct (hashes' (cleanupKeysArray m))"
    and s: "set (hashes' (cleanupKeysArray m)) = dom (map' m)" by simp_all
  have "inj_on (\<lambda>h. fst (the (map' m h))) (dom (map' m))"
  proof (rule inj_onI)
    fix h1 h2 assume a: "h1 \<in> dom (map' m)" "h2 \<in> dom (map' m)"
      and eq: "fst (the (map' m h1)) = fst (the (map' m h2))"
    from a obtain e1 e2 where e: "map' m h1 = Some e1" "map' m h2 = Some e2" by auto
    then have "map' m h1 = Some (fst e1, snd e1)" "map' m h2 = Some (fst e2, snd e2)" by simp_all
    from hm_ok_entry [OF assms this(1)] hm_ok_entry [OF assms this(2)] eq e
    show "h1 = h2" by simp
  qed
  with d s show ?thesis
    by (simp add: entries_def distinct_map comp_def)
qed

section \<open>Well-formed graphs and the edge iterator\<close>

text \<open>
  \<open>graph_ok g\<close>: a simple undirected graph as the mutators build it. Both maps of the graph
  and every neighbour map are in a proper state and hash with the graph's hash function,
  \<^verbatim>\<open>nodes_\<close> and \<^verbatim>\<open>adj_\<close> have the same keys, and adjacency is symmetric with one shared
  record per edge.
\<close>

definition graph_ok :: "'z graph_scheme \<Rightarrow> bool" where
  "graph_ok g \<longleftrightarrow>
     hm_ok (nodes' g) \<and> hm_ok (adj' g)
     \<and> opts_hash (nodes' g) = graph_hash g \<and> opts_hash (adj' g) = graph_hash g
     \<and> dom (lookup (nodes' g)) = dom (lookup (adj' g))
     \<and> (\<forall>n m. lookup (adj' g) n = Some m \<longrightarrow> \<not> isArray n \<and> hm_ok m \<and> opts_hash m = graph_hash g)
     \<and> (\<forall>u mu v r. lookup (adj' g) u = Some mu \<and> lookup mu v = Some r
           \<longrightarrow> (\<exists>mv. lookup (adj' g) v = Some mv \<and> lookup mv u = Some r))"

text \<open>\<open>nbr g a b\<close>: the record of the edge between \<open>a\<close> and \<open>b\<close>, read in \<^verbatim>\<open>adj[a]\<close>.\<close>

definition nbr :: "'z graph_scheme \<Rightarrow> key \<Rightarrow> key \<Rightarrow> jsval option" where
  "nbr g a b = (case lookup (adj' g) a of Some m \<Rightarrow> lookup m b | None \<Rightarrow> None)"

lemma graph_ok_inner: "graph_ok g \<Longrightarrow> lookup (adj' g) n = Some m \<Longrightarrow> hm_ok m"
  unfolding graph_ok_def by blast

lemma neighbour_lookup:
  assumes "graph_ok g"
  shows "neighbour g u v \<longleftrightarrow> (\<exists>m r. lookup (adj' g) u = Some m \<and> lookup m v = Some r)"
proof
  assume "neighbour g u v"
  then obtain m where a: "adj g u = Inr (Some m)" and c: "containsKey m v"
    by (auto simp: neighbour_def split: sum.splits option.splits)
  from a have "lookup (adj' g) u = Some m"
    by (auto simp: adj_def HashMap_get_def lookup_def split: if_splits option.splits)
  moreover from c have "\<exists>r. lookup m v = Some r"
    by (auto simp: containsKey_def lookup_def split: if_splits option.splits)
  ultimately show "\<exists>m r. lookup (adj' g) u = Some m \<and> lookup m v = Some r" by blast
next
  assume "\<exists>m r. lookup (adj' g) u = Some m \<and> lookup m v = Some r"
  then obtain m r where m: "lookup (adj' g) u = Some m" and r: "lookup m v = Some r" by blast
  from assms have ok: "hm_ok (adj' g)" by (simp add: graph_ok_def)
  from lookup_fits [OF m ok] have "fits (adj' g) u" .
  from HashMap_get_lookup [OF this, of None] m have "adj g u = Inr (Some m)" by (simp add: adj_def)
  moreover have "containsKey m v"
    using containsKey_lookup [OF graph_ok_inner [OF assms m], of v] r by simp
  ultimately show "neighbour g u v" by (simp add: neighbour_def)
qed

text \<open>
  The edges the seen set lets through, written as a recursion over the nodes in iteration
  order: for the node \<open>n\<close> every neighbour that is not in the set \<open>S\<close> of the nodes seen so
  far, and then the remaining nodes with \<open>n\<close> added to \<open>S\<close>.
\<close>

fun unseen_edges :: "(key \<Rightarrow> key \<times> 'v \<Rightarrow> 'r) \<Rightarrow> key set \<Rightarrow> (key \<times> 'v hashmap) list \<Rightarrow> 'r list" where
  "unseen_edges visit S [] = []"
| "unseen_edges visit S (nd # nds) =
     map (visit (fst nd)) (filter (\<lambda>e. fst e \<notin> S) (entries (snd nd)))
     @ unseen_edges visit (insert (fst nd) S) nds"

lemma inj_on_keys:
  assumes "hm_ok m"
  shows "inj_on (keyHash m) (dom (lookup m))"
proof (rule inj_onI)
  fix a b assume "a \<in> dom (lookup m)" "b \<in> dom (lookup m)" and eq: "keyHash m a = keyHash m b"
  then obtain x y where "lookup m a = Some x" "lookup m b = Some y" by auto
  then have "map' m (keyHash m a) = Some (a, x)" "map' m (keyHash m b) = Some (b, y)"
    by (auto dest: lookup_SomeD)
  then show "a = b" unfolding eq by (metis option.inject prod.inject)
qed

lemma map_filter_if: "List.map_filter (\<lambda>y. if P y then Some (f y) else None) ys = map f (filter P ys)"
  by (induction ys) (simp_all add: List.map_filter_simps)

lemma Graph_generate_edges_iter_unseen:
  assumes "hm_ok seen" and "dom (lookup seen) = S" and "S \<subseteq> U" and "fst ` set nds \<subseteq> U"
    and "inj_on (keyHash seen) U" and "\<forall>k\<in>U. isDef k"
    and "\<forall>nd\<in>set nds. hm_ok (snd nd)"
  shows "nested_chain (map (\<lambda>p. (fst p, Some (snd p))) nds)
       (\<lambda>nd s. case snd nd of
                  None \<Rightarrow> (Inl TypeError, (fst nd, snd s))
                | Some nbrs \<Rightarrow>
                    (case getEntries nbrs of
                       Inl e \<Rightarrow> (Inl e, (fst nd, snd s))
                     | Inr es \<Rightarrow> (Inr (es, \<lambda>s1. (fst s1, HashMap_set (snd s1) (fst s1) True)), (fst nd, snd s))))
       (\<lambda>nbrd s. if \<not> containsKey (snd s) (fst nbrd) then Some (visit (fst s) nbrd) else None)
       (n0, seen)
     = Inr (unseen_edges visit S nds)"
  using assms
proof (induction nds arbitrary: seen S n0)
  case Nil
  then show ?case by simp
next
  case (Cons nd nds)
  let ?n = "fst nd"
  let ?seen1 = "HashMap_set seen ?n True"
  have nU: "?n \<in> U" using Cons.prems(4) by simp
  have f: "fits seen ?n"
    unfolding fits_def
  proof (intro conjI allI impI)
    show "isDef ?n" using nU Cons.prems(6) by simp
  next
    fix k' v assume b: "map' seen (keyHash seen ?n) = Some (k', v)"
    from hm_ok_entry [OF Cons.prems(1) b] have h: "keyHash seen k' = keyHash seen ?n" by simp
    from b h have "lookup seen k' = Some v" by (simp add: lookup_def)
    then have "k' \<in> U" using Cons.prems(2,3) by auto
    with h nU Cons.prems(5) show "k' = ?n" by (auto dest: inj_onD)
  qed
  have ok1: "hm_ok ?seen1" using Cons.prems(1) f by (rule hm_ok_HashMap_set)
  have dom1: "dom (lookup ?seen1) = insert ?n S"
    using lookup_HashMap_set [OF f, of True] Cons.prems(2) by simp
  have kh: "keyHash ?seen1 = keyHash seen" by simp
  have ih: "nested_chain (map (\<lambda>p. (fst p, Some (snd p))) nds)
       (\<lambda>nd s. case snd nd of
                  None \<Rightarrow> (Inl TypeError, (fst nd, snd s))
                | Some nbrs \<Rightarrow>
                    (case getEntries nbrs of
                       Inl e \<Rightarrow> (Inl e, (fst nd, snd s))
                     | Inr es \<Rightarrow> (Inr (es, \<lambda>s1. (fst s1, HashMap_set (snd s1) (fst s1) True)), (fst nd, snd s))))
       (\<lambda>nbrd s. if \<not> containsKey (snd s) (fst nbrd) then Some (visit (fst s) nbrd) else None)
       (?n, ?seen1)
     = Inr (unseen_edges visit (insert ?n S) nds)"
    using Cons.prems nU
    by (intro Cons.IH [OF ok1 dom1]) (auto simp: kh)
  have ge: "getEntries (snd nd) = Inr (entries (snd nd))"
    using Cons.prems(7) by (simp add: getEntries_entries)
  have flt: "\<And>e. containsKey seen (fst e) \<longleftrightarrow> fst e \<in> S"
    using containsKey_lookup [OF Cons.prems(1)] Cons.prems(2) by auto
  show ?case
    by (simp add: ge ih flt map_filter_if)
qed

text \<open>The two endpoints of a yielded tuple.\<close>

fun ends :: "etuple \<Rightarrow> key \<times> key" where
  "ends (E2 u v) = (u, v)"
| "ends (E3 u v d) = (u, v)"
| "ends (E3k u v k) = (u, v)"
| "ends (E4 u v k d) = (u, v)"

lemma map_ends_unseen_edges:
  assumes "\<And>n e. ends (visit n e) = (n, fst e)"
  shows "map ends (unseen_edges visit S nds) = unseen_edges (\<lambda>n e. (n, fst e)) S nds"
  by (induction nds arbitrary: S) (simp_all add: assms comp_def)

lemma unseen_edges_mem:
  "(u, v) \<in> set (unseen_edges (\<lambda>n e. (n, fst e)) S nds) \<longleftrightarrow>
     (\<exists>pre nbrs post. nds = pre @ (u, nbrs) # post \<and> v \<in> fst ` set (entries nbrs)
        \<and> v \<notin> S \<and> v \<notin> fst ` set pre)"
proof (induction nds arbitrary: S)
  case Nil
  then show ?case by simp
next
  case (Cons nd nds)
  show ?case
  proof
    assume "(u, v) \<in> set (unseen_edges (\<lambda>n e. (n, fst e)) S (nd # nds))"
    then consider (here) "u = fst nd" "v \<in> fst ` set (entries (snd nd))" "v \<notin> S"
      | (later) "(u, v) \<in> set (unseen_edges (\<lambda>n e. (n, fst e)) (insert (fst nd) S) nds)"
      by auto
    then show "\<exists>pre nbrs post. nd # nds = pre @ (u, nbrs) # post \<and> v \<in> fst ` set (entries nbrs)
        \<and> v \<notin> S \<and> v \<notin> fst ` set pre"
    proof cases
      case here
      then have "nd # nds = [] @ (u, snd nd) # nds" by simp
      with here show ?thesis by (metis empty_iff image_empty list.set(1))
    next
      case later
      with Cons.IH [of "insert (fst nd) S"] obtain pre nbrs post where
        p: "nds = pre @ (u, nbrs) # post" "v \<in> fst ` set (entries nbrs)"
           "v \<notin> insert (fst nd) S" "v \<notin> fst ` set pre" by blast
      then have "nd # nds = (nd # pre) @ (u, nbrs) # post" "v \<notin> S" "v \<notin> fst ` set (nd # pre)"
        by auto
      with p(2) show ?thesis by blast
    qed
  next
    assume "\<exists>pre nbrs post. nd # nds = pre @ (u, nbrs) # post \<and> v \<in> fst ` set (entries nbrs)
        \<and> v \<notin> S \<and> v \<notin> fst ` set pre"
    then obtain pre nbrs post where
      p: "nd # nds = pre @ (u, nbrs) # post" "v \<in> fst ` set (entries nbrs)" "v \<notin> S"
         "v \<notin> fst ` set pre" by blast
    show "(u, v) \<in> set (unseen_edges (\<lambda>n e. (n, fst e)) S (nd # nds))"
    proof (cases pre)
      case Nil
      with p have "nd = (u, nbrs)" by simp
      with p(2,3) show ?thesis by auto
    next
      case (Cons a pre')
      with p have "nds = pre' @ (u, nbrs) # post" "v \<notin> insert (fst nd) S" "v \<notin> fst ` set pre'"
        by auto
      with p(2) Cons.IH [of "insert (fst nd) S"]
      have "(u, v) \<in> set (unseen_edges (\<lambda>n e. (n, fst e)) (insert (fst nd) S) nds)" by blast
      then show ?thesis by simp
    qed
  qed
qed

lemma unseen_edges_fst:
  "(u, v) \<in> set (unseen_edges (\<lambda>n e. (n, fst e)) S nds) \<Longrightarrow> u \<in> fst ` set nds"
  by (induction nds arbitrary: S) auto

lemma distinct_unseen_edges:
  assumes "distinct (map fst nds)" and "\<forall>nd\<in>set nds. distinct (map fst (entries (snd nd)))"
  shows "distinct (unseen_edges (\<lambda>n e. (n, fst e)) S nds)"
  using assms
proof (induction nds arbitrary: S)
  case Nil
  then show ?case by simp
next
  case (Cons nd nds)
  have d1: "distinct (map (\<lambda>e. (fst nd, fst e)) (filter (\<lambda>e. fst e \<notin> S) (entries (snd nd))))"
  proof -
    have "distinct (map fst (filter (\<lambda>e. fst e \<notin> S) (entries (snd nd))))"
      using Cons.prems(2) by (simp add: distinct_map_filter)
    then show ?thesis by (simp add: distinct_map inj_on_def)
  qed
  have d2: "distinct (unseen_edges (\<lambda>n e. (n, fst e)) (insert (fst nd) S) nds)"
    using Cons.prems by (intro Cons.IH) simp_all
  have disj: "\<And>x. x \<in> set (unseen_edges (\<lambda>n e. (n, fst e)) (insert (fst nd) S) nds) \<Longrightarrow> fst x \<noteq> fst nd"
  proof -
    fix x assume "x \<in> set (unseen_edges (\<lambda>n e. (n, fst e)) (insert (fst nd) S) nds)"
    then have "fst x \<in> fst ` set nds" using unseen_edges_fst [of "fst x" "snd x"] by simp
    moreover have "fst nd \<notin> fst ` set nds" using Cons.prems(1) by simp
    ultimately show "fst x \<noteq> fst nd" by metis
  qed
  from d1 d2 disj show ?case by (fastforce simp: comp_def)
qed

lemma split_two:
  assumes "pre @ a # post = pre' @ b # post'" and "a \<noteq> b"
  shows "a \<in> set pre' \<or> b \<in> set pre"
  using assms
  by (auto simp: append_eq_append_conv2 append_eq_Cons_conv Cons_eq_append_conv)

lemma fst_entries: "hm_ok m \<Longrightarrow> fst ` set (entries m) = dom (lookup m)"
  by (auto simp: set_entries image_iff dom_def)

lemma isDef_keys: "hm_ok m \<Longrightarrow> k \<in> dom (lookup m) \<Longrightarrow> isDef k"
  using hm_ok_entry [of m "keyHash m k" k] by (auto dest!: lookup_SomeD)

lemma Graph_edges_iter_unseen:
  assumes "graph_ok g"
  shows "Graph_edges_iter g None opt_data
    = Inr (unseen_edges (if opt_data then (\<lambda>n nbrd. E3 n (fst nbrd) (snd nbrd)) else (\<lambda>n nbrd. E2 n (fst nbrd)))
             {} (entries (adj' g)))"
proof -
  let ?L = "entries (adj' g)"
  let ?U = "dom (lookup (adj' g))"
  from assms have ok: "hm_ok (adj' g)" and oh: "opts_hash (adj' g) = graph_hash g"
    by (simp_all add: graph_ok_def)
  have inner: "\<forall>nd\<in>set ?L. hm_ok (snd nd)"
    using graph_ok_inner [OF assms] by (auto simp: set_entries [OF ok])
  have seen_ok: "hm_ok (newNodeMap g :: bool hashmap)" by (simp add: newNodeMap_def)
  have seen_dom: "dom (lookup (newNodeMap g :: bool hashmap)) = {}" by (simp add: newNodeMap_def dom_def)
  have kh: "keyHash (newNodeMap g :: bool hashmap) = keyHash (adj' g)"
    by (rule ext) (simp add: keyHash_def newNodeMap_def HashMap_def oh)
  have inj: "inj_on (keyHash (newNodeMap g :: bool hashmap)) ?U"
    unfolding kh using ok by (rule inj_on_keys)
  have defd: "\<forall>k\<in>?U. isDef k" using isDef_keys [OF ok] by blast
  have sub: "fst ` set ?L \<subseteq> ?U" using fst_entries [OF ok] by simp
  have adjit: "Graph_adjacency_iter g None = Inr (map (\<lambda>p. (fst p, Some (snd p))) ?L)"
    by (simp add: Graph_adjacency_iter_def generate_adjacency_iter_def getEntries_entries [OF ok])
  have emp: "{} \<subseteq> ?U" by simp
  note chain = Graph_generate_edges_iter_unseen [OF seen_ok seen_dom emp sub inj defd inner, where ?n0.0 = KNull]
  show ?thesis
    by (simp add: Graph_edges_iter_def adjit Graph_generate_edges_iter_def chain Let_def)
qed

subsection \<open>Graphs built by add_node and add_edge are well-formed\<close>

text \<open>
  \<open>graph_within U g\<close>: \<open>g\<close> is well-formed and its nodes come from a set \<open>U\<close> of keys that
  are defined, are not arrays and have pairwise distinct hashes. \<^verbatim>\<open>add_node\<close> and
  \<^verbatim>\<open>add_edge\<close> with nodes from \<open>U\<close> keep a graph within \<open>U\<close>, whether they return or throw.
\<close>

definition graph_within :: "key set \<Rightarrow> 'z graph_scheme \<Rightarrow> bool" where
  "graph_within U g \<longleftrightarrow>
     graph_ok g \<and> dom (lookup (adj' g)) \<subseteq> U \<and> inj_on (keyHash (adj' g)) U
     \<and> (\<forall>k\<in>U. isDef k \<and> \<not> isArray k)"

lemma fits_within:
  assumes "hm_ok m" and "dom (lookup m) \<subseteq> U" and "inj_on (keyHash m) U" and "k \<in> U" and "isDef k"
  shows "fits m k"
  unfolding fits_def
proof (intro conjI allI impI)
  show "isDef k" by fact
next
  fix k' v assume e: "map' m (keyHash m k) = Some (k', v)"
  from hm_ok_entry [OF assms(1) e] have h: "keyHash m k' = keyHash m k" by simp
  with e have "lookup m k' = Some v" by (simp add: lookup_def)
  then have "k' \<in> U" using assms(2) by auto
  with assms(3,4) h show "k' = k" by (auto dest: inj_onD)
qed

lemma opts_hash_HashMap [simp]: "opts_hash (HashMap f) = f"
  by (simp add: HashMap_def)

lemma opts_hash_mutated [simp]: "opts_hash (mutated m k x) = opts_hash m"
  by (simp add: mutated_def)

lemma lookup_mutated:
  assumes "lookup m k = Some y"
  shows "lookup (mutated m k x) = (lookup m)(k \<mapsto> x)"
proof
  fix k2
  from lookup_SomeD [OF assms] show "lookup (mutated m k x) k2 = ((lookup m)(k \<mapsto> x)) k2"
    by (auto simp: lookup_def mutated_def split: option.splits)
qed

lemma hm_ok_mutated:
  assumes "hm_ok m" and "lookup m k = Some y"
  shows "hm_ok (mutated m k x)"
proof -
  from lookup_SomeD [OF assms(2)] have e: "map' m (keyHash m k) = Some (k, y)" .
  then have "insert (keyHash m k) (dom (map' m)) = dom (map' m)" by auto
  moreover from hm_ok_entry [OF assms(1) e] have "isDef k" by simp
  ultimately show ?thesis using assms(1) by (auto simp: hm_ok_def mutated_def)
qed

lemma has_node_lookup:
  assumes "graph_within U g" and "n \<in> U"
  shows "has_node g n \<longleftrightarrow> n \<in> dom (lookup (adj' g))"
proof -
  from assms have "hm_ok (nodes' g)" and "dom (lookup (nodes' g)) = dom (lookup (adj' g))" and "\<not> isArray n"
    by (auto simp: graph_within_def graph_ok_def)
  then show ?thesis by (auto simp: has_node_def containsKey_lookup)
qed

lemma Graph_add_node_impl_old:
  "has_node g n \<Longrightarrow> \<exists>r w1. Graph_add_node_impl g w n a = (r, g, w1)"
  by (auto simp: Graph_add_node_impl_def split: sum.splits prod.splits)

lemma Graph_add_node_impl_new:
  "\<not> has_node g n \<Longrightarrow> \<exists>a1 w1. Graph_add_node_impl g w n a
     = (Inr (), g\<lparr>adj' := HashMap_set (adj' g) n (HashMap (graph_hash g)), nodes' := HashMap_set (nodes' g) n a1\<rparr>, w1)"
  by (auto simp: Graph_add_node_impl_def Let_def new_object_def newNodeMap_def split: prod.splits)

lemma graph_within_new_node:
  assumes "graph_within U g" and "n \<in> U" and "n \<notin> dom (lookup (adj' g))"
  shows "graph_within U (g\<lparr>adj' := HashMap_set (adj' g) n (HashMap (graph_hash g)), nodes' := HashMap_set (nodes' g) n a1\<rparr>)"
proof -
  from assms(1) have ok: "graph_ok g" and sub: "dom (lookup (adj' g)) \<subseteq> U"
    and inj: "inj_on (keyHash (adj' g)) U" and U: "\<forall>k\<in>U. isDef k \<and> \<not> isArray k"
    by (simp_all add: graph_within_def)
  from ok have hn: "hm_ok (nodes' g)" and ha: "hm_ok (adj' g)"
    and on: "opts_hash (nodes' g) = graph_hash g" and oa: "opts_hash (adj' g) = graph_hash g"
    and dn: "dom (lookup (nodes' g)) = dom (lookup (adj' g))"
    by (simp_all add: graph_ok_def)
  have kh: "keyHash (nodes' g) = keyHash (adj' g)" by (rule keyHash_cong) (simp add: on oa)
  have fa: "fits (adj' g) n" using ha sub inj assms(2) U by (intro fits_within) auto
  have fn: "fits (nodes' g) n" using hn sub inj assms(2) U unfolding dn [symmetric] kh [symmetric]
    by (intro fits_within) auto
  note la = lookup_HashMap_set [OF fa] and ln = lookup_HashMap_set [OF fn]
  have sym: "\<And>u mu v r. lookup (adj' g) u = Some mu \<Longrightarrow> lookup mu v = Some r
      \<Longrightarrow> \<exists>mv. lookup (adj' g) v = Some mv \<and> lookup mv u = Some r"
    using ok unfolding graph_ok_def by blast
  have "graph_ok (g\<lparr>adj' := HashMap_set (adj' g) n (HashMap (graph_hash g)), nodes' := HashMap_set (nodes' g) n a1\<rparr>)"
    unfolding graph_ok_def
  proof (intro conjI allI impI)
    fix u mu v r
    assume "lookup (adj' (g\<lparr>adj' := HashMap_set (adj' g) n (HashMap (graph_hash g)), nodes' := HashMap_set (nodes' g) n a1\<rparr>)) u = Some mu
        \<and> lookup mu v = Some r"
    then have a: "((lookup (adj' g))(n \<mapsto> HashMap (graph_hash g))) u = Some mu" and b: "lookup mu v = Some r"
      by (simp_all add: la)
    from a b have "u \<noteq> n" by auto
    with a have old: "lookup (adj' g) u = Some mu" by simp
    from sym [OF old b] obtain mv where mv: "lookup (adj' g) v = Some mv" "lookup mv u = Some r" by blast
    with assms(3) have "v \<noteq> n" by auto
    with mv show "\<exists>mv. lookup (adj' (g\<lparr>adj' := HashMap_set (adj' g) n (HashMap (graph_hash g)), nodes' := HashMap_set (nodes' g) n a1\<rparr>)) v = Some mv
        \<and> lookup mv u = Some r"
      by (simp add: la)
  next
    fix k m
    assume "lookup (adj' (g\<lparr>adj' := HashMap_set (adj' g) n (HashMap (graph_hash g)), nodes' := HashMap_set (nodes' g) n a1\<rparr>)) k = Some m"
    then have a: "((lookup (adj' g))(n \<mapsto> HashMap (graph_hash g))) k = Some m" by (simp add: la)
    have old: "k \<noteq> n \<Longrightarrow> \<not> isArray k \<and> hm_ok m \<and> opts_hash m = graph_hash g"
      using a ok unfolding graph_ok_def by auto
    have new: "k = n \<Longrightarrow> \<not> isArray k \<and> hm_ok m \<and> opts_hash m = graph_hash g"
      using a U assms(2) by auto
    from old new show "\<not> isArray k" and "hm_ok m"
      and "opts_hash m = graph_hash (g\<lparr>adj' := HashMap_set (adj' g) n (HashMap (graph_hash g)), nodes' := HashMap_set (nodes' g) n a1\<rparr>)"
      by auto
  qed (simp_all add: hm_ok_HashMap_set hn ha fa fn on oa la ln dn)
  moreover have "keyHash (HashMap_set (adj' g) n (HashMap (graph_hash g))) = keyHash (adj' g)"
    by (rule keyHash_cong) simp
  ultimately show ?thesis using sub inj U assms(2) by (simp add: graph_within_def la)
qed

lemma Graph_add_node_impl_within:
  assumes "graph_within U g" and "n \<in> U"
  shows "\<exists>r g1 w1. Graph_add_node_impl g w n a = (r, g1, w1) \<and> graph_within U g1
    \<and> graph_hash g1 = graph_hash g \<and> n \<in> dom (lookup (adj' g1))
    \<and> dom (lookup (adj' g)) \<subseteq> dom (lookup (adj' g1))"
proof (cases "has_node g n")
  case True
  with Graph_add_node_impl_old [OF True, of w a] assms show ?thesis
    by (auto simp: has_node_lookup)
next
  case False
  then have nd: "n \<notin> dom (lookup (adj' g))" using assms by (simp add: has_node_lookup)
  from Graph_add_node_impl_new [OF False, of w a] obtain a1 w1 where
    eq: "Graph_add_node_impl g w n a
     = (Inr (), g\<lparr>adj' := HashMap_set (adj' g) n (HashMap (graph_hash g)), nodes' := HashMap_set (nodes' g) n a1\<rparr>, w1)"
    by blast
  from assms have "fits (adj' g) n"
    by (intro fits_within [where U = U]) (auto simp: graph_within_def graph_ok_def)
  then have "lookup (HashMap_set (adj' g) n (HashMap (graph_hash g))) = (lookup (adj' g))(n \<mapsto> HashMap (graph_hash g))"
    by (rule lookup_HashMap_set)
  then have "n \<in> dom (lookup (HashMap_set (adj' g) n (HashMap (graph_hash g))))"
    and "dom (lookup (adj' g)) \<subseteq> dom (lookup (HashMap_set (adj' g) n (HashMap (graph_hash g))))"
    by auto
  with eq graph_within_new_node [OF assms nd, of a1] show ?thesis by simp
qed

lemma Graph_add_node_within:
  assumes "graph_within U g" and "n \<in> U"
  shows "\<exists>r g1 w1. Graph_add_node g w n a = (r, g1, w1) \<and> graph_within U g1
    \<and> graph_hash g1 = graph_hash g \<and> (isl r \<or> n \<in> dom (lookup (adj' g1)))
    \<and> dom (lookup (adj' g)) \<subseteq> dom (lookup (adj' g1))"
proof -
  obtain attr w0 where p: "(if a = JUndefined \<or> a = JNull
                        then (let (b, w2) = new_object w [] in (JRef b, w2))
                        else (a, w)) = (attr, w0)" by (meson surj_pair)
  show ?thesis
  proof (cases "is_object attr")
    case False
    with p assms show ?thesis by (simp add: Graph_add_node_def add_node_def)
  next
    case True
    with p have "Graph_add_node g w n a = Graph_add_node_impl g w0 n attr"
      by (simp add: Graph_add_node_def add_node_def)
    with Graph_add_node_impl_within [OF assms, of w0 attr] show ?thesis by auto
  qed
qed

lemma adj_lookup:
  assumes "hm_ok (adj' g)" and "lookup (adj' g) n = Some m"
  shows "adj g n = Inr (Some m)"
  using HashMap_get_lookup [OF lookup_fits [OF assms(2,1)], of None] assms(2) by (simp add: adj_def)

lemma adj_call_lookup:
  assumes "hm_ok (adj' g)" and "lookup (adj' g) n = Some m"
  shows "adj_call g n f = (Inr (fst (f m)), g\<lparr>adj' := mutated (adj' g) n (snd (f m))\<rparr>)"
  by (simp add: adj_call_def adj_lookup [OF assms] split: prod.splits)

lemma graph_within_inner:
  assumes "graph_within U g" and "lookup (adj' g) n = Some m"
  shows "hm_ok m" and "opts_hash m = graph_hash g" and "dom (lookup m) \<subseteq> U" and "keyHash m = keyHash (adj' g)"
proof -
  from assms(1) have ok: "graph_ok g" and sub: "dom (lookup (adj' g)) \<subseteq> U"
    by (simp_all add: graph_within_def)
  from ok assms(2) show "hm_ok m" and oh: "opts_hash m = graph_hash g"
    unfolding graph_ok_def by blast+
  from ok have "opts_hash (adj' g) = graph_hash g" by (simp add: graph_ok_def)
  with oh show "keyHash m = keyHash (adj' g)" by (intro keyHash_cong) simp
  show "dom (lookup m) \<subseteq> U"
  proof
    fix b assume "b \<in> dom (lookup m)"
    then obtain r where "lookup m b = Some r" by auto
    with ok assms(2) obtain mb where "lookup (adj' g) b = Some mb"
      unfolding graph_ok_def by blast
    with sub show "b \<in> U" by auto
  qed
qed

lemma graph_within_link:
  assumes gw: "graph_within U g" and lu: "lookup (adj' g) u = Some es" and lv: "lookup (adj' g) v = Some mv"
  shows "\<exists>g3 g4. adj_call g u (\<lambda>m. ((), HashMap_set m v d)) = (Inr (), g3)
     \<and> adj_call g3 v (\<lambda>m. ((), HashMap_set m u d)) = (Inr (), g4)
     \<and> graph_within U g4 \<and> graph_hash g4 = graph_hash g \<and> nodes' g4 = nodes' g
     \<and> nbr g4 = (\<lambda>a b. if (a = u \<and> b = v) \<or> (a = v \<and> b = u) then Some d else nbr g a b)"
proof -
  from gw have ok: "graph_ok g" and sub: "dom (lookup (adj' g)) \<subseteq> U"
    and inj: "inj_on (keyHash (adj' g)) U" and U: "\<forall>k\<in>U. isDef k \<and> \<not> isArray k"
    by (simp_all add: graph_within_def)
  from ok have ha: "hm_ok (adj' g)" by (simp add: graph_ok_def)
  from lu lv sub have uU: "u \<in> U" and vU: "v \<in> U" by auto
  note ies = graph_within_inner [OF gw lu] and imv = graph_within_inner [OF gw lv]
  define es1 where "es1 = HashMap_set es v d"
  have f1: "fits es v" using ies vU U inj by (intro fits_within [where U = U]) auto
  have h1: "hm_ok es1" unfolding es1_def using ies(1) f1 by (rule hm_ok_HashMap_set)
  have l1: "lookup es1 = (lookup es)(v \<mapsto> d)" unfolding es1_def using f1 by (rule lookup_HashMap_set)
  have o1: "opts_hash es1 = graph_hash g" by (simp add: es1_def ies)
  have k1: "keyHash es1 = keyHash (adj' g)" unfolding ies(4) [symmetric] by (rule keyHash_cong) (simp add: es1_def)
  define A3 where "A3 = mutated (adj' g) u es1"
  define g3 where "g3 = g\<lparr>adj' := A3\<rparr>"
  have c1: "adj_call g u (\<lambda>m. ((), HashMap_set m v d)) = (Inr (), g3)"
    by (simp add: adj_call_lookup [OF ha lu] g3_def A3_def es1_def)
  have h3: "hm_ok A3" unfolding A3_def using ha lu by (rule hm_ok_mutated)
  have l3: "lookup A3 = (lookup (adj' g))(u \<mapsto> es1)" unfolding A3_def using lu by (rule lookup_mutated)
  define m3 where "m3 = (if v = u then es1 else mv)"
  have lv3: "lookup A3 v = Some m3" by (simp add: l3 m3_def lv)
  have hm3: "hm_ok m3" and om3: "opts_hash m3 = graph_hash g" and km3: "keyHash m3 = keyHash (adj' g)"
    and dm3: "dom (lookup m3) \<subseteq> U"
    using h1 o1 k1 imv ies(3) vU by (auto simp: m3_def l1)
  define m4 where "m4 = HashMap_set m3 u d"
  have f3: "fits m3 u" using hm3 dm3 uU U inj km3 by (intro fits_within [where U = U]) auto
  have h4: "hm_ok m4" unfolding m4_def using hm3 f3 by (rule hm_ok_HashMap_set)
  have l4: "lookup m4 = (lookup m3)(u \<mapsto> d)" unfolding m4_def using f3 by (rule lookup_HashMap_set)
  have o4: "opts_hash m4 = graph_hash g" by (simp add: m4_def om3)
  define A4 where "A4 = mutated A3 v m4"
  define g4 where "g4 = g3\<lparr>adj' := A4\<rparr>"
  have "hm_ok (adj' g3)" "lookup (adj' g3) v = Some m3" by (simp_all add: g3_def h3 lv3)
  from adj_call_lookup [OF this, of "\<lambda>m. ((), HashMap_set m u d)"]
  have c2: "adj_call g3 v (\<lambda>m. ((), HashMap_set m u d)) = (Inr (), g4)"
    by (simp add: g4_def A4_def m4_def g3_def)
  have hA4: "hm_ok A4" unfolding A4_def using h3 lv3 by (rule hm_ok_mutated)
  have lA4: "lookup A4 = (lookup (adj' g))(u \<mapsto> es1, v \<mapsto> m4)"
    unfolding A4_def lookup_mutated [OF lv3] l3 ..
  have oA4: "opts_hash A4 = opts_hash (adj' g)" by (simp add: A4_def A3_def)
  have dA4: "dom (lookup A4) = dom (lookup (adj' g))" using lu lv by (auto simp: lA4)
  define nb where "nb = (\<lambda>(L :: key \<Rightarrow> jsval hashmap option) a b. case L a of Some m \<Rightarrow> lookup m b | None \<Rightarrow> None)"
  have nb4: "nb (lookup A4) a b = (if (a = u \<and> b = v) \<or> (a = v \<and> b = u) then Some d else nb (lookup (adj' g)) a b)" for a b
    using lu lv by (auto simp: nb_def lA4 l4 l1 m3_def)
  have sym: "nb (lookup (adj' g)) a b = Some r \<Longrightarrow> nb (lookup (adj' g)) b a = Some r" for a b r
    using ok unfolding graph_ok_def nb_def by (fastforce split: option.splits)
  have sym4: "nb (lookup A4) a b = Some r \<Longrightarrow> nb (lookup A4) b a = Some r" for a b r
    unfolding nb4 using sym [of a b r] by (auto split: if_splits)
  have inner4: "\<not> isArray k \<and> hm_ok m \<and> opts_hash m = graph_hash g" if "lookup A4 k = Some m" for k m
  proof -
    from that have "k \<in> dom (lookup A4)" by (rule domI)
    then have "k \<in> U" using sub unfolding dA4 by (rule subsetD [rotated])
    with U have "\<not> isArray k" by simp
    moreover have "hm_ok m \<and> opts_hash m = graph_hash g"
    proof (cases "k = v")
      case True with that h4 o4 show ?thesis by (auto simp: lA4)
    next
      case False
      show ?thesis
      proof (cases "k = u")
        case True with False that h1 o1 show ?thesis by (auto simp: lA4)
      next
        case F: False
        with False that have "lookup (adj' g) k = Some m" by (simp add: lA4)
        from graph_within_inner(1,2) [OF gw this] show ?thesis by simp
      qed
    qed
    ultimately show ?thesis by simp
  qed
  have "graph_ok g4"
    unfolding graph_ok_def
  proof (intro conjI allI impI)
    fix a ma b r
    assume "lookup (adj' g4) a = Some ma \<and> lookup ma b = Some r"
    then have "nb (lookup A4) a b = Some r" by (simp add: nb_def g4_def)
    then have "nb (lookup A4) b a = Some r" by (rule sym4)
    then show "\<exists>mb. lookup (adj' g4) b = Some mb \<and> lookup mb a = Some r"
      by (simp add: nb_def g4_def split: option.splits)
  next
    fix k m assume "lookup (adj' g4) k = Some m"
    then have "lookup A4 k = Some m" by (simp add: g4_def)
    from inner4 [OF this] show "\<not> isArray k" and "hm_ok m" and "opts_hash m = graph_hash g4"
      by (simp_all add: g4_def g3_def)
  qed (use ok in \<open>simp_all add: g4_def g3_def hA4 oA4 dA4 graph_ok_def\<close>)
  moreover have "keyHash A4 = keyHash (adj' g)" by (rule keyHash_cong) (rule oA4)
  ultimately have "graph_within U g4" using sub inj U by (simp add: graph_within_def g4_def dA4)
  moreover have "graph_hash g4 = graph_hash g" and "nodes' g4 = nodes' g" by (simp_all add: g4_def g3_def)
  moreover have "nbr g4 = (\<lambda>a b. if (a = u \<and> b = v) \<or> (a = v \<and> b = u) then Some d else nbr g a b)"
    using nb4 by (intro ext) (simp add: nbr_def nb_def g4_def)
  ultimately show ?thesis using c1 c2 by blast
qed

lemma Graph_add_edge_impl_within:
  assumes "graph_within U g" and "u \<in> U" and "v \<in> U"
  shows "\<exists>r g1 w1. Graph_add_edge_impl g w u v a = (r, g1, w1) \<and> graph_within U g1
    \<and> graph_hash g1 = graph_hash g"
proof -
  from Graph_add_node_within [OF assms(1,2), of w JUndefined] obtain r1 g1 w1 where
    n1: "Graph_add_node g w u JUndefined = (r1, g1, w1)" and gw1: "graph_within U g1"
    and gh1: "graph_hash g1 = graph_hash g" and d1: "isl r1 \<or> u \<in> dom (lookup (adj' g1))"
    by blast
  show ?thesis
  proof (cases r1)
    case (Inl e)
    with n1 gw1 gh1 show ?thesis by (simp add: Graph_add_edge_impl_def)
  next
    case r1: (Inr x1)
    from Graph_add_node_within [OF gw1 assms(3), of w1 JUndefined] obtain r2 g2 w2 where
      n2: "Graph_add_node g1 w1 v JUndefined = (r2, g2, w2)" and gw2: "graph_within U g2"
      and gh2: "graph_hash g2 = graph_hash g1" and d2: "isl r2 \<or> v \<in> dom (lookup (adj' g2))"
      and mono: "dom (lookup (adj' g1)) \<subseteq> dom (lookup (adj' g2))"
      by blast
    show ?thesis
    proof (cases r2)
      case (Inl e)
      with n1 r1 n2 gw2 gh1 gh2 show ?thesis by (simp add: Graph_add_edge_impl_def)
    next
      case r2: (Inr x2)
      from d1 r1 mono obtain es where lu: "lookup (adj' g2) u = Some es" by auto
      from d2 r2 obtain mv where lv: "lookup (adj' g2) v = Some mv" by auto
      from gw2 have ha: "hm_ok (adj' g2)" by (simp add: graph_within_def graph_ok_def)
      note au = adj_lookup [OF ha lu]
      from graph_within_link [OF gw2 lu lv, of "JRef (fresh w2)"] obtain g3 g4 where
        c1: "adj_call g2 u (\<lambda>m. ((), HashMap_set m v (JRef (fresh w2)))) = (Inr (), g3)"
        and c2: "adj_call g3 v (\<lambda>m. ((), HashMap_set m u (JRef (fresh w2)))) = (Inr (), g4)"
        and gw4: "graph_within U g4" and gh4: "graph_hash g4 = graph_hash g2"
        by blast
      from gw2 gw4 gh1 gh2 gh4 show ?thesis
        by (auto simp: Graph_add_edge_impl_def n1 r1 n2 r2 au c1 c2 new_object_def
            split: sum.splits prod.splits)
    qed
  qed
qed

lemma Graph_add_edge_within:
  assumes "graph_within U g" and "u \<in> U" and "v \<in> U"
  shows "\<exists>r g1 w1. Graph_add_edge g w u v a = (r, g1, w1) \<and> graph_within U g1
    \<and> graph_hash g1 = graph_hash g"
proof -
  obtain attr w0 where p: "(if truthy a then (a, w)
                        else (let (b, w2) = new_object w [] in (JRef b, w2))) = (attr, w0)"
    by (meson surj_pair)
  show ?thesis
  proof (cases "is_object attr")
    case False
    with p assms show ?thesis by (simp add: Graph_add_edge_def add_edge_def)
  next
    case True
    with p have "Graph_add_edge g w u v a = Graph_add_edge_impl g w0 u v attr"
      by (simp add: Graph_add_edge_def add_edge_def)
    with Graph_add_edge_impl_within [OF assms, of w0 attr] show ?thesis by auto
  qed
qed

lemma graph_within_Graph_empty:
  assumes "inj_on (keyHash (HashMap hash :: unit hashmap)) U" and "\<forall>k\<in>U. isDef k \<and> \<not> isArray k"
  shows "graph_within U (Graph_empty attr hash)"
proof -
  have "keyHash (HashMap hash :: jsval hashmap hashmap) = keyHash (HashMap hash :: unit hashmap)"
    by (rule ext) (simp add: keyHash_def)
  with assms show ?thesis
    by (simp add: graph_within_def graph_ok_def Graph_empty_def dom_def)
qed

text \<open>A call that only adds, with nodes from \<open>U\<close>.\<close>

fun adds_within :: "key set \<Rightarrow> call \<Rightarrow> bool" where
  "adds_within U (AddNode n a) \<longleftrightarrow> n \<in> U"
| "adds_within U (AddEdge u v a) \<longleftrightarrow> u \<in> U \<and> v \<in> U"
| "adds_within U (RemoveEdge u v) \<longleftrightarrow> False"
| "adds_within U (RemoveNode n) \<longleftrightarrow> False"

lemma Graph_call_within:
  assumes "graph_within U (fst s)" and "adds_within U c"
  shows "graph_within U (fst (snd (Graph_call s c)))"
proof (cases s)
  case (Pair g w)
  with assms have gw: "graph_within U g" by simp
  show ?thesis
  proof (cases c)
    case (AddNode n a)
    with assms(2) Graph_add_node_within [OF gw, of n w a] Pair show ?thesis by auto
  next
    case (AddEdge u v a)
    with assms(2) Graph_add_edge_within [OF gw, of u v w a] Pair show ?thesis by auto
  qed (use assms(2) in simp_all)
qed

lemma Graph_calls_within:
  assumes "graph_within U (fst s)" and "\<forall>c\<in>set cs. adds_within U c"
  shows "graph_within U (fst (Graph_calls s cs))"
  using assms
proof (induction cs arbitrary: s)
  case Nil
  then show ?case by simp
next
  case (Cons c cs)
  from Cons.prems have "graph_within U (fst (snd (Graph_call s c)))"
    by (intro Graph_call_within) simp_all
  with Cons show ?case by simp
qed

text \<open>The path 1 - 2 - 3, built by two calls of \<^verbatim>\<open>add_edge\<close>.\<close>

definition path3 :: graph where
  "path3 = fst (Graph_calls (Graph_empty [] None, world_empty)
     [AddEdge (KNum 1) (KNum 2) JUndefined, AddEdge (KNum 2) (KNum 3) JUndefined])"

lemma graph_ok_path3: "graph_ok path3"
proof -
  have "graph_within {KNum 1, KNum 2, KNum 3} (Graph_empty [] None)"
    by (rule graph_within_Graph_empty)
       (simp_all add: keyHash_def HashMap_def isDef_def isArray_def show_int_def digit_char_def)
  then have "graph_within {KNum 1, KNum 2, KNum 3} path3"
    unfolding path3_def by (intro Graph_calls_within) simp_all
  then show ?thesis by (simp add: graph_within_def)
qed

lemma Graph_edges_iter_path3:
  "Graph_edges_iter path3 None False = Inr [E2 (KNum 1) (KNum 2), E2 (KNum 2) (KNum 3)]"
  by (simp add: path3_def HashMap_simps Graph_simps Let_def Graph_edges_iter_def
      Graph_generate_edges_iter_def Graph_adjacency_iter_def generate_adjacency_iter_def
      getEntries_def iter_from.simps show_int_def digit_char_def map_filter_def)

text \<open>
  The endpoint pairs the seen set lets through, for a well-formed graph: no pair twice,
  adjacent nodes only, every adjacent pair in one of its two orders, and never in both.
\<close>

lemma unseen_pairs:
  assumes "graph_ok g"
  defines "E \<equiv> unseen_edges (\<lambda>n e. (n, fst e)) {} (entries (adj' g))"
  shows "distinct E"
    and "\<And>u v. (u, v) \<in> set E \<Longrightarrow> neighbour g u v"
    and "\<And>u v. neighbour g u v \<Longrightarrow> neighbour g v u"
    and "\<And>u v. neighbour g u v \<Longrightarrow> (u, v) \<in> set E \<or> (v, u) \<in> set E"
    and "\<And>u v. u \<noteq> v \<Longrightarrow> \<not> ((u, v) \<in> set E \<and> (v, u) \<in> set E)"
proof -
  let ?L = "entries (adj' g)"
  let ?E = "unseen_edges (\<lambda>n e. (n, fst e)) {} ?L"
  from assms(1) have ok: "hm_ok (adj' g)" by (simp add: graph_ok_def)
  have setL: "set ?L = {(n, m). lookup (adj' g) n = Some m}" using ok by (rule set_entries)
  have dL: "distinct (map fst ?L)" using ok by (rule distinct_entries)
  have inner: "\<And>n m. (n, m) \<in> set ?L \<Longrightarrow> hm_ok m"
    using graph_ok_inner [OF assms(1)] by (auto simp: setL)
  have dist: "distinct ?E"
    using dL inner by (intro distinct_unseen_edges) (auto simp: distinct_entries)
  have keys_inner: "\<And>n m v. (n, m) \<in> set ?L \<Longrightarrow> v \<in> fst ` set (entries m) \<longleftrightarrow> (\<exists>r. lookup m v = Some r)"
    using inner by (auto simp: fst_entries dom_def)
  have sound: "\<And>u v. (u, v) \<in> set ?E \<Longrightarrow> neighbour g u v"
  proof -
    fix u v assume "(u, v) \<in> set ?E"
    then obtain pre nbrs post where p: "?L = pre @ (u, nbrs) # post" "v \<in> fst ` set (entries nbrs)"
      unfolding unseen_edges_mem by blast
    then have inL: "(u, nbrs) \<in> set ?L" by (metis in_set_conv_decomp)
    with p(2) keys_inner obtain r where "lookup nbrs v = Some r" by blast
    moreover from inL have "lookup (adj' g) u = Some nbrs" by (simp add: setL)
    ultimately show "neighbour g u v" using neighbour_lookup [OF assms(1)] by blast
  qed
  have sym: "\<And>u v. neighbour g u v \<Longrightarrow> neighbour g v u"
  proof -
    fix u v assume "neighbour g u v"
    then obtain mu r where "lookup (adj' g) u = Some mu" "lookup mu v = Some r"
      using neighbour_lookup [OF assms(1)] by blast
    with assms(1) obtain mv where "lookup (adj' g) v = Some mv" "lookup mv u = Some r"
      unfolding graph_ok_def by blast
    then show "neighbour g v u" using neighbour_lookup [OF assms(1)] by blast
  qed
  have complete: "\<And>u v. neighbour g u v \<Longrightarrow> (u, v) \<in> set ?E \<or> (v, u) \<in> set ?E"
  proof -
    fix u v assume n: "neighbour g u v"
    then obtain mu r where mu: "lookup (adj' g) u = Some mu" "lookup mu v = Some r"
      using neighbour_lookup [OF assms(1)] by blast
    from sym [OF n] obtain mv r' where mv: "lookup (adj' g) v = Some mv" "lookup mv u = Some r'"
      using neighbour_lookup [OF assms(1)] by blast
    from mu(1) have "(u, mu) \<in> set ?L" by (simp add: setL)
    then obtain pre post where sp: "?L = pre @ (u, mu) # post" by (meson split_list)
    have vk: "v \<in> fst ` set (entries mu)"
      using keys_inner [of u mu v] mu \<open>(u, mu) \<in> set ?L\<close> by blast
    show "(u, v) \<in> set ?E \<or> (v, u) \<in> set ?E"
    proof (cases "v \<in> fst ` set pre")
      case False
      with sp vk have "(u, v) \<in> set ?E" unfolding unseen_edges_mem by blast
      then show ?thesis ..
    next
      case True
      then obtain m' where "(v, m') \<in> set pre" by auto
      then obtain pre1 post1 where sp1: "pre = pre1 @ (v, m') # post1" by (meson split_list)
      then have "(v, m') \<in> set ?L" using sp by simp
      then have "lookup (adj' g) v = Some m'" by (simp add: setL)
      with mv(1) have "m' = mv" by simp
      have uk: "u \<in> fst ` set (entries mv)"
        using keys_inner [of v mv u] mv \<open>(v, m') \<in> set ?L\<close> \<open>m' = mv\<close> by blast
      have "u \<notin> fst ` set pre1"
        using dL sp sp1 by auto
      moreover have "?L = pre1 @ (v, mv) # (post1 @ (u, mu) # post)"
        using sp sp1 \<open>m' = mv\<close> by simp
      ultimately have "(v, u) \<in> set ?E" using uk unfolding unseen_edges_mem by blast
      then show ?thesis ..
    qed
  qed
  have once: "\<And>u v. u \<noteq> v \<Longrightarrow> \<not> ((u, v) \<in> set ?E \<and> (v, u) \<in> set ?E)"
  proof
    fix u v :: key assume ne: "u \<noteq> v" and both: "(u, v) \<in> set ?E \<and> (v, u) \<in> set ?E"
    from both obtain pre nu post where a: "?L = pre @ (u, nu) # post" "v \<notin> fst ` set pre"
      unfolding unseen_edges_mem by blast
    from both obtain pre' nv post' where b: "?L = pre' @ (v, nv) # post'" "u \<notin> fst ` set pre'"
      unfolding unseen_edges_mem by blast
    from a(1) b(1) have "pre @ (u, nu) # post = pre' @ (v, nv) # post'" by simp
    moreover have "(u, nu) \<noteq> (v, nv)" using ne by simp
    ultimately have "(u, nu) \<in> set pre' \<or> (v, nv) \<in> set pre" by (rule split_two)
    with a(2) b(2) show False by force
  qed
  from dist show "distinct E" by (simp add: E_def)
  from sound show "\<And>u v. (u, v) \<in> set E \<Longrightarrow> neighbour g u v" by (simp add: E_def)
  from sym show "\<And>u v. neighbour g u v \<Longrightarrow> neighbour g v u" .
  from complete show "\<And>u v. neighbour g u v \<Longrightarrow> (u, v) \<in> set E \<or> (v, u) \<in> set E" by (simp add: E_def)
  from once show "\<And>u v. u \<noteq> v \<Longrightarrow> \<not> ((u, v) \<in> set E \<and> (v, u) \<in> set E)" by (simp add: E_def)
qed

text \<open>
  C7. For every well-formed simple undirected graph, \<^verbatim>\<open>edges_iter\<close> without a node
  bunch returns, and what it yields is what the seen set lets through: walking the nodes
  in the order of \<^verbatim>\<open>adj_\<close>, the neighbours of \<open>n\<close> that are not yet marked seen, \<open>n\<close> being
  marked once its neighbours are exhausted (\<open>unseen_edges\<close>). Every undirected edge is
  yielded exactly once: no pair of endpoints is yielded twice, \<open>v\<close> is a neighbour of \<open>u\<close>
  if and only if (u, v) or (v, u) is yielded, and for \<open>u \<noteq> v\<close> never both. With
  \<^verbatim>\<open>opt_data\<close> the tuples carry the edge record as well.
\<close>

theorem Graph_edges_iter_each_edge_once:
  assumes "graph_ok g"
  shows "\<exists>es. Graph_edges_iter g None opt_data = Inr es
     \<and> map ends es = unseen_edges (\<lambda>n e. (n, fst e)) {} (entries (adj' g))
     \<and> distinct (map ends es)
     \<and> (\<forall>u v. neighbour g u v \<longleftrightarrow> (u, v) \<in> set (map ends es) \<or> (v, u) \<in> set (map ends es))
     \<and> (\<forall>u v. u \<noteq> v \<longrightarrow> \<not> ((u, v) \<in> set (map ends es) \<and> (v, u) \<in> set (map ends es)))"
proof -
  let ?L = "entries (adj' g)"
  let ?E = "unseen_edges (\<lambda>n e. (n, fst e)) {} ?L"
  define es where "es = unseen_edges (if opt_data then (\<lambda>n nbrd. E3 n (fst nbrd) (snd nbrd)) else (\<lambda>n nbrd. E2 n (fst nbrd))) {} ?L"
  have run: "Graph_edges_iter g None opt_data = Inr es"
    unfolding es_def using assms by (rule Graph_edges_iter_unseen)
  have me: "map ends es = ?E"
    unfolding es_def by (cases opt_data) (simp_all add: map_ends_unseen_edges)
  note dist = unseen_pairs(1) [OF assms] and sound = unseen_pairs(2) [OF assms]
    and sym = unseen_pairs(3) [OF assms] and complete = unseen_pairs(4) [OF assms]
    and once = unseen_pairs(5) [OF assms]
  show ?thesis
  proof (intro exI [of _ es] conjI allI impI iffI)
    show "Graph_edges_iter g None opt_data = Inr es" by (rule run)
    show "map ends es = ?E" by (rule me)
    show "distinct (map ends es)" unfolding me by (rule dist)
    show "(u, v) \<in> set (map ends es) \<or> (v, u) \<in> set (map ends es)" if "neighbour g u v" for u v
      unfolding me using that by (rule complete)
    show "neighbour g u v" if "(u, v) \<in> set (map ends es) \<or> (v, u) \<in> set (map ends es)" for u v
      using that unfolding me by (blast intro: sound sym)
    show "\<not> ((u, v) \<in> set (map ends es) \<and> (v, u) \<in> set (map ends es))" if "u \<noteq> v" for u v
      unfolding me using that by (rule once)
  qed
qed

theorem Graph_edges_iter_each_edge_once_witness:
  "\<exists>es. Graph_edges_iter path3 None False = Inr es
     \<and> es = [E2 (KNum 1) (KNum 2), E2 (KNum 2) (KNum 3)]
     \<and> map ends es = unseen_edges (\<lambda>n e. (n, fst e)) {} (entries (adj' path3))
     \<and> distinct (map ends es)
     \<and> (\<forall>u v. neighbour path3 u v \<longleftrightarrow> (u, v) \<in> set (map ends es) \<or> (v, u) \<in> set (map ends es))
     \<and> (\<forall>u v. u \<noteq> v \<longrightarrow> \<not> ((u, v) \<in> set (map ends es) \<and> (v, u) \<in> set (map ends es)))"
proof -
  from Graph_edges_iter_each_edge_once [OF graph_ok_path3, of False] obtain es where
    a: "Graph_edges_iter path3 None False = Inr es
     \<and> map ends es = unseen_edges (\<lambda>n e. (n, fst e)) {} (entries (adj' path3))
     \<and> distinct (map ends es)
     \<and> (\<forall>u v. neighbour path3 u v \<longleftrightarrow> (u, v) \<in> set (map ends es) \<or> (v, u) \<in> set (map ends es))
     \<and> (\<forall>u v. u \<noteq> v \<longrightarrow> \<not> ((u, v) \<in> set (map ends es) \<and> (v, u) \<in> set (map ends es)))" ..
  from a have c: "Graph_edges_iter path3 None False = Inr es" by (rule conjunct1)
  then have e: "es = [E2 (KNum 1) (KNum 2), E2 (KNum 2) (KNum 3)]"
    by (simp add: Graph_edges_iter_path3)
  from a have b: "map ends es = unseen_edges (\<lambda>n e. (n, fst e)) {} (entries (adj' path3))
     \<and> distinct (map ends es)
     \<and> (\<forall>u v. neighbour path3 u v \<longleftrightarrow> (u, v) \<in> set (map ends es) \<or> (v, u) \<in> set (map ends es))
     \<and> (\<forall>u v. u \<noteq> v \<longrightarrow> \<not> ((u, v) \<in> set (map ends es) \<and> (v, u) \<in> set (map ends es)))"
    by (rule conjunct2)
  show ?thesis by (rule exI [of _ es]) (rule conjI [OF c conjI [OF e b]])
qed

section \<open>Graphs and their records in the store\<close>

text \<open>
  \<open>store_ok w\<close>: every record of the store lies below the next free address, so a new
  object is a new record. \<open>node_addr g y\<close> and \<open>edge_addr g y\<close>: the record at \<open>y\<close> is the
  attribute record of a node, of an edge of \<open>g\<close>.

  \<open>built F U H w\<close>: the graph \<open>H\<close> has been built in the store \<open>w\<close> from nodes in \<open>U\<close> by
  calls that allocate its records at addresses from \<open>F\<close> on: \<open>H\<close> is well-formed, every
  node record and every edge record of \<open>H\<close> is a record at an address between \<open>F\<close> and the
  next free one, and no record serves a node and an edge.
\<close>

definition store_ok :: "world \<Rightarrow> bool" where
  "store_ok w \<longleftrightarrow> dom (dicts w) \<subseteq> {..<fresh w}"

definition node_addr :: "'z graph_scheme \<Rightarrow> addr \<Rightarrow> bool" where
  "node_addr g y \<longleftrightarrow> (\<exists>k. lookup (nodes' g) k = Some (JRef y))"

definition edge_addr :: "'z graph_scheme \<Rightarrow> addr \<Rightarrow> bool" where
  "edge_addr g y \<longleftrightarrow> (\<exists>a b. nbr g a b = Some (JRef y))"

definition built :: "nat \<Rightarrow> key set \<Rightarrow> 'z graph_scheme \<Rightarrow> world \<Rightarrow> bool" where
  "built F U H w \<longleftrightarrow>
     graph_within U H \<and> store_ok w \<and> F \<le> fresh w
     \<and> (\<forall>n r. lookup (nodes' H) n = Some r \<longrightarrow> (\<exists>x. r = JRef x \<and> F \<le> x \<and> x < fresh w))
     \<and> (\<forall>a b r. nbr H a b = Some r \<longrightarrow> (\<exists>x. r = JRef x \<and> F \<le> x \<and> x < fresh w))
     \<and> (\<forall>y. node_addr H y \<longrightarrow> \<not> edge_addr H y)"

lemma graph_ok_sym:
  "graph_ok g \<Longrightarrow> lookup (adj' g) u = Some mu \<Longrightarrow> lookup mu v = Some r
   \<Longrightarrow> \<exists>mv. lookup (adj' g) v = Some mv \<and> lookup mv u = Some r"
  unfolding graph_ok_def by blast

lemma nbr_SomeD: "nbr g a b = Some r \<Longrightarrow> \<exists>m. lookup (adj' g) a = Some m \<and> lookup m b = Some r"
  by (cases "lookup (adj' g) a") (simp_all add: nbr_def)

lemma nbr_sym:
  assumes "graph_ok g" and "nbr g a b = Some r"
  shows "nbr g b a = Some r"
proof -
  from nbr_SomeD [OF assms(2)] obtain m where "lookup (adj' g) a = Some m" "lookup m b = Some r" by blast
  from graph_ok_sym [OF assms(1) this] show ?thesis by (auto simp: nbr_def)
qed

lemma nbr_dom: "graph_ok g \<Longrightarrow> nbr g a b = Some r \<Longrightarrow> a \<in> dom (lookup (adj' g)) \<and> b \<in> dom (lookup (adj' g))"
  using nbr_sym [of g a b r] by (auto dest!: nbr_SomeD)

lemma neighbour_nbr:
  assumes "graph_ok g"
  shows "neighbour g u v \<longleftrightarrow> nbr g u v \<noteq> None"
proof (cases "lookup (adj' g) u")
  case None
  then show ?thesis unfolding neighbour_lookup [OF assms] by (simp add: nbr_def)
next
  case (Some m)
  then show ?thesis unfolding neighbour_lookup [OF assms] by (simp add: nbr_def)
qed

lemma edge_record_nbr:
  assumes "graph_ok g"
  shows "edge_record g u v = nbr g u v"
proof (cases "lookup (adj' g) u")
  case None
  have "adj g u = Inr None \<or> isl (adj g u)"
  proof (cases "isDef u")
    case False
    then show ?thesis by (simp add: adj_def HashMap_get_def)
  next
    case True
    show ?thesis
    proof (cases "map' (adj' g) (keyHash (adj' g) u)")
      case N: None
      with True show ?thesis by (simp add: adj_def HashMap_get_def)
    next
      case (Some e)
      with None have "fst e \<noteq> u" by (auto simp: lookup_def)
      with Some True show ?thesis by (auto simp: adj_def HashMap_get_def)
    qed
  qed
  then have "edge_record g u v = None"
    by (cases "adj g u") (auto simp: edge_record_def)
  with None show ?thesis by (simp add: nbr_def)
next
  case (Some m)
  from assms have "hm_ok (adj' g)" by (simp add: graph_ok_def)
  from adj_lookup [OF this Some] have a: "adj g u = Inr (Some m)" .
  from graph_ok_inner [OF assms Some] have hm: "hm_ok m" .
  have "(case HashMap_get m v None of Inr r \<Rightarrow> r | Inl e \<Rightarrow> None) = lookup m v"
  proof (cases "map' m (keyHash m v)")
    case N: None
    then show ?thesis by (simp add: HashMap_get_def lookup_def)
  next
    case S: (Some e)
    obtain k x where e: "e = (k, x)" by (cases e)
    from hm_ok_entry [OF hm S [unfolded e]] have "isDef k" by simp
    with S e show ?thesis by (auto simp: HashMap_get_def lookup_def)
  qed
  with a Some show ?thesis by (simp add: edge_record_def nbr_def)
qed

subsection \<open>add_node on a built graph\<close>

lemma fst_new_object [simp]: "fst (new_object w d) = fresh w"
  by (simp add: new_object_def)

lemma fresh_new_object [simp]: "fresh (snd (new_object w d)) = fresh w + 1"
  by (simp add: new_object_def)

lemma dicts_new_object [simp]: "dicts (snd (new_object w d)) = (dicts w)(fresh w \<mapsto> d)"
  by (simp add: new_object_def)

lemma store_ok_new_object [simp]: "store_ok w \<Longrightarrow> store_ok (snd (new_object w d))"
  by (auto simp: store_ok_def)

lemma keymaps_new_object [simp]: "keymaps (snd (new_object w d)) = keymaps w"
  by (simp add: new_object_def)

lemma built_mono:
  assumes "built F U H w" and "store_ok w'" and "fresh w \<le> fresh w'"
  shows "built F U H w'"
  using assms unfolding built_def by (meson le_trans less_le_trans)

lemma built_within: "built F U H w \<Longrightarrow> graph_within U H"
  by (simp add: built_def)

lemma node_lookup:
  assumes "graph_within U g" and "n \<in> U"
  shows "node g n = Inr (lookup (nodes' g) n)"
proof -
  from assms(1) have ok: "graph_ok g" and sub: "dom (lookup (adj' g)) \<subseteq> U"
    and inj: "inj_on (keyHash (adj' g)) U" and U: "\<forall>k\<in>U. isDef k \<and> \<not> isArray k"
    by (simp_all add: graph_within_def)
  from ok have hn: "hm_ok (nodes' g)" and dn: "dom (lookup (nodes' g)) = dom (lookup (adj' g))"
    and oh: "opts_hash (nodes' g) = opts_hash (adj' g)"
    by (simp_all add: graph_ok_def)
  have kh: "keyHash (nodes' g) = keyHash (adj' g)" using oh by (rule keyHash_cong)
  have "fits (nodes' g) n"
    using hn sub inj assms(2) U unfolding dn [symmetric] kh [symmetric]
    by (intro fits_within [where U = U]) auto
  from HashMap_get_lookup [OF this, of None] show ?thesis
    by (cases "lookup (nodes' g) n") (simp_all add: node_def)
qed

lemma nodes_new_node:
  assumes "graph_within U g" and "n \<in> U"
  shows "lookup (HashMap_set (nodes' g) n a) = (lookup (nodes' g))(n \<mapsto> a)"
    and "lookup (HashMap_set (adj' g) n m) = (lookup (adj' g))(n \<mapsto> m)"
proof -
  from assms(1) have ok: "graph_ok g" and sub: "dom (lookup (adj' g)) \<subseteq> U"
    and inj: "inj_on (keyHash (adj' g)) U" and U: "\<forall>k\<in>U. isDef k \<and> \<not> isArray k"
    by (simp_all add: graph_within_def)
  from ok have hn: "hm_ok (nodes' g)" and ha: "hm_ok (adj' g)"
    and dn: "dom (lookup (nodes' g)) = dom (lookup (adj' g))"
    and oh: "opts_hash (nodes' g) = opts_hash (adj' g)"
    by (simp_all add: graph_ok_def)
  have kh: "keyHash (nodes' g) = keyHash (adj' g)" using oh by (rule keyHash_cong)
  have "fits (nodes' g) n"
    using hn sub inj assms(2) U unfolding dn [symmetric] kh [symmetric]
    by (intro fits_within [where U = U]) auto
  then show "lookup (HashMap_set (nodes' g) n a) = (lookup (nodes' g))(n \<mapsto> a)"
    by (rule lookup_HashMap_set)
  have "fits (adj' g) n" using ha sub inj assms(2) U by (intro fits_within [where U = U]) auto
  then show "lookup (HashMap_set (adj' g) n m) = (lookup (adj' g))(n \<mapsto> m)"
    by (rule lookup_HashMap_set)
qed

text \<open>The graph after a new node \<open>n\<close> with the record \<open>a\<close> has been added.\<close>

definition with_node :: "graph \<Rightarrow> key \<Rightarrow> jsval \<Rightarrow> graph" where
  "with_node g n a = g\<lparr>adj' := HashMap_set (adj' g) n (HashMap (graph_hash g)), nodes' := HashMap_set (nodes' g) n a\<rparr>"

lemma with_node_facts:
  assumes "graph_within U g" and "n \<in> U" and "n \<notin> dom (lookup (adj' g))"
  shows "graph_within U (with_node g n a)"
    and "lookup (nodes' (with_node g n a)) = (lookup (nodes' g))(n \<mapsto> a)"
    and "lookup (adj' (with_node g n a)) = (lookup (adj' g))(n \<mapsto> HashMap (graph_hash g))"
    and "nbr (with_node g n a) = nbr g"
    and "graph_hash (with_node g n a) = graph_hash g"
proof -
  show "graph_within U (with_node g n a)"
    unfolding with_node_def using assms by (rule graph_within_new_node)
  show n: "lookup (nodes' (with_node g n a)) = (lookup (nodes' g))(n \<mapsto> a)"
    by (simp add: with_node_def nodes_new_node [OF assms(1,2)])
  show a: "lookup (adj' (with_node g n a)) = (lookup (adj' g))(n \<mapsto> HashMap (graph_hash g))"
    by (simp add: with_node_def nodes_new_node [OF assms(1,2)])
  show "nbr (with_node g n a) = nbr g"
  proof (intro ext)
    fix x y
    from assms(3) have "lookup (adj' g) n = None" by auto
    then show "nbr (with_node g n a) x y = nbr g x y" by (simp add: nbr_def a)
  qed
  show "graph_hash (with_node g n a) = graph_hash g" by (simp add: with_node_def)
qed

lemma built_with_node:
  assumes "built F U H w" and "n \<in> U" and "n \<notin> dom (lookup (adj' H))"
    and "F \<le> c" and "c < fresh w" and "\<not> edge_addr H c"
  shows "built F U (with_node H n (JRef c)) w"
proof -
  note f = with_node_facts [OF built_within [OF assms(1)] assms(2,3), of "JRef c"]
  have e: "edge_addr (with_node H n (JRef c)) = edge_addr H"
    by (rule ext) (simp add: edge_addr_def f)
  have n: "node_addr (with_node H n (JRef c)) y \<Longrightarrow> node_addr H y \<or> y = c" for y
    by (auto simp: node_addr_def f split: if_splits)
  from assms(1,4,5,6) show ?thesis
    unfolding built_def e
    by (auto simp: f dest!: n)
qed

lemma object_extend_JRef:
  "\<exists>w'. object_extend w (JRef x) s = (Inr (), w') \<and> fresh w' = fresh w
     \<and> (\<forall>y. y \<noteq> x \<longrightarrow> dicts w' y = dicts w y) \<and> dom (dicts w') = dom (dicts w)
     \<and> (\<forall>d. dicts w x = Some d \<longrightarrow> dicts w' x = Some (fold (\<lambda>q. dict_put (fst q) (snd q)) (props w s) d))
     \<and> keymaps w' = keymaps w"
proof (cases "props w s")
  case Nil
  then show ?thesis by (simp add: object_extend_def)
next
  case (Cons p ps)
  show ?thesis
  proof (cases "dicts w x")
    case None
    with Cons show ?thesis by (simp add: object_extend_def)
  next
    case (Some d)
    with Cons show ?thesis by (auto simp: object_extend_def)
  qed
qed

lemma object_extend_empty: "props w s = [] \<Longrightarrow> object_extend w t s = (Inr (), w)"
  by (simp add: object_extend_def)

lemma node_record:
  assumes "built F U H w" and "n \<in> U" and "n \<in> dom (lookup (adj' H))"
  shows "\<exists>x. node H n = Inr (Some (JRef x)) \<and> node_addr H x"
proof -
  from assms(1) have gw: "graph_within U H" by (rule built_within)
  then have "dom (lookup (nodes' H)) = dom (lookup (adj' H))" by (simp add: graph_within_def graph_ok_def)
  with assms(3) obtain t where t: "lookup (nodes' H) n = Some t" by auto
  with assms(1) obtain x where "t = JRef x" unfolding built_def by blast
  with t node_lookup [OF gw assms(2)] show ?thesis by (auto simp: node_addr_def)
qed

lemma Graph_add_node_impl_built:
  assumes "built F U H w" and "n \<in> U" and "F \<le> c" and "c < fresh w" and "\<not> edge_addr H c"
  shows "\<exists>H' w'. Graph_add_node_impl H w n (JRef c) = (Inr (), H', w') \<and> built F U H' w'
     \<and> nbr H' = nbr H \<and> graph_hash H' = graph_hash H
     \<and> dom (lookup (adj' H')) = insert n (dom (lookup (adj' H)))
     \<and> fresh w' = fresh w \<and> (\<forall>y. \<not> node_addr H y \<longrightarrow> dicts w' y = dicts w y)
     \<and> keymaps w' = keymaps w \<and> (\<forall>y. node_addr H' y \<longrightarrow> node_addr H y \<or> y = c)"
proof (cases "n \<in> dom (lookup (adj' H))")
  case True
  from assms(1) have gw: "graph_within U H" by (rule built_within)
  from True have hn: "has_node H n" using has_node_lookup [OF gw assms(2)] by simp
  from node_record [OF assms(1,2) True] obtain x where x: "node H n = Inr (Some (JRef x))" "node_addr H x"
    by blast
  from object_extend_JRef [of w x "JRef c"] obtain w' where
    w': "object_extend w (JRef x) (JRef c) = (Inr (), w')" "fresh w' = fresh w"
      "\<forall>y. y \<noteq> x \<longrightarrow> dicts w' y = dicts w y" "dom (dicts w') = dom (dicts w)"
      "keymaps w' = keymaps w"
    by blast
  have "Graph_add_node_impl H w n (JRef c) = (Inr (), H, w')"
    by (simp add: Graph_add_node_impl_def hn truthy_def x w')
  moreover have "built F U H w'"
    using assms(1) by (rule built_mono) (use assms(1) w' in \<open>simp_all add: store_ok_def built_def\<close>)
  moreover have "\<forall>y. \<not> node_addr H y \<longrightarrow> dicts w' y = dicts w y" using w'(3) x(2) by auto
  ultimately show ?thesis using True w'(2,5) by auto
next
  case False
  from assms(1) have gw: "graph_within U H" by (rule built_within)
  from False have hn: "\<not> has_node H n" using has_node_lookup [OF gw assms(2)] by simp
  note f = with_node_facts [OF gw assms(2) False, of "JRef c"]
  have "Graph_add_node_impl H w n (JRef c) = (Inr (), with_node H n (JRef c), w)"
    by (simp add: Graph_add_node_impl_def hn truthy_def with_node_def newNodeMap_def)
  moreover have "built F U (with_node H n (JRef c)) w"
    using assms(1,2) False assms(3,4,5) by (rule built_with_node)
  moreover have "\<forall>y. node_addr (with_node H n (JRef c)) y \<longrightarrow> node_addr H y \<or> y = c"
    by (auto simp: node_addr_def f split: if_splits)
  ultimately show ?thesis by (simp add: f)
qed

lemma Graph_add_node_JUndefined:
  assumes "built F U H w" and "n \<in> U"
  shows "\<exists>H'. Graph_add_node H w n JUndefined = (Inr (), H', snd (new_object w []))
     \<and> built F U H' (snd (new_object w [])) \<and> nbr H' = nbr H \<and> graph_hash H' = graph_hash H
     \<and> dom (lookup (adj' H')) = insert n (dom (lookup (adj' H)))
     \<and> (\<forall>y. node_addr H' y \<longrightarrow> node_addr H y \<or> y = fresh w)"
proof -
  let ?w = "snd (new_object w [])"
  from assms(1) have gw: "graph_within U H" by (rule built_within)
  from assms(1) have sw: "store_ok w" and Fw: "F \<le> fresh w" by (simp_all add: built_def)
  have b1: "built F U H ?w" using assms(1) by (rule built_mono) (simp_all add: sw)
  have eq: "Graph_add_node H w n JUndefined = Graph_add_node_impl H ?w n (JRef (fresh w))"
    by (simp add: Graph_add_node_def add_node_def is_object_def new_object_def)
  have pe: "props ?w (JRef (fresh w)) = []" by (simp add: props_def)
  show ?thesis
  proof (cases "n \<in> dom (lookup (adj' H))")
    case True
    then have hn: "has_node H n" using has_node_lookup [OF gw assms(2)] by simp
    from node_record [OF assms(1,2) True] obtain x where x: "node H n = Inr (Some (JRef x))" by blast
    have "Graph_add_node_impl H ?w n (JRef (fresh w)) = (Inr (), H, ?w)"
      by (simp add: Graph_add_node_impl_def hn truthy_def x object_extend_empty [OF pe])
    with eq b1 True show ?thesis by auto
  next
    case False
    then have hn: "\<not> has_node H n" using has_node_lookup [OF gw assms(2)] by simp
    note f = with_node_facts [OF gw assms(2) False, of "JRef (fresh w)"]
    have "\<not> edge_addr H (fresh w)" using assms(1) unfolding built_def edge_addr_def by fastforce
    with b1 assms(2) False Fw have "built F U (with_node H n (JRef (fresh w))) ?w"
      by (intro built_with_node) simp_all
    moreover have "Graph_add_node_impl H ?w n (JRef (fresh w)) = (Inr (), with_node H n (JRef (fresh w)), ?w)"
      by (simp add: Graph_add_node_impl_def hn truthy_def with_node_def newNodeMap_def)
    moreover have "\<forall>y. node_addr (with_node H n (JRef (fresh w))) y \<longrightarrow> node_addr H y \<or> y = fresh w"
      by (auto simp: node_addr_def f split: if_splits)
    ultimately show ?thesis using eq by (simp add: f)
  qed
qed

subsection \<open>add_edge on a built graph\<close>

text \<open>
  \<^verbatim>\<open>add_edge(u, v, attr)\<close> with an attribute record returns; the graph stays built, the two
  nodes are linked by one record \<open>x\<close>, every other pair keeps its record. Nothing below
  the old free address changes but \<open>x\<close>; if the edge is new, \<open>x\<close> is a new record holding
  the properties of \<open>attr\<close>.
\<close>

lemma built_link:
  assumes "built F U g w" and "graph_within U g4" and "nodes' g4 = nodes' g"
    and "nbr g4 = (\<lambda>a b. if (a = u \<and> b = v) \<or> (a = v \<and> b = u) then Some (JRef x) else nbr g a b)"
    and "F \<le> x" and "x < fresh w" and "\<not> node_addr g x"
  shows "built F U g4 w"
proof -
  have n: "node_addr g4 = node_addr g" by (rule ext) (simp add: node_addr_def assms(3))
  have e: "edge_addr g4 y \<Longrightarrow> edge_addr g y \<or> y = x" for y
    by (auto simp: edge_addr_def assms(4) split: if_splits)
  from assms(1,2,5,6,7) show ?thesis
    unfolding built_def n
    by (auto simp: assms(3,4) dest!: e)
qed

lemma built_bounds:
  assumes "built F U H w"
  shows "node_addr H y \<Longrightarrow> F \<le> y \<and> y < fresh w \<and> \<not> edge_addr H y"
    and "edge_addr H y \<Longrightarrow> F \<le> y \<and> y < fresh w"
    and "nbr H a b = Some r \<Longrightarrow> \<exists>x. r = JRef x \<and> edge_addr H x"
  using assms unfolding built_def node_addr_def edge_addr_def by blast+

lemma case_new_object: "(case new_object w d of (a, w') \<Rightarrow> f a w') = f (fresh w) (snd (new_object w d))"
  by (simp add: new_object_def)

lemma Graph_add_edge_built:
  assumes "built F U H w" and "u \<in> U" and "v \<in> U" and "c < fresh w"
  shows "\<exists>H' w' x. Graph_add_edge H w u v (JRef c) = (Inr (), H', w') \<and> built F U H' w'
    \<and> graph_hash H' = graph_hash H
    \<and> nbr H' = (\<lambda>a b. if (a = u \<and> b = v) \<or> (a = v \<and> b = u) then Some (JRef x) else nbr H a b)
    \<and> fresh w \<le> fresh w' \<and> F \<le> x
    \<and> (\<forall>y. y < fresh w \<and> y \<noteq> x \<longrightarrow> dicts w' y = dicts w y)
    \<and> (nbr H u v = None \<longrightarrow> fresh w \<le> x
          \<and> props w' (JRef x) = fold (\<lambda>q. dict_put (fst q) (snd q)) (props w (JRef c)) [])
    \<and> dom (lookup (adj' H')) = insert u (insert v (dom (lookup (adj' H))))"
proof -
  let ?w1 = "snd (new_object w [])"
  let ?w2 = "snd (new_object ?w1 [])"
  let ?w3 = "snd (new_object ?w2 [])"
  let ?d = "fresh ?w2"
  from Graph_add_node_JUndefined [OF assms(1,2)] obtain g1 where
    n1: "Graph_add_node H w u JUndefined = (Inr (), g1, ?w1)" and b1: "built F U g1 ?w1"
    and nb1: "nbr g1 = nbr H" and gh1: "graph_hash g1 = graph_hash H"
    and d1: "dom (lookup (adj' g1)) = insert u (dom (lookup (adj' H)))"
    by blast
  from Graph_add_node_JUndefined [OF b1 assms(3)] obtain g2 where
    n2: "Graph_add_node g1 ?w1 v JUndefined = (Inr (), g2, ?w2)" and b2: "built F U g2 ?w2"
    and nb2: "nbr g2 = nbr g1" and gh2: "graph_hash g2 = graph_hash g1"
    and d2: "dom (lookup (adj' g2)) = insert v (dom (lookup (adj' g1)))"
    by blast
  from b2 have gw2: "graph_within U g2" by (rule built_within)
  then have ok2: "graph_ok g2" by (simp add: graph_within_def)
  then have ha: "hm_ok (adj' g2)" by (simp add: graph_ok_def)
  from d1 d2 obtain es mv where lu: "lookup (adj' g2) u = Some es" and lv: "lookup (adj' g2) v = Some mv"
    by (metis domD insertI1 insertI2)
  note au = adj_lookup [OF ha lu]
  have hes: "hm_ok es" using ok2 lu by (rule graph_ok_inner)
  have nuv: "nbr g2 u v = lookup es v" by (simp add: nbr_def lu)
  have b3: "built F U g2 ?w3" using b2 by (rule built_mono) (use b2 in \<open>simp_all add: built_def\<close>)
  have pc: "props ?w3 (JRef c) = props w (JRef c)" using assms(4) by (simp add: props_def)
  have eqn: "Graph_add_edge H w u v (JRef c) = Graph_add_edge_impl H w u v (JRef c)"
    by (simp add: Graph_add_edge_def add_edge_def truthy_def is_object_def)
  have dd: "dom (lookup (adj' g2)) = insert u (insert v (dom (lookup (adj' H))))"
    using d1 d2 by auto
  show ?thesis
  proof (cases "lookup es v")
    case (Some r0)
    then have ck: "containsKey es v" using containsKey_lookup [OF hes, of v] by simp
    from Some have g: "HashMap_get es v None = Inr (Some r0)"
      using HashMap_get_lookup [OF lookup_fits [OF Some hes], of None] by simp
    from Some nuv built_bounds(3) [OF b2, of u v r0] obtain x0 where x0: "r0 = JRef x0" "edge_addr g2 x0" by auto
    from built_bounds(2) [OF b2 x0(2)] have x0b: "F \<le> x0" "x0 < fresh ?w2" by simp_all
    from object_extend_JRef [of ?w3 x0 "JRef c"] obtain w4 where
      w4: "object_extend ?w3 (JRef x0) (JRef c) = (Inr (), w4)" "fresh w4 = fresh ?w3"
        "\<forall>y. y \<noteq> x0 \<longrightarrow> dicts w4 y = dicts ?w3 y" "dom (dicts w4) = dom (dicts ?w3)"
      by blast
    have res: "Graph_add_edge_impl H w u v (JRef c) = (Inr (), g2, w4)"
      by (simp add: Graph_add_edge_impl_def n1 n2 au ck g x0 w4 case_new_object del: fresh_new_object)
    have b4: "built F U g2 w4"
      using b3 by (rule built_mono) (use b3 w4 in \<open>simp_all add: store_ok_def built_def\<close>)
    have sym: "nbr g2 v u = Some (JRef x0)" using nbr_sym [OF ok2, of u v r0] nuv Some x0 by simp
    have nb: "nbr g2 = (\<lambda>a b. if (a = u \<and> b = v) \<or> (a = v \<and> b = u) then Some (JRef x0) else nbr H a b)"
      using nuv Some x0 sym by (intro ext) (auto simp: nb1 nb2)
    have fr: "\<forall>y. y < fresh w \<and> y \<noteq> x0 \<longrightarrow> dicts w4 y = dicts w y" using w4(3) by simp
    have "nbr H u v \<noteq> None" using nuv Some by (simp add: nb1 [symmetric] nb2 [symmetric])
    with eqn res b4 nb fr x0b gh1 gh2 w4(2) dd show ?thesis
      by (intro exI [of _ g2] exI [of _ w4] exI [of _ x0]) auto
  next
    case None
    then have ck: "\<not> containsKey es v" using containsKey_lookup [OF hes, of v] by simp
    from object_extend_JRef [of ?w3 ?d "JRef c"] obtain w4 where
      w4: "object_extend ?w3 (JRef ?d) (JRef c) = (Inr (), w4)" "fresh w4 = fresh ?w3"
        "\<forall>y. y \<noteq> ?d \<longrightarrow> dicts w4 y = dicts ?w3 y" "dom (dicts w4) = dom (dicts ?w3)"
        "\<forall>d. dicts ?w3 ?d = Some d \<longrightarrow> dicts w4 ?d = Some (fold (\<lambda>q. dict_put (fst q) (snd q)) (props ?w3 (JRef c)) d)"
      by blast
    from graph_within_link [OF gw2 lu lv, of "JRef ?d"] obtain g3 g4 where
      c1: "adj_call g2 u (\<lambda>m. ((), HashMap_set m v (JRef ?d))) = (Inr (), g3)"
      and c2: "adj_call g3 v (\<lambda>m. ((), HashMap_set m u (JRef ?d))) = (Inr (), g4)"
      and gw4: "graph_within U g4" and gh4: "graph_hash g4 = graph_hash g2" and nn4: "nodes' g4 = nodes' g2"
      and nb4: "nbr g4 = (\<lambda>a b. if (a = u \<and> b = v) \<or> (a = v \<and> b = u) then Some (JRef ?d) else nbr g2 a b)"
      by blast
    have res: "Graph_add_edge_impl H w u v (JRef c) = (Inr (), g4, w4)"
      by (simp add: Graph_add_edge_impl_def n1 n2 au ck w4 c1 c2 case_new_object del: fresh_new_object)
    have b4: "built F U g2 w4"
      using b3 by (rule built_mono) (use b3 w4 in \<open>simp_all add: store_ok_def built_def\<close>)
    have nd: "\<not> node_addr g2 ?d" using built_bounds(1) [OF b2, of ?d] by auto
    have Fd: "F \<le> ?d" using b2 by (simp add: built_def)
    have b5: "built F U g4 w4"
      using b4 gw4 nn4 nb4 Fd _ nd by (rule built_link) (simp add: w4(2))
    have "dicts ?w3 ?d = Some []" by simp
    with w4(5) have "dicts w4 ?d = Some (fold (\<lambda>q. dict_put (fst q) (snd q)) (props ?w3 (JRef c)) [])"
      by blast
    then have pr: "props w4 (JRef ?d) = fold (\<lambda>q. dict_put (fst q) (snd q)) (props w (JRef c)) []"
      unfolding pc by (simp add: props_def)
    have fr: "\<forall>y. y < fresh w \<and> y \<noteq> ?d \<longrightarrow> dicts w4 y = dicts w y" using w4(3) by simp
    have dom4: "dom (lookup (adj' g4)) = dom (lookup (adj' g2))"
      using gw4 gw2 nn4 by (simp add: graph_within_def graph_ok_def)
    have nb: "nbr g4 = (\<lambda>a b. if (a = u \<and> b = v) \<or> (a = v \<and> b = u) then Some (JRef ?d) else nbr H a b)"
      unfolding nb4 nb2 nb1 ..
    from eqn res b5 nb fr Fd gh1 gh2 gh4 w4(2) pr dd dom4 show ?thesis
      by (intro exI [of _ g4] exI [of _ w4] exI [of _ ?d]) simp
  qed
qed

subsection \<open>The edge loop of copy-mode relabel\<close>

text \<open>
  \<open>assigned ps d\<close>: the properties of a record that held \<open>d\<close> after
  \<^verbatim>\<open>goog.object.extend\<close> has assigned the properties \<open>ps\<close> to it.
\<close>

definition assigned :: "dict \<Rightarrow> dict \<Rightarrow> dict" where
  "assigned ps d = fold (\<lambda>q. dict_put (fst q) (snd q)) ps d"

lemma object_clone_eq: "object_clone w x = (JRef (fresh w), snd (new_object w (props w x)))"
  by (simp add: object_clone_def case_new_object)

lemma relabel_edge_built:
  assumes "built F U H w" and "u \<in> U" and "v \<in> U" and "a0 < F" and "dicts w a0 = Some []"
  shows "\<exists>H' w' x.
      (case object_clone w dd of (c, w2) \<Rightarrow> add_edges_from_step Graph_add_edge (JRef a0) (E3 u v c) (H, w2))
        = (Inr (), H', w')
    \<and> built F U H' w' \<and> graph_hash H' = graph_hash H
    \<and> nbr H' = (\<lambda>a b. if (a = u \<and> b = v) \<or> (a = v \<and> b = u) then Some (JRef x) else nbr H a b)
    \<and> fresh w \<le> fresh w' \<and> F \<le> x
    \<and> (\<forall>y. y < fresh w \<and> y \<noteq> x \<longrightarrow> dicts w' y = dicts w y)
    \<and> (nbr H u v = None \<longrightarrow> fresh w \<le> x
          \<and> props w' (JRef x) = assigned (assigned (props w dd) []) [])
    \<and> dom (lookup (adj' H')) = insert u (insert v (dom (lookup (adj' H))))"
proof -
  let ?w2 = "snd (new_object w (props w dd))"
  let ?w3 = "snd (new_object ?w2 (props ?w2 (JRef a0)))"
  from assms(1) have Fw: "F \<le> fresh w" and sw: "store_ok w" by (simp_all add: built_def)
  have pa: "props ?w2 (JRef a0) = []" using assms(4,5) Fw by (simp add: props_def)
  from object_extend_JRef [of ?w3 "fresh ?w2" "JRef (fresh w)"] obtain w4 where
    w4: "object_extend ?w3 (JRef (fresh ?w2)) (JRef (fresh w)) = (Inr (), w4)" "fresh w4 = fresh ?w3"
      "\<forall>y. y \<noteq> fresh ?w2 \<longrightarrow> dicts w4 y = dicts ?w3 y" "dom (dicts w4) = dom (dicts ?w3)"
      "\<forall>d. dicts ?w3 (fresh ?w2) = Some d \<longrightarrow> dicts w4 (fresh ?w2)
          = Some (fold (\<lambda>q. dict_put (fst q) (snd q)) (props ?w3 (JRef (fresh w))) d)"
    by blast
  have p3: "props ?w3 (JRef (fresh w)) = props w dd" by (simp add: props_def)
  have "dicts ?w3 (fresh ?w2) = Some []" by (simp add: pa)
  with w4(5) have "dicts w4 (fresh ?w2) = Some (assigned (props w dd) [])"
    unfolding p3 assigned_def by blast
  then have pd: "props w4 (JRef (fresh ?w2)) = assigned (props w dd) []" by (simp add: props_def)
  have s4: "store_ok w4" using sw w4(2,4) by (auto simp: store_ok_def)
  have b4: "built F U H w4" using assms(1) s4 by (rule built_mono) (simp add: w4(2))
  have c4: "fresh ?w2 < fresh w4" by (simp add: w4(2))
  from Graph_add_edge_built [OF b4 assms(2,3) c4] obtain H' w' x where
    r: "Graph_add_edge H w4 u v (JRef (fresh ?w2)) = (Inr (), H', w')" and b': "built F U H' w'"
    and gh: "graph_hash H' = graph_hash H"
    and nb: "nbr H' = (\<lambda>a b. if (a = u \<and> b = v) \<or> (a = v \<and> b = u) then Some (JRef x) else nbr H a b)"
    and fw: "fresh w4 \<le> fresh w'" and Fx: "F \<le> x"
    and fr: "\<forall>y. y < fresh w4 \<and> y \<noteq> x \<longrightarrow> dicts w' y = dicts w4 y"
    and new: "nbr H u v = None \<longrightarrow> fresh w4 \<le> x
          \<and> props w' (JRef x) = fold (\<lambda>q. dict_put (fst q) (snd q)) (props w4 (JRef (fresh ?w2))) []"
    and dm: "dom (lookup (adj' H')) = insert u (insert v (dom (lookup (adj' H))))"
    by (elim exE conjE) (rule that, assumption+)
  have run: "(case object_clone w dd of (c, w2) \<Rightarrow> add_edges_from_step Graph_add_edge (JRef a0) (E3 u v c) (H, w2))
        = (Inr (), H', w')"
    by (simp add: object_clone_eq add_edges_from_step_def Let_def w4(1) r del: fresh_new_object)
  have fr': "\<forall>y. y < fresh w \<and> y \<noteq> x \<longrightarrow> dicts w' y = dicts w y"
  proof (intro allI impI)
    fix y assume y: "y < fresh w \<and> y \<noteq> x"
    then have "dicts w' y = dicts w4 y" using fr w4(2) by simp
    also have "\<dots> = dicts ?w3 y" using w4(3) y by simp
    also have "\<dots> = dicts w y" using y by simp
    finally show "dicts w' y = dicts w y" .
  qed
  have new': "nbr H u v = None \<longrightarrow> fresh w \<le> x
          \<and> props w' (JRef x) = assigned (assigned (props w dd) []) []"
    using new w4(2) unfolding pd assigned_def by auto
  have "fresh w \<le> fresh w'" using fw w4(2) by simp
  with run b' gh nb Fx fr' new' dm show ?thesis
    by (intro exI [of _ H'] exI [of _ w'] exI [of _ x] conjI) assumption+
qed

text \<open>The two new labels of an edge of \<open>G\<close>, as an unordered pair.\<close>

definition pair_of :: "(key \<Rightarrow> key) \<Rightarrow> key \<times> key \<times> jsval \<Rightarrow> key set" where
  "pair_of f t = {f (fst t), f (fst (snd t))}"

lemma props_frame: "(\<And>y. r = JRef y \<Longrightarrow> dicts w1 y = dicts w y) \<Longrightarrow> props w1 r = props w r"
  by (cases r) (simp_all add: props_def)

lemma pair_eq: "(if (a = u \<and> b = v) \<or> (a = v \<and> b = u) then X else Y) = (if {u, v} = {a, b} then X else Y)"
  by (auto simp: doubleton_eq_iff)

lemma relabel_edges_built:
  fixes f :: "key \<Rightarrow> key"
  defines "P \<equiv> pair_of f"
  assumes "built F U H w" and "a0 < F" and "dicts w a0 = Some []"
    and "\<forall>t\<in>set ts. P t \<subseteq> U"
    and "\<forall>t\<in>set ts. \<forall>y. snd (snd t) = JRef y \<longrightarrow> y < F"
    and "f = mapping_get m"
  shows "\<exists>H' w'. forEach (relabel_edge Graph_add_edge (JRef a0) m)
                    (map (\<lambda>t. E3 (fst t) (fst (snd t)) (snd (snd t))) ts) (H, w) = (Inr (), H', w')
    \<and> built F U H' w' \<and> graph_hash H' = graph_hash H \<and> fresh w \<le> fresh w'
    \<and> (\<forall>y<F. dicts w' y = dicts w y)
    \<and> (\<forall>a b. nbr H' a b \<noteq> None \<longleftrightarrow> nbr H a b \<noteq> None \<or> (\<exists>t\<in>set ts. P t = {a, b}))
    \<and> (\<forall>a b. (\<forall>t\<in>set ts. P t \<noteq> {a, b}) \<longrightarrow> nbr H' a b = nbr H a b)
    \<and> dom (lookup (adj' H')) = dom (lookup (adj' H)) \<union> \<Union> (P ` set ts)
    \<and> (distinct (map P ts) \<and> (\<forall>t\<in>set ts. nbr H (f (fst t)) (f (fst (snd t))) = None) \<longrightarrow>
          (\<forall>y<fresh w. dicts w' y = dicts w y)
        \<and> (\<forall>t\<in>set ts. \<exists>x. nbr H' (f (fst t)) (f (fst (snd t))) = Some (JRef x) \<and> fresh w \<le> x
               \<and> props w' (JRef x) = assigned (assigned (props w (snd (snd t))) []) []))"
  using assms(2,4,5,6)
proof (induction ts arbitrary: H w)
  case Nil
  then show ?case by simp
next
  case (Cons t ts)
  let ?u = "f (fst t)" and ?v = "f (fst (snd t))" and ?r = "snd (snd t)"
  have Pt: "P t = {?u, ?v}" by (simp add: P_def pair_of_def)
  from Cons.prems(3) have uU: "?u \<in> U" and vU: "?v \<in> U" by (simp_all add: Pt)
  from Cons.prems(1) have Fw: "F \<le> fresh w" by (simp add: built_def)
  from relabel_edge_built [OF Cons.prems(1) uU vU assms(3) Cons.prems(2), of ?r]
  obtain H1 w1 x where
    run1: "(case object_clone w ?r of (c, w2) \<Rightarrow> add_edges_from_step Graph_add_edge (JRef a0) (E3 ?u ?v c) (H, w2))
        = (Inr (), H1, w1)"
    and b1: "built F U H1 w1" and gh1: "graph_hash H1 = graph_hash H"
    and nb1: "nbr H1 = (\<lambda>a b. if (a = ?u \<and> b = ?v) \<or> (a = ?v \<and> b = ?u) then Some (JRef x) else nbr H a b)"
    and fw1: "fresh w \<le> fresh w1" and Fx: "F \<le> x"
    and fr1: "\<forall>y. y < fresh w \<and> y \<noteq> x \<longrightarrow> dicts w1 y = dicts w y"
    and new1: "nbr H ?u ?v = None \<longrightarrow> fresh w \<le> x
          \<and> props w1 (JRef x) = assigned (assigned (props w ?r) []) []"
    and dm1: "dom (lookup (adj' H1)) = insert ?u (insert ?v (dom (lookup (adj' H))))"
    by (elim exE conjE) (rule that, assumption+)
  have nb1': "nbr H1 a b = (if P t = {a, b} then Some (JRef x) else nbr H a b)" for a b
    unfolding nb1 Pt by (rule pair_eq)
  have step: "relabel_edge Graph_add_edge (JRef a0) m (E3 (fst t) (fst (snd t)) ?r) (H, w) = (Inr (), H1, w1)"
    using run1 [unfolded assms(7)] by (simp add: relabel_edge_def Let_def)
  have frF: "\<forall>y<F. dicts w1 y = dicts w y" using fr1 Fx Fw by auto
  then have a1: "dicts w1 a0 = Some []" using assms(3) Cons.prems(2) by simp
  from Cons.prems(3,4) have p3: "\<forall>t\<in>set ts. P t \<subseteq> U" and p4: "\<forall>t\<in>set ts. \<forall>y. snd (snd t) = JRef y \<longrightarrow> y < F"
    by simp_all
  from Cons.IH [OF b1 a1 p3 p4] obtain H' w' where
    run: "forEach (relabel_edge Graph_add_edge (JRef a0) m)
                    (map (\<lambda>t. E3 (fst t) (fst (snd t)) (snd (snd t))) ts) (H1, w1) = (Inr (), H', w')"
    and b': "built F U H' w'" and gh: "graph_hash H' = graph_hash H1" and fw: "fresh w1 \<le> fresh w'"
    and frF': "\<forall>y<F. dicts w' y = dicts w1 y"
    and ne: "\<forall>a b. nbr H' a b \<noteq> None \<longleftrightarrow> nbr H1 a b \<noteq> None \<or> (\<exists>t\<in>set ts. P t = {a, b})"
    and same: "\<forall>a b. (\<forall>t\<in>set ts. P t \<noteq> {a, b}) \<longrightarrow> nbr H' a b = nbr H1 a b"
    and dm: "dom (lookup (adj' H')) = dom (lookup (adj' H1)) \<union> \<Union> (P ` set ts)"
    and inj: "distinct (map P ts) \<and> (\<forall>t\<in>set ts. nbr H1 (f (fst t)) (f (fst (snd t))) = None) \<longrightarrow>
          (\<forall>y<fresh w1. dicts w' y = dicts w1 y)
        \<and> (\<forall>t\<in>set ts. \<exists>x. nbr H' (f (fst t)) (f (fst (snd t))) = Some (JRef x) \<and> fresh w1 \<le> x
               \<and> props w' (JRef x) = assigned (assigned (props w1 (snd (snd t))) []) [])"
    by (elim exE conjE) (rule that, assumption+)
  have c1: "forEach (relabel_edge Graph_add_edge (JRef a0) m)
                    (map (\<lambda>t. E3 (fst t) (fst (snd t)) (snd (snd t))) (t # ts)) (H, w) = (Inr (), H', w')"
    by (simp add: step run)
  have c2: "graph_hash H' = graph_hash H" by (simp add: gh gh1)
  have c3: "fresh w \<le> fresh w'" using fw fw1 by simp
  have c4: "\<forall>y<F. dicts w' y = dicts w y" using frF frF' by simp
  have c5: "\<forall>a b. nbr H' a b \<noteq> None \<longleftrightarrow> nbr H a b \<noteq> None \<or> (\<exists>t\<in>set (t # ts). P t = {a, b})"
    unfolding ne [rule_format] nb1' by auto
  have c6: "\<forall>a b. (\<forall>t\<in>set (t # ts). P t \<noteq> {a, b}) \<longrightarrow> nbr H' a b = nbr H a b"
    using same by (simp add: nb1')
  have c7: "dom (lookup (adj' H')) = dom (lookup (adj' H)) \<union> \<Union> (P ` set (t # ts))"
    unfolding dm dm1 by (auto simp: Pt)
  have c8: "(\<forall>y<fresh w. dicts w' y = dicts w y)
        \<and> (\<forall>t\<in>set (t # ts). \<exists>x. nbr H' (f (fst t)) (f (fst (snd t))) = Some (JRef x) \<and> fresh w \<le> x
               \<and> props w' (JRef x) = assigned (assigned (props w (snd (snd t))) []) [])"
    if q: "distinct (map P (t # ts)) \<and> (\<forall>t\<in>set (t # ts). nbr H (f (fst t)) (f (fst (snd t))) = None)"
  proof -
    from q have d: "distinct (map P ts)" and nt: "\<forall>t'\<in>set ts. P t' \<noteq> P t"
      and n0: "nbr H ?u ?v = None" and nr: "\<forall>t\<in>set ts. nbr H (f (fst t)) (f (fst (snd t))) = None"
      by auto
    from new1 n0 have xw: "fresh w \<le> x" and px: "props w1 (JRef x) = assigned (assigned (props w ?r) []) []"
      by simp_all
    have "\<forall>t'\<in>set ts. nbr H1 (f (fst t')) (f (fst (snd t'))) = None"
    proof
      fix t' assume t': "t' \<in> set ts"
      with nt have "P t \<noteq> {f (fst t'), f (fst (snd t'))}" by (auto simp: P_def pair_of_def)
      with nr t' show "nbr H1 (f (fst t')) (f (fst (snd t'))) = None" by (simp add: nb1')
    qed
    with inj d have i1: "\<forall>y<fresh w1. dicts w' y = dicts w1 y"
      and i2: "\<forall>t\<in>set ts. \<exists>x. nbr H' (f (fst t)) (f (fst (snd t))) = Some (JRef x) \<and> fresh w1 \<le> x
               \<and> props w' (JRef x) = assigned (assigned (props w1 (snd (snd t))) []) []"
      by simp_all
    have f1: "\<forall>y<fresh w. dicts w' y = dicts w y"
    proof (intro allI impI)
      fix y assume y: "y < fresh w"
      with fw1 i1 have "dicts w' y = dicts w1 y" by simp
      also from y xw fr1 have "\<dots> = dicts w y" by simp
      finally show "dicts w' y = dicts w y" .
    qed
    have hd: "\<exists>x. nbr H' ?u ?v = Some (JRef x) \<and> fresh w \<le> x
               \<and> props w' (JRef x) = assigned (assigned (props w ?r) []) []"
    proof -
      from nt have "\<forall>t'\<in>set ts. P t' \<noteq> {?u, ?v}" by (simp add: Pt)
      with same have "nbr H' ?u ?v = nbr H1 ?u ?v" by blast
      also have "\<dots> = Some (JRef x)" by (simp add: nb1' Pt)
      finally have e: "nbr H' ?u ?v = Some (JRef x)" .
      have "edge_addr H1 x" unfolding edge_addr_def using nb1' [of ?u ?v] Pt by auto
      from built_bounds(2) [OF b1 this] have "x < fresh w1" by simp
      with i1 have "dicts w' x = dicts w1 x" by simp
      then have "props w' (JRef x) = props w1 (JRef x)" by (simp add: props_def)
      with e xw px show ?thesis by simp
    qed
    have tl: "\<exists>x. nbr H' (f (fst t')) (f (fst (snd t'))) = Some (JRef x) \<and> fresh w \<le> x
               \<and> props w' (JRef x) = assigned (assigned (props w (snd (snd t'))) []) []"
      if t': "t' \<in> set ts" for t'
    proof -
      from i2 t' obtain x' where x': "nbr H' (f (fst t')) (f (fst (snd t'))) = Some (JRef x')"
        "fresh w1 \<le> x'" "props w' (JRef x') = assigned (assigned (props w1 (snd (snd t'))) []) []"
        by blast
      have "props w1 (snd (snd t')) = props w (snd (snd t'))"
      proof (rule props_frame)
        fix y assume "snd (snd t') = JRef y"
        with p4 t' have "y < F" by blast
        with frF show "dicts w1 y = dicts w y" by simp
      qed
      with x' fw1 show ?thesis by auto
    qed
    from f1 hd tl show ?thesis by simp
  qed
  from c1 b' c2 c3 c4 c5 c6 c7 c8 show ?case
    by (intro exI [of _ H'] exI [of _ w'] conjI impI) (assumption | (rule c8 [THEN conjunct1], assumption) | (rule c8 [THEN conjunct2], assumption))+
qed

subsection \<open>add_nodes_from on a built graph\<close>

text \<open>
  \<^verbatim>\<open>add_nodes_from\<close> keeps the graph built and its edges as they are, and changes neither
  an edge record nor a record below \<open>F\<close>.
\<close>

fun node_key :: "nodearg \<Rightarrow> key" where
  "node_key (Node k) = k"
| "node_key (NodeAttr k a) = k"

lemma edge_addr_cong: "nbr H' = nbr H \<Longrightarrow> edge_addr H' = edge_addr H"
  by (rule ext) (simp add: edge_addr_def)

text \<open>
  \<open>node_frame H w H' w'\<close>: what a call that only adds nodes to \<open>H\<close> leaves alone. No
  key-map changes, no record that existed and was not a node record of \<open>H\<close> changes, and
  the node records of \<open>H'\<close> are those of \<open>H\<close> and new ones.
\<close>

definition node_frame :: "'z graph_scheme \<Rightarrow> world \<Rightarrow> 'z graph_scheme \<Rightarrow> world \<Rightarrow> bool" where
  "node_frame H w H' w' \<longleftrightarrow>
     keymaps w' = keymaps w
     \<and> (\<forall>y. y < fresh w \<and> \<not> node_addr H y \<longrightarrow> dicts w' y = dicts w y)
     \<and> (\<forall>y. node_addr H' y \<longrightarrow> node_addr H y \<or> fresh w \<le> y)"

lemma node_frame_refl: "node_frame H w H w"
  by (simp add: node_frame_def)

lemma node_frame_trans:
  assumes "node_frame H w H1 w1" and "fresh w \<le> fresh w1" and "node_frame H1 w1 H' w'"
  shows "node_frame H w H' w'"
  unfolding node_frame_def
proof (intro conjI allI impI)
  show "keymaps w' = keymaps w" using assms(1,3) by (simp add: node_frame_def)
next
  fix y assume y: "y < fresh w \<and> \<not> node_addr H y"
  with assms(1) have n1: "\<not> node_addr H1 y" unfolding node_frame_def by (meson not_le)
  from y assms(2) have "y < fresh w1" by simp
  with n1 assms(3) have "dicts w' y = dicts w1 y" by (simp add: node_frame_def)
  also from y assms(1) have "\<dots> = dicts w y" by (simp add: node_frame_def)
  finally show "dicts w' y = dicts w y" .
next
  fix y assume "node_addr H' y"
  with assms(3) have "node_addr H1 y \<or> fresh w1 \<le> y" by (simp add: node_frame_def)
  with assms(1,2) show "node_addr H y \<or> fresh w \<le> y" unfolding node_frame_def by (meson le_trans)
qed

lemma add_nodes_from_step_built:
  assumes "built F U H w" and "node_key n \<in> U"
  shows "\<exists>H' w'. add_nodes_from_step Graph_add_node_impl (JRef a) n (H, w) = (Inr (), H', w')
     \<and> built F U H' w' \<and> nbr H' = nbr H \<and> graph_hash H' = graph_hash H \<and> fresh w \<le> fresh w'
     \<and> (\<forall>y. y < F \<or> edge_addr H y \<longrightarrow> dicts w' y = dicts w y)
     \<and> dom (lookup (adj' H')) = insert (node_key n) (dom (lookup (adj' H)))
     \<and> node_frame H w H' w'"
proof -
  from assms(1) have gw: "graph_within U H" and sw: "store_ok w" and Fw: "F \<le> fresh w"
    by (simp_all add: built_def)
  have old: "y < fresh w \<and> \<not> node_addr H y" if "y < F \<or> edge_addr H y" for y
    using that built_bounds(1,2) [OF assms(1), of y] Fw by auto
  have ne: "\<not> edge_addr H (fresh w)" using built_bounds(2) [OF assms(1), of "fresh w"] by auto
  show ?thesis
  proof (cases n)
    case (Node k)
    with assms(2) have kU: "k \<in> U" by simp
    show ?thesis
    proof (cases "k \<in> dom (lookup (adj' H))")
      case True
      then have hn: "has_node H k" using has_node_lookup [OF gw kU] by simp
      from node_record [OF assms(1) kU True] obtain x where x: "node H k = Inr (Some (JRef x))" "node_addr H x"
        by blast
      from object_extend_JRef [of w x "JRef a"] obtain w' where
        w': "object_extend w (JRef x) (JRef a) = (Inr (), w')" "fresh w' = fresh w"
          "\<forall>y. y \<noteq> x \<longrightarrow> dicts w' y = dicts w y" "dom (dicts w') = dom (dicts w)"
          "keymaps w' = keymaps w"
        by blast
      have run: "add_nodes_from_step Graph_add_node_impl (JRef a) n (H, w) = (Inr (), H, w')"
        by (simp add: add_nodes_from_step_def Node hn x w')
      have b: "built F U H w'"
        using assms(1) by (rule built_mono) (use sw w' in \<open>simp_all add: store_ok_def\<close>)
      have fr: "\<forall>y. y < F \<or> edge_addr H y \<longrightarrow> dicts w' y = dicts w y"
      proof (intro allI impI)
        fix y assume "y < F \<or> edge_addr H y"
        from old [OF this] x(2) have "y \<noteq> x" by auto
        with w'(3) show "dicts w' y = dicts w y" by simp
      qed
      have nf: "node_frame H w H w'" using w'(3,5) x(2) by (auto simp: node_frame_def)
      from run b fr w'(2) True Node nf show ?thesis by auto
    next
      case False
      then have hn: "\<not> has_node H k" using has_node_lookup [OF gw kU] by simp
      let ?w1 = "snd (new_object w (props w (JRef a)))"
      have b1: "built F U H ?w1" using assms(1) by (rule built_mono) (simp_all add: sw)
      have ne1: "\<not> edge_addr H (fresh w)" by (rule ne)
      have c1: "fresh w < fresh ?w1" by simp
      from Graph_add_node_impl_built [OF b1 kU Fw c1 ne1] obtain H' w' where
        r: "Graph_add_node_impl H ?w1 k (JRef (fresh w)) = (Inr (), H', w')" and b': "built F U H' w'"
        and nb: "nbr H' = nbr H" and gh: "graph_hash H' = graph_hash H"
        and dm: "dom (lookup (adj' H')) = insert k (dom (lookup (adj' H)))"
        and fw: "fresh w' = fresh ?w1" and fr: "\<forall>y. \<not> node_addr H y \<longrightarrow> dicts w' y = dicts ?w1 y"
        and km: "keymaps w' = keymaps ?w1" and na: "\<forall>y. node_addr H' y \<longrightarrow> node_addr H y \<or> y = fresh w"
        by auto
      have nf: "node_frame H w H' w'" using km fr na by (auto simp: node_frame_def)
      have run: "add_nodes_from_step Graph_add_node_impl (JRef a) n (H, w) = (Inr (), H', w')"
        by (simp add: add_nodes_from_step_def Node hn object_clone_eq add_node_def is_object_def r
            del: fresh_new_object)
      have fr': "\<forall>y. y < F \<or> edge_addr H y \<longrightarrow> dicts w' y = dicts w y"
      proof (intro allI impI)
        fix y assume "y < F \<or> edge_addr H y"
        from old [OF this] fr show "dicts w' y = dicts w y" by simp
      qed
      from run b' nb gh dm fw fr' Node nf show ?thesis by auto
    qed
  next
    case (NodeAttr k ndict)
    with assms(2) have kU: "k \<in> U" by simp
    let ?w1 = "snd (new_object w (props w (JRef a)))"
    from object_extend_JRef [of ?w1 "fresh w" ndict] obtain w2 where
      w2: "object_extend ?w1 (JRef (fresh w)) ndict = (Inr (), w2)" "fresh w2 = fresh ?w1"
        "\<forall>y. y \<noteq> fresh w \<longrightarrow> dicts w2 y = dicts ?w1 y" "dom (dicts w2) = dom (dicts ?w1)"
        "keymaps w2 = keymaps ?w1"
      by blast
    have s2: "store_ok w2" using sw w2(2,4) by (auto simp: store_ok_def)
    have b2: "built F U H w2" using assms(1) s2 by (rule built_mono) (simp add: w2(2))
    have c2: "fresh w < fresh w2" by (simp add: w2(2))
    from Graph_add_node_impl_built [OF b2 kU Fw c2 ne] obtain H' w' where
      r: "Graph_add_node_impl H w2 k (JRef (fresh w)) = (Inr (), H', w')" and b': "built F U H' w'"
      and nb: "nbr H' = nbr H" and gh: "graph_hash H' = graph_hash H"
      and dm: "dom (lookup (adj' H')) = insert k (dom (lookup (adj' H)))"
      and fw: "fresh w' = fresh w2" and fr: "\<forall>y. \<not> node_addr H y \<longrightarrow> dicts w' y = dicts w2 y"
      and km: "keymaps w' = keymaps w2" and na: "\<forall>y. node_addr H' y \<longrightarrow> node_addr H y \<or> y = fresh w"
      by auto
    have nf: "node_frame H w H' w'" using km fr na w2(3,5) by (auto simp: node_frame_def)
    have run: "add_nodes_from_step Graph_add_node_impl (JRef a) n (H, w) = (Inr (), H', w')"
      by (simp add: add_nodes_from_step_def NodeAttr object_clone_eq w2 r del: fresh_new_object)
    have fr': "\<forall>y. y < F \<or> edge_addr H y \<longrightarrow> dicts w' y = dicts w y"
    proof (intro allI impI)
      fix y assume "y < F \<or> edge_addr H y"
      from old [OF this] fr w2(3) show "dicts w' y = dicts w y" by simp
    qed
    from run b' nb gh dm fw w2(2) fr' NodeAttr nf show ?thesis by auto
  qed
qed

lemma add_nodes_built:
  assumes "built F U H w" and "\<forall>n\<in>set ns. node_key n \<in> U"
  shows "\<exists>H' w'. forEach (add_nodes_from_step Graph_add_node_impl (JRef a)) ns (H, w) = (Inr (), H', w')
     \<and> built F U H' w' \<and> nbr H' = nbr H \<and> graph_hash H' = graph_hash H \<and> fresh w \<le> fresh w'
     \<and> (\<forall>y. y < F \<or> edge_addr H y \<longrightarrow> dicts w' y = dicts w y)
     \<and> dom (lookup (adj' H')) = dom (lookup (adj' H)) \<union> node_key ` set ns
     \<and> node_frame H w H' w'"
  using assms
proof (induction ns arbitrary: H w)
  case Nil
  then show ?case by (simp add: node_frame_refl)
next
  case (Cons n ns)
  from Cons.prems(2) have nU: "node_key n \<in> U" and rest: "\<forall>n\<in>set ns. node_key n \<in> U" by simp_all
  from add_nodes_from_step_built [OF Cons.prems(1) nU, of a] obtain H1 w1 where
    r1: "add_nodes_from_step Graph_add_node_impl (JRef a) n (H, w) = (Inr (), H1, w1)"
    and b1: "built F U H1 w1" and nb1: "nbr H1 = nbr H" and gh1: "graph_hash H1 = graph_hash H"
    and fw1: "fresh w \<le> fresh w1" and fr1: "\<forall>y. y < F \<or> edge_addr H y \<longrightarrow> dicts w1 y = dicts w y"
    and dm1: "dom (lookup (adj' H1)) = insert (node_key n) (dom (lookup (adj' H)))"
    and nf1: "node_frame H w H1 w1"
    by (elim exE conjE) (rule that, assumption+)
  from Cons.IH [OF b1 rest] obtain H' w' where
    r: "forEach (add_nodes_from_step Graph_add_node_impl (JRef a)) ns (H1, w1) = (Inr (), H', w')"
    and b': "built F U H' w'" and nb: "nbr H' = nbr H1" and gh: "graph_hash H' = graph_hash H1"
    and fw: "fresh w1 \<le> fresh w'" and fr: "\<forall>y. y < F \<or> edge_addr H1 y \<longrightarrow> dicts w' y = dicts w1 y"
    and dm: "dom (lookup (adj' H')) = dom (lookup (adj' H1)) \<union> node_key ` set ns"
    and nf: "node_frame H1 w1 H' w'"
    by (elim exE conjE) (rule that, assumption+)
  have e: "edge_addr H1 = edge_addr H" using nb1 by (rule edge_addr_cong)
  have "forEach (add_nodes_from_step Graph_add_node_impl (JRef a)) (n # ns) (H, w) = (Inr (), H', w')"
    by (simp add: r1 r)
  moreover have "\<forall>y. y < F \<or> edge_addr H y \<longrightarrow> dicts w' y = dicts w y"
    using fr fr1 unfolding e by simp
  moreover have "dom (lookup (adj' H')) = dom (lookup (adj' H)) \<union> node_key ` set (n # ns)"
    unfolding dm dm1 by auto
  moreover have "node_frame H w H' w'" using nf1 fw1 nf by (rule node_frame_trans)
  ultimately show ?case using b' nb nb1 gh gh1 fw fw1 by auto
qed

subsection \<open>Copy-mode relabel of a simple undirected graph\<close>

lemma map_unseen_edges:
  "map g (unseen_edges visit S nds) = unseen_edges (\<lambda>n e. g (visit n e)) S nds"
  by (induction nds arbitrary: S) simp_all

lemma unseen_edges_record:
  "t \<in> set (unseen_edges (\<lambda>n e. (n, fst e, snd e)) S nds)
   \<Longrightarrow> \<exists>nbrs. (fst t, nbrs) \<in> set nds \<and> (fst (snd t), snd (snd t)) \<in> set (entries nbrs)"
  by (induction nds arbitrary: S) auto

lemma assigned_distinct: "distinct (map fst (d @ ps)) \<Longrightarrow> assigned ps d = d @ ps"
proof (induction ps arbitrary: d)
  case Nil
  then show ?case by (simp add: assigned_def)
next
  case (Cons p ps)
  from Cons.prems have "fst p \<notin> fst ` set d" by auto
  then have "dict_put (fst p) (snd p) d = d @ [p]" by (simp add: dict_put_def)
  moreover from Cons.prems have "distinct (map fst ((d @ [p]) @ ps))" by simp
  from Cons.IH [OF this] have "assigned ps (d @ [p]) = (d @ [p]) @ ps" .
  ultimately show ?case by (simp add: assigned_def)
qed

text \<open>The edges of a well-formed graph as \<^verbatim>\<open>edges_iter(true)\<close> yields them.\<close>

definition edge_triples :: "'z graph_scheme \<Rightarrow> (key \<times> key \<times> jsval) list" where
  "edge_triples g = unseen_edges (\<lambda>n e. (n, fst e, snd e)) {} (entries (adj' g))"

lemma edge_triples_facts:
  assumes "graph_ok g"
  shows "Graph_edges_iter g None True = Inr (map (\<lambda>t. E3 (fst t) (fst (snd t)) (snd (snd t))) (edge_triples g))"
    and "\<And>t. t \<in> set (edge_triples g) \<Longrightarrow> nbr g (fst t) (fst (snd t)) = Some (snd (snd t))"
    and "\<And>u v. nbr g u v \<noteq> None \<Longrightarrow> \<exists>t\<in>set (edge_triples g). (fst t = u \<and> fst (snd t) = v) \<or> (fst t = v \<and> fst (snd t) = u)"
    and "distinct (map (\<lambda>t. (fst t, fst (snd t))) (edge_triples g))"
    and "\<And>t t'. t \<in> set (edge_triples g) \<Longrightarrow> t' \<in> set (edge_triples g) \<Longrightarrow> fst t = fst (snd t') \<Longrightarrow> fst (snd t) = fst t'
           \<Longrightarrow> fst t = fst (snd t)"
proof -
  let ?E = "unseen_edges (\<lambda>n e. (n, fst e)) {} (entries (adj' g))"
  have pairs: "map (\<lambda>t. (fst t, fst (snd t))) (edge_triples g) = ?E"
    by (simp add: edge_triples_def map_unseen_edges)
  from assms have ok: "hm_ok (adj' g)" by (simp add: graph_ok_def)
  show "Graph_edges_iter g None True = Inr (map (\<lambda>t. E3 (fst t) (fst (snd t)) (snd (snd t))) (edge_triples g))"
    by (simp add: Graph_edges_iter_unseen [OF assms] edge_triples_def map_unseen_edges)
  show "nbr g (fst t) (fst (snd t)) = Some (snd (snd t))" if "t \<in> set (edge_triples g)" for t
  proof -
    from unseen_edges_record [OF that [unfolded edge_triples_def]] obtain nbrs where
      n: "(fst t, nbrs) \<in> set (entries (adj' g))" and e: "(fst (snd t), snd (snd t)) \<in> set (entries nbrs)"
      by blast
    from n have l: "lookup (adj' g) (fst t) = Some nbrs" by (simp add: set_entries [OF ok])
    from graph_ok_inner [OF assms l] e have "lookup nbrs (fst (snd t)) = Some (snd (snd t))"
      by (auto simp: set_entries)
    with l show ?thesis by (simp add: nbr_def)
  qed
  show "\<exists>t\<in>set (edge_triples g). (fst t = u \<and> fst (snd t) = v) \<or> (fst t = v \<and> fst (snd t) = u)"
    if "nbr g u v \<noteq> None" for u v
  proof -
    from that have "neighbour g u v" by (simp add: neighbour_nbr [OF assms])
    from unseen_pairs(4) [OF assms this] have "(u, v) \<in> set ?E \<or> (v, u) \<in> set ?E" .
    then show ?thesis unfolding pairs [symmetric] by auto
  qed
  show "distinct (map (\<lambda>t. (fst t, fst (snd t))) (edge_triples g))"
    unfolding pairs by (rule unseen_pairs(1) [OF assms])
  show "fst t = fst (snd t)"
    if "t \<in> set (edge_triples g)" "t' \<in> set (edge_triples g)" "fst t = fst (snd t')" "fst (snd t) = fst t'"
    for t t'
  proof (rule ccontr)
    assume ne: "fst t \<noteq> fst (snd t)"
    from that(1) have "(fst t, fst (snd t)) \<in> set ?E" unfolding pairs [symmetric] by force
    moreover from that(2,3,4) have "(fst (snd t), fst t) \<in> set ?E" unfolding pairs [symmetric] by force
    ultimately show False using unseen_pairs(5) [OF assms ne] by blast
  qed
qed

lemma set_name_fields [simp]:
  "nodes' (set_name g s) = nodes' g" "adj' (set_name g s) = adj' g" "graph_hash (set_name g s) = graph_hash g"
  by (simp_all add: set_name_def)

lemma graph_within_set_name [simp]: "graph_within U (set_name g s) = graph_within U g"
  by (simp add: graph_within_def graph_ok_def)

lemma built_Graph_empty:
  assumes "inj_on (keyHash (HashMap hash :: unit hashmap)) U" and "\<forall>k\<in>U. isDef k \<and> \<not> isArray k"
    and "store_ok w" and "F \<le> fresh w"
  shows "built F U (Graph_empty attr hash) w"
    and "nbr (Graph_empty attr hash) = (\<lambda>a b. None)"
proof -
  have gw: "graph_within U (Graph_empty attr hash)" using assms(1,2) by (rule graph_within_Graph_empty)
  have n: "lookup (nodes' (Graph_empty attr hash)) k = None" for k by (simp add: Graph_empty_def)
  show e: "nbr (Graph_empty attr hash) = (\<lambda>a b. None)" by (intro ext) (simp add: nbr_def Graph_empty_def)
  from gw assms(3,4) show "built F U (Graph_empty attr hash) w"
    by (simp add: built_def n e node_addr_def edge_addr_def)
qed

lemma nbr_set_name [simp]: "nbr (set_name g s) = nbr g"
  by (intro ext) (simp add: nbr_def)

lemma built_set_name [simp]: "built F U (set_name g s) w = built F U g w"
  by (simp add: built_def node_addr_def edge_addr_def)

lemma built_empty:
  assumes "inj_on (keyHash (HashMap hash :: unit hashmap)) U" and "\<forall>k\<in>U. isDef k \<and> \<not> isArray k"
    and "store_ok w" and "F \<le> fresh w"
  shows "built F U (set_name (Graph_empty attr hash) s) w"
    and "nbr (set_name (Graph_empty attr hash) s) = (\<lambda>a b. None)"
  using built_Graph_empty [OF assms] by simp_all

lemma add_nodes_from_built:
  assumes "built F U H w" and "\<forall>n\<in>set ns. node_key n \<in> U"
  shows "\<exists>H' w'. add_nodes_from Graph_add_node_impl H w ns JUndefined = (Inr (), H', w')
     \<and> built F U H' w' \<and> nbr H' = nbr H \<and> graph_hash H' = graph_hash H \<and> fresh w \<le> fresh w'
     \<and> (\<forall>y. y < F \<or> edge_addr H y \<longrightarrow> dicts w' y = dicts w y)
     \<and> dom (lookup (adj' H')) = dom (lookup (adj' H)) \<union> node_key ` set ns
     \<and> node_frame H w H' w'"
proof -
  let ?w1 = "snd (new_object w [])"
  from assms(1) have sw: "store_ok w" and Fw: "F \<le> fresh w" by (simp_all add: built_def)
  have b1: "built F U H ?w1" using assms(1) by (rule built_mono) (simp_all add: sw)
  from add_nodes_built [OF b1 assms(2), of "fresh w"] obtain H' w' where
    r: "forEach (add_nodes_from_step Graph_add_node_impl (JRef (fresh w))) ns (H, ?w1) = (Inr (), H', w')"
    and b': "built F U H' w'" and nb: "nbr H' = nbr H" and gh: "graph_hash H' = graph_hash H"
    and fw: "fresh ?w1 \<le> fresh w'" and fr: "\<forall>y. y < F \<or> edge_addr H y \<longrightarrow> dicts w' y = dicts ?w1 y"
    and dm: "dom (lookup (adj' H')) = dom (lookup (adj' H)) \<union> node_key ` set ns"
    and nf1: "node_frame H ?w1 H' w'"
    by (elim exE conjE) (rule that, assumption+)
  have nf: "node_frame H w H' w'" using nf1 by (auto simp: node_frame_def)
  have run: "add_nodes_from Graph_add_node_impl H w ns JUndefined = (Inr (), H', w')"
    by (simp add: add_nodes_from_def defined_def case_new_object r del: fresh_new_object)
  have fr': "\<forall>y. y < F \<or> edge_addr H y \<longrightarrow> dicts w' y = dicts w y"
  proof (intro allI impI)
    fix y assume y: "y < F \<or> edge_addr H y"
    then have "y < fresh w" using built_bounds(2) [OF assms(1), of y] Fw by auto
    with fr y show "dicts w' y = dicts w y" by auto
  qed
  from fw have "fresh w \<le> fresh w'" by simp
  with run b' nb gh fr' dm nf show ?thesis
    by (intro exI [of _ H'] exI [of _ w'] conjI) assumption+
qed

lemma Graph_relabel_copy_run:
  fixes f :: "key \<Rightarrow> key" and G :: graph
  defines "N \<equiv> dom (lookup (nodes' G))"
  assumes f: "f = mapping_get m" and ok: "graph_ok G" and sw: "store_ok w"
    and al: "\<forall>t\<in>set (edge_triples G). \<forall>y. snd (snd t) = JRef y \<longrightarrow> y < fresh w"
    and inj: "inj_on (keyHash (nodes' G)) (f ` N)"
    and df: "\<forall>n\<in>N. isDef (f n) \<and> \<not> isArray (f n)"
  shows "\<exists>H w'. Graph_relabel_copy G w m = (Inr H, w') \<and> built (fresh w + 1) (f ` N) H w'
     \<and> (\<forall>y<fresh w. dicts w' y = dicts w y)
     \<and> (\<forall>a b. nbr H a b \<noteq> None \<longleftrightarrow> (\<exists>t\<in>set (edge_triples G). pair_of f t = {a, b}))
     \<and> (distinct (map (pair_of f) (edge_triples G)) \<longrightarrow>
          (\<forall>t\<in>set (edge_triples G). \<exists>x. nbr H (f (fst t)) (f (fst (snd t))) = Some (JRef x)
             \<and> props w' (JRef x) = assigned (assigned (props w (snd (snd t))) []) []))"
proof -
  let ?U = "f ` N"
  let ?F = "fresh w + 1"
  let ?w1 = "snd (new_object w [])"
  define H0 where "H0 = set_name (Graph_empty (graph' G) (graph_hash G)) (''('' @ name G @ '')'')"
  let ?ts = "edge_triples G"
  from ok have hn: "hm_ok (nodes' G)" and ha: "hm_ok (adj' G)" and on: "opts_hash (nodes' G) = graph_hash G"
    and dn: "dom (lookup (nodes' G)) = dom (lookup (adj' G))"
    by (simp_all add: graph_ok_def)
  have kh: "keyHash (HashMap (graph_hash G) :: unit hashmap) = keyHash (nodes' G)"
    by (rule keyHash_cong) (simp add: on)
  have U: "\<forall>k\<in>?U. isDef k \<and> \<not> isArray k" using df by auto
  have inj0: "inj_on (keyHash (HashMap (graph_hash G) :: unit hashmap)) ?U" unfolding kh by (rule inj)
  have s1: "store_ok ?w1" using sw by simp
  have Fle: "?F \<le> fresh ?w1" by simp
  note e0 = built_empty [OF inj0 U s1 Fle, of "graph' G" "''('' @ name G @ '')''", folded H0_def]
  have start: "add_edges_from_start w JUndefined = (Inr (JRef (fresh w)), ?w1)"
    by (simp add: add_edges_from_start_def truthy_def is_object_def case_new_object)
  have a0: "fresh w < ?F" by simp
  have d0: "dicts ?w1 (fresh w) = Some []" by simp
  have inN: "fst t \<in> N \<and> fst (snd t) \<in> N" if "t \<in> set ?ts" for t
    using nbr_dom [OF ok edge_triples_facts(2) [OF ok that]] by (simp add: N_def dn)
  have pU: "\<forall>t\<in>set ?ts. pair_of f t \<subseteq> ?U" using inN by (auto simp: pair_of_def)
  have alF: "\<forall>t\<in>set ?ts. \<forall>y. snd (snd t) = JRef y \<longrightarrow> y < ?F" using al by fastforce
  from relabel_edges_built [OF e0(1) a0 d0 pU alF f] obtain H2 w2 where
    r2: "forEach (relabel_edge Graph_add_edge (JRef (fresh w)) m)
            (map (\<lambda>t. E3 (fst t) (fst (snd t)) (snd (snd t))) ?ts) (H0, ?w1) = (Inr (), H2, w2)"
    and b2: "built ?F ?U H2 w2" and fw2: "fresh ?w1 \<le> fresh w2"
    and fr2: "\<forall>y<?F. dicts w2 y = dicts ?w1 y"
    and ne2: "\<forall>a b. nbr H2 a b \<noteq> None \<longleftrightarrow> nbr H0 a b \<noteq> None \<or> (\<exists>t\<in>set ?ts. pair_of f t = {a, b})"
    and in2: "distinct (map (pair_of f) ?ts) \<and> (\<forall>t\<in>set ?ts. nbr H0 (f (fst t)) (f (fst (snd t))) = None) \<longrightarrow>
          (\<forall>y<fresh ?w1. dicts w2 y = dicts ?w1 y)
        \<and> (\<forall>t\<in>set ?ts. \<exists>x. nbr H2 (f (fst t)) (f (fst (snd t))) = Some (JRef x) \<and> fresh ?w1 \<le> x
               \<and> props w2 (JRef x) = assigned (assigned (props ?w1 (snd (snd t))) []) [])"
    by (elim exE conjE) (rule that, assumption+)
  have ns: "nodes G = Inr (map fst (entries (nodes' G)))" by (simp add: nodes_def getEntries_entries [OF hn])
  have nd: "nodes_data G = Inr (entries (nodes' G))" by (simp add: nodes_data_def getEntries_entries [OF hn])
  have keys: "fst ` set (entries (nodes' G)) = N" unfolding N_def using hn by (rule fst_entries)
  let ?l1 = "map ((\<lambda>n. Node (f n)) \<circ> fst) (entries (nodes' G))"
  let ?l2 = "map (\<lambda>entry. NodeAttr (f (fst entry)) (snd entry)) (entries (nodes' G))"
  have k1: "\<forall>n\<in>set ?l1. node_key n \<in> ?U" using keys by auto
  have k2: "\<forall>n\<in>set ?l2. node_key n \<in> ?U" using keys by auto
  from add_nodes_from_built [OF b2 k1] obtain H3 w3 where
    r3: "add_nodes_from Graph_add_node_impl H2 w2 ?l1 JUndefined = (Inr (), H3, w3)"
    and b3: "built ?F ?U H3 w3" and nb3: "nbr H3 = nbr H2" and fw3: "fresh w2 \<le> fresh w3"
    and fr3: "\<forall>y. y < ?F \<or> edge_addr H2 y \<longrightarrow> dicts w3 y = dicts w2 y"
    by (elim exE conjE) (rule that, assumption+)
  from add_nodes_from_built [OF b3 k2] obtain H4 w4 where
    r4: "add_nodes_from Graph_add_node_impl H3 w3 ?l2 JUndefined = (Inr (), H4, w4)"
    and b4: "built ?F ?U H4 w4" and nb4: "nbr H4 = nbr H3" and fw4: "fresh w3 \<le> fresh w4"
    and fr4: "\<forall>y. y < ?F \<or> edge_addr H3 y \<longrightarrow> dicts w4 y = dicts w3 y"
    by (elim exE conjE) (rule that, assumption+)
  have e3: "edge_addr H3 = edge_addr H2" using nb3 by (rule edge_addr_cong)
  have H0n: "set_name (Graph_empty (graph' G) (graph_hash G)) (CHR ''('' # name G @ '')'') = H0"
    by (simp add: H0_def)
  have run: "Graph_relabel_copy G w m = (Inr H4, w4)"
    by (simp add: Graph_relabel_copy_def relabel_copy_def relabel_copy_nodes_def Let_def H0n start edge_triples_facts(1) [OF ok] r2 [unfolded f] ns nd r3 [unfolded f] r4 [unfolded f])
  have frame: "\<forall>y<fresh w. dicts w4 y = dicts w y"
  proof (intro allI impI)
    fix y assume y: "y < fresh w"
    then have "dicts w4 y = dicts w3 y" using fr4 by simp
    also have "\<dots> = dicts w2 y" using y fr3 by simp
    also have "\<dots> = dicts ?w1 y" using y fr2 by simp
    also have "\<dots> = dicts w y" using y by simp
    finally show "dicts w4 y = dicts w y" .
  qed
  have edges: "\<forall>a b. nbr H4 a b \<noteq> None \<longleftrightarrow> (\<exists>t\<in>set ?ts. pair_of f t = {a, b})"
    unfolding nb4 nb3 using ne2 by (simp add: e0(2))
  have recs: "\<forall>t\<in>set ?ts. \<exists>x. nbr H4 (f (fst t)) (f (fst (snd t))) = Some (JRef x)
             \<and> props w4 (JRef x) = assigned (assigned (props w (snd (snd t))) []) []"
    if d: "distinct (map (pair_of f) ?ts)"
  proof
    fix t assume t: "t \<in> set ?ts"
    from in2 d have "\<forall>t\<in>set ?ts. \<exists>x. nbr H2 (f (fst t)) (f (fst (snd t))) = Some (JRef x) \<and> fresh ?w1 \<le> x
               \<and> props w2 (JRef x) = assigned (assigned (props ?w1 (snd (snd t))) []) []"
      by (simp add: e0(2))
    with t obtain x where x: "nbr H2 (f (fst t)) (f (fst (snd t))) = Some (JRef x)"
      "props w2 (JRef x) = assigned (assigned (props ?w1 (snd (snd t))) []) []"
      by blast
    have "props ?w1 (snd (snd t)) = props w (snd (snd t))"
    proof (rule props_frame)
      fix y assume "snd (snd t) = JRef y"
      with al t have "y < fresh w" by blast
      then show "dicts ?w1 y = dicts w y" by simp
    qed
    with x(2) have p2: "props w2 (JRef x) = assigned (assigned (props w (snd (snd t))) []) []" by simp
    have ea: "edge_addr H2 x" unfolding edge_addr_def using x(1) by blast
    then have "dicts w4 x = dicts w3 x" using fr4 e3 by simp
    also have "\<dots> = dicts w2 x" using fr3 ea by simp
    finally have "props w4 (JRef x) = props w2 (JRef x)" by (simp add: props_def)
    with x(1) p2 show "\<exists>x. nbr H4 (f (fst t)) (f (fst (snd t))) = Some (JRef x)
             \<and> props w4 (JRef x) = assigned (assigned (props w (snd (snd t))) []) []"
      by (simp add: nb4 nb3)
  qed
  from run b4 frame edges recs show ?thesis
    by (intro exI [of _ H4] exI [of _ w4] conjI impI) (assumption | (rule recs, assumption))+
qed

lemma distinct_pairs:
  assumes "graph_ok G" and "inj_on f (dom (lookup (adj' G)))"
  shows "distinct (map (pair_of f) (edge_triples G))"
proof -
  let ?g = "\<lambda>t :: key \<times> key \<times> jsval. (fst t, fst (snd t))"
  let ?h = "\<lambda>p :: key \<times> key. {f (fst p), f (snd p)}"
  let ?ts = "edge_triples G"
  have inN: "fst t \<in> dom (lookup (adj' G)) \<and> fst (snd t) \<in> dom (lookup (adj' G))" if "t \<in> set ?ts" for t
    using nbr_dom [OF assms(1) edge_triples_facts(2) [OF assms(1) that]] by simp
  have "inj_on ?h (set (map ?g ?ts))"
  proof (rule inj_onI)
    fix p p' assume p: "p \<in> set (map ?g ?ts)" and p': "p' \<in> set (map ?g ?ts)" and e: "?h p = ?h p'"
    from p obtain t where t: "t \<in> set ?ts" "p = ?g t" by auto
    from p' obtain t' where t': "t' \<in> set ?ts" "p' = ?g t'" by auto
    from e t(2) t'(2) have "(f (fst t) = f (fst t') \<and> f (fst (snd t)) = f (fst (snd t')))
        \<or> (f (fst t) = f (fst (snd t')) \<and> f (fst (snd t)) = f (fst t'))"
      by (simp add: doubleton_eq_iff)
    with inN [OF t(1)] inN [OF t'(1)] assms(2)
    have "(fst t = fst t' \<and> fst (snd t) = fst (snd t')) \<or> (fst t = fst (snd t') \<and> fst (snd t) = fst t')"
      by (auto dest: inj_onD)
    then show "p = p'"
    proof
      assume "fst t = fst t' \<and> fst (snd t) = fst (snd t')"
      with t(2) t'(2) show ?thesis by simp
    next
      assume c: "fst t = fst (snd t') \<and> fst (snd t) = fst t'"
      with edge_triples_facts(5) [OF assms(1) t(1) t'(1)] have "fst t = fst (snd t)" by simp
      with c t(2) t'(2) show ?thesis by auto
    qed
  qed
  with edge_triples_facts(4) [OF assms(1)] have "distinct (map ?h (map ?g ?ts))" by (simp only: distinct_map simp_thms)
  moreover have "map ?h (map ?g ?ts) = map (pair_of f) ?ts"
    unfolding map_map by (rule map_cong) (simp_all add: pair_of_def)
  ultimately show ?thesis by (simp only:)
qed

lemma Graph_relabel_copy_flat:
  assumes ok: "graph_ok G" and sw: "store_ok w"
    and al: "\<forall>u v y. edge_record G u v = Some (JRef y) \<longrightarrow> y < fresh w"
    and inj: "inj_on (keyHash (nodes' G)) (mapping_get m ` dom (lookup (nodes' G)))"
    and df: "\<forall>n\<in>dom (lookup (nodes' G)). isDef (mapping_get m n) \<and> \<not> isArray (mapping_get m n)"
  shows "\<exists>H w'. Graph_relabel_copy G w m = (Inr H, w') \<and> graph_ok H
     \<and> (\<forall>a b. neighbour H a b \<longleftrightarrow> (\<exists>u v. neighbour G u v \<and> a = mapping_get m u \<and> b = mapping_get m v))
     \<and> (\<forall>u v r. edge_record G u v = Some r \<longrightarrow>
          (\<exists>x. edge_record H (mapping_get m u) (mapping_get m v) = Some (JRef x)
             \<and> JRef x \<noteq> r \<and> fresh w \<le> x
             \<and> (inj_on (mapping_get m) (dom (lookup (nodes' G))) \<and> distinct (map fst (props w r))
                  \<longrightarrow> props w' (JRef x) = props w r)))
     \<and> (\<forall>y<fresh w. dicts w' y = dicts w y)"
proof -
  define f where "f = mapping_get m"
  let ?ts = "edge_triples G"
  let ?N = "dom (lookup (nodes' G))"
  from ok have dn: "?N = dom (lookup (adj' G))" by (simp add: graph_ok_def)
  have rec: "edge_record G u v = nbr G u v" for u v using ok by (rule edge_record_nbr)
  have al': "\<forall>t\<in>set ?ts. \<forall>y. snd (snd t) = JRef y \<longrightarrow> y < fresh w"
  proof (intro ballI allI impI)
    fix t y assume "t \<in> set ?ts" and "snd (snd t) = JRef y"
    with edge_triples_facts(2) [OF ok] have "edge_record G (fst t) (fst (snd t)) = Some (JRef y)" by (simp add: rec)
    with al show "y < fresh w" by blast
  qed
  from Graph_relabel_copy_run [OF f_def ok sw al' inj [folded f_def] df [folded f_def]] obtain H w' where
    run: "Graph_relabel_copy G w m = (Inr H, w')" and b: "built (fresh w + 1) (f ` ?N) H w'"
    and frame: "\<forall>y<fresh w. dicts w' y = dicts w y"
    and edges: "\<forall>a b. nbr H a b \<noteq> None \<longleftrightarrow> (\<exists>t\<in>set ?ts. pair_of f t = {a, b})"
    and recs: "distinct (map (pair_of f) ?ts) \<longrightarrow>
          (\<forall>t\<in>set ?ts. \<exists>x. nbr H (f (fst t)) (f (fst (snd t))) = Some (JRef x)
             \<and> props w' (JRef x) = assigned (assigned (props w (snd (snd t))) []) [])"
    by (elim exE conjE) (rule that, assumption+)
  from b have okH: "graph_ok H" by (simp add: built_def graph_within_def)
  have recH: "edge_record H a b = nbr H a b" for a b using okH by (rule edge_record_nbr)
  have find: "\<exists>t\<in>set ?ts. snd (snd t) = r \<and> ((fst t = u \<and> fst (snd t) = v) \<or> (fst t = v \<and> fst (snd t) = u))"
    if "nbr G u v = Some r" for u v r
  proof -
    from that edge_triples_facts(3) [OF ok, of u v] obtain t where
      t: "t \<in> set ?ts" "(fst t = u \<and> fst (snd t) = v) \<or> (fst t = v \<and> fst (snd t) = u)"
      by auto
    from nbr_sym [OF ok that] have "nbr G v u = Some r" .
    with that t(2) edge_triples_facts(2) [OF ok t(1)] have "snd (snd t) = r" by auto
    with t show ?thesis by blast
  qed
  have nbrs: "neighbour H a b \<longleftrightarrow> (\<exists>u v. neighbour G u v \<and> a = f u \<and> b = f v)" for a b
  proof
    assume "neighbour H a b"
    then have "nbr H a b \<noteq> None" by (simp add: neighbour_nbr [OF okH])
    with edges obtain t where t: "t \<in> set ?ts" "pair_of f t = {a, b}" by blast
    from edge_triples_facts(2) [OF ok t(1)] have n: "nbr G (fst t) (fst (snd t)) \<noteq> None" by simp
    then have n1: "neighbour G (fst t) (fst (snd t))" by (simp add: neighbour_nbr [OF ok])
    then have n2: "neighbour G (fst (snd t)) (fst t)" by (rule unseen_pairs(3) [OF ok])
    from t(2) have "(f (fst t) = a \<and> f (fst (snd t)) = b) \<or> (f (fst t) = b \<and> f (fst (snd t)) = a)"
      by (simp add: pair_of_def doubleton_eq_iff)
    with n1 n2 show "\<exists>u v. neighbour G u v \<and> a = f u \<and> b = f v" by blast
  next
    assume "\<exists>u v. neighbour G u v \<and> a = f u \<and> b = f v"
    then obtain u v where uv: "neighbour G u v" "a = f u" "b = f v" by blast
    then obtain r where "nbr G u v = Some r" by (auto simp: neighbour_nbr [OF ok])
    from find [OF this] obtain t where t: "t \<in> set ?ts"
      "(fst t = u \<and> fst (snd t) = v) \<or> (fst t = v \<and> fst (snd t) = u)" by blast
    then have "pair_of f t = {a, b}" using uv(2,3) by (auto simp: pair_of_def)
    with t(1) edges have "nbr H a b \<noteq> None" by blast
    then show "neighbour H a b" by (simp add: neighbour_nbr [OF okH])
  qed
  have records: "\<exists>x. edge_record H (f u) (f v) = Some (JRef x) \<and> JRef x \<noteq> r \<and> fresh w \<le> x
             \<and> (inj_on f ?N \<and> distinct (map fst (props w r)) \<longrightarrow> props w' (JRef x) = props w r)"
    if e: "edge_record G u v = Some r" for u v r
  proof -
    from e have n: "nbr G u v = Some r" by (simp add: rec)
    from find [OF n] obtain t where t: "t \<in> set ?ts" "snd (snd t) = r"
      "(fst t = u \<and> fst (snd t) = v) \<or> (fst t = v \<and> fst (snd t) = u)" by blast
    then have p: "pair_of f t = {f u, f v}" by (auto simp: pair_of_def)
    with t(1) edges have "nbr H (f u) (f v) \<noteq> None" by blast
    then obtain r' where r': "nbr H (f u) (f v) = Some r'" by auto
    from built_bounds(3) [OF b r'] obtain x where x: "r' = JRef x" "edge_addr H x" by blast
    from built_bounds(2) [OF b x(2)] have xw: "fresh w \<le> x" by simp
    have ne: "JRef x \<noteq> r"
    proof
      assume "JRef x = r"
      with e al have "x < fresh w" by blast
      with xw show False by simp
    qed
    have flat: "props w' (JRef x) = props w r" if i: "inj_on f ?N" and d: "distinct (map fst (props w r))"
    proof -
      from i have "distinct (map (pair_of f) ?ts)" unfolding dn by (rule distinct_pairs [OF ok])
      with recs t(1,2) obtain x' where x': "nbr H (f (fst t)) (f (fst (snd t))) = Some (JRef x')"
        "props w' (JRef x') = assigned (assigned (props w r) []) []"
        by blast
      from t(3) x'(1) nbr_sym [OF okH x'(1)] have "nbr H (f u) (f v) = Some (JRef x')" by auto
      with r' x(1) have "x' = x" by simp
      moreover have "assigned (props w r) [] = props w r" using d by (simp add: assigned_distinct)
      ultimately show ?thesis using x'(2) by simp
    qed
    from r' x(1) ne xw flat show ?thesis by (auto simp: recH)
  qed
  from run okH nbrs records frame show ?thesis
    unfolding f_def by (intro exI [of _ H] exI [of _ w'] conjI allI impI) (assumption | blast)+
qed

section \<open>Copy-mode relabel of a MultiGraph\<close>

text \<open>
  In a multigraph the value that \<^verbatim>\<open>adj[a]\<close> holds for \<open>b\<close> is the reference to the key-map
  of the pair. \<open>medge H w a b k\<close> is the record of the edge between \<open>a\<close> and \<open>b\<close> with the
  key \<open>k\<close>: what the key-map of the pair holds for \<open>k\<close>.

  \<open>keys_ok K\<close>: the edge keys in \<open>K\<close> are neither undefined nor \<^verbatim>\<open>null\<close> and have pairwise
  distinct hashes in a key-map (\<^verbatim>\<open>newEdgeMap_\<close> gives the key-maps no hash function of
  their own).

  \<open>keyed F K H w\<close>, for a graph \<open>H\<close> that is built in \<open>w\<close>: every key-map lies below the
  next free address; the value of every pair of neighbours is the reference to a key-map
  in a proper state, with keys in \<open>K\<close>, whose values are references to records at
  addresses between \<open>F\<close> and the next free one that are not node records; and two pairs
  with the same key-map are the same pair.
\<close>

definition medge :: "'z graph_scheme \<Rightarrow> world \<Rightarrow> key \<Rightarrow> key \<Rightarrow> key \<Rightarrow> jsval option" where
  "medge H w a b k =
     (case nbr H a b of
        Some (JRef p) \<Rightarrow> (case keymaps w p of Some km \<Rightarrow> lookup km k | None \<Rightarrow> None)
      | _ \<Rightarrow> None)"

definition keys_ok :: "key set \<Rightarrow> bool" where
  "keys_ok K \<longleftrightarrow> inj_on (keyHash (HashMap None :: jsval hashmap)) K \<and> (\<forall>k\<in>K. isDefAndNotNull k)"

definition keymap_ok :: "nat \<Rightarrow> key set \<Rightarrow> 'z graph_scheme \<Rightarrow> world \<Rightarrow> jsval hashmap \<Rightarrow> bool" where
  "keymap_ok F K H w km \<longleftrightarrow>
     hm_ok km \<and> opts_hash km = None \<and> dom (lookup km) \<subseteq> K
     \<and> (\<forall>k r. lookup km k = Some r \<longrightarrow> (\<exists>x. r = JRef x \<and> F \<le> x \<and> x < fresh w \<and> \<not> node_addr H x))"

definition keyed :: "nat \<Rightarrow> key set \<Rightarrow> 'z graph_scheme \<Rightarrow> world \<Rightarrow> bool" where
  "keyed F K H w \<longleftrightarrow>
     dom (keymaps w) \<subseteq> {..<fresh w}
     \<and> (\<forall>a b r. nbr H a b = Some r \<longrightarrow> (\<exists>p km. r = JRef p \<and> keymaps w p = Some km \<and> keymap_ok F K H w km))
     \<and> (\<forall>a b c d r. nbr H a b = Some r \<and> nbr H c d = Some r \<longrightarrow> {a, b} = {c, d})"

lemma keymap_ok_mono:
  assumes "keymap_ok F K H w km" and "fresh w \<le> fresh w'" and "\<And>y. node_addr H' y \<Longrightarrow> node_addr H y \<or> fresh w \<le> y"
  shows "keymap_ok F K H' w' km"
  using assms unfolding keymap_ok_def by (meson less_le_trans not_le)

lemma keyed_mono:
  assumes "keyed F K H w" and "fresh w \<le> fresh w'" and "keymaps w' = keymaps w" and "nbr H' = nbr H"
    and "\<And>y. node_addr H' y \<Longrightarrow> node_addr H y \<or> fresh w \<le> y"
  shows "keyed F K H' w'"
  unfolding keyed_def
proof (intro conjI allI impI)
  from assms(1,2) show "dom (keymaps w') \<subseteq> {..<fresh w'}" unfolding keyed_def assms(3) by auto
next
  fix a b r assume "nbr H' a b = Some r"
  then have "nbr H a b = Some r" by (simp add: assms(4))
  with assms(1) obtain p km where "r = JRef p" "keymaps w p = Some km" "keymap_ok F K H w km"
    unfolding keyed_def by blast
  with keymap_ok_mono [OF this(3) assms(2,5)] show "\<exists>p km. r = JRef p \<and> keymaps w' p = Some km \<and> keymap_ok F K H' w' km"
    by (simp add: assms(3))
next
  fix a b c d r assume "nbr H' a b = Some r \<and> nbr H' c d = Some r"
  with assms(1) show "{a, b} = {c, d}" unfolding keyed_def assms(4) by blast
qed

lemma keys_ok_fits:
  assumes "keys_ok K" and "keymap_ok F K H w km" and "k \<in> K"
  shows "fits km k"
proof -
  from assms(2) have hm: "hm_ok km" and oh: "opts_hash km = None" and sub: "dom (lookup km) \<subseteq> K"
    by (simp_all add: keymap_ok_def)
  have kh: "keyHash km = keyHash (HashMap None :: jsval hashmap)" by (rule keyHash_cong) (simp add: oh)
  from assms(1) have inj: "inj_on (keyHash km) K" and d: "isDef k" using assms(3)
    by (auto simp: keys_ok_def kh isDefAndNotNull_def isDef_def)
  from hm sub inj assms(3) d show ?thesis by (rule fits_within)
qed

lemma keys_ok_fits_empty:
  assumes "keys_ok K" and "k \<in> K"
  shows "fits (HashMap None :: jsval hashmap) k"
  using assms by (auto simp: fits_def keys_ok_def HashMap_def isDefAndNotNull_def isDef_def)

lemma or_true_JRef [simp]: "or_true (JRef x) = JRef x"
  by (simp add: or_true_def)

lemma medge_cong: "nbr H' = nbr H \<Longrightarrow> keymaps w' = keymaps w \<Longrightarrow> medge H' w' = medge H w"
  by (intro ext) (simp add: medge_def split: option.splits jsval.splits)

lemma keyedD:
  assumes "keyed F K H w" and "nbr H a b = Some r"
  shows "\<exists>p km. r = JRef p \<and> keymaps w p = Some km \<and> keymap_ok F K H w km"
  using assms unfolding keyed_def by blast

lemma keymap_ok_set:
  assumes "keymap_ok F K H w km" and "fits km k" and "k \<in> K"
    and "F \<le> x" and "x < fresh w" and "\<not> node_addr H x"
  shows "keymap_ok F K H w (HashMap_set km k (JRef x))"
proof -
  have lk: "lookup (HashMap_set km k (JRef x)) = (lookup km)(k \<mapsto> JRef x)"
    using assms(2) by (rule lookup_HashMap_set)
  from assms(1) have "hm_ok km" by (simp add: keymap_ok_def)
  from hm_ok_HashMap_set [OF this assms(2)] assms(1,3,4,5,6) show ?thesis
    unfolding keymap_ok_def lk by auto
qed

lemma keymap_ok_empty: "keymap_ok F K H w (HashMap None)"
  by (simp add: keymap_ok_def dom_def)

lemma MultiGraph_add_edge_impl_built:
  assumes b: "built F U H w" and ky: "keyed F K H w" and K: "keys_ok K"
    and uU: "u \<in> U" and vU: "v \<in> U" and kK: "k \<in> K" and cw: "c < fresh w"
  shows "\<exists>H' w' x. MultiGraph_add_edge_impl H w u v k (JRef c) = Some (Inr (), H', w')
    \<and> built F U H' w' \<and> keyed F K H' w' \<and> graph_hash H' = graph_hash H
    \<and> (\<forall>a b k'. medge H' w' a b k' = (if {a, b} = {u, v} \<and> k' = k then Some (JRef x) else medge H w a b k'))
    \<and> fresh w \<le> fresh w' \<and> F \<le> x
    \<and> (\<forall>y. y < fresh w \<and> y \<noteq> x \<longrightarrow> dicts w' y = dicts w y)
    \<and> (medge H w u v k = None \<longrightarrow> fresh w \<le> x \<and> props w' (JRef x) = assigned (props w (JRef c)) [])
    \<and> dom (lookup (adj' H')) = insert u (insert v (dom (lookup (adj' H))))"
proof -
  let ?w1 = "snd (new_object w [])"
  let ?w2 = "snd (new_object ?w1 [])"
  let ?w3 = "snd (new_object ?w2 [])"
  define d where "d = fresh ?w2"
  define pa where "pa = fresh ?w3"
  from K kK have dk: "isDefAndNotNull k" by (simp add: keys_ok_def)
  from Graph_add_node_JUndefined [OF b uU] obtain g1 where
    n1: "Graph_add_node H w u JUndefined = (Inr (), g1, ?w1)" and b1: "built F U g1 ?w1"
    and nb1: "nbr g1 = nbr H" and gh1: "graph_hash g1 = graph_hash H"
    and d1: "dom (lookup (adj' g1)) = insert u (dom (lookup (adj' H)))"
    and na1: "\<forall>y. node_addr g1 y \<longrightarrow> node_addr H y \<or> y = fresh w"
    by blast
  from Graph_add_node_JUndefined [OF b1 vU] obtain g2 where
    n2: "Graph_add_node g1 ?w1 v JUndefined = (Inr (), g2, ?w2)" and b2: "built F U g2 ?w2"
    and nb2: "nbr g2 = nbr g1" and gh2: "graph_hash g2 = graph_hash g1"
    and d2: "dom (lookup (adj' g2)) = insert v (dom (lookup (adj' g1)))"
    and na2: "\<forall>y. node_addr g2 y \<longrightarrow> node_addr g1 y \<or> y = fresh ?w1"
    by blast
  have na: "node_addr g2 y \<Longrightarrow> node_addr H y \<or> fresh w \<le> y" for y
    using na1 na2 by fastforce
  have nb: "nbr g2 = nbr H" by (simp add: nb1 nb2)
  have ky2: "keyed F K g2 ?w2" using ky _ _ nb na by (rule keyed_mono) simp_all
  have ky3: "keyed F K g2 ?w3" using ky _ _ nb na by (rule keyed_mono) simp_all
  have me2: "medge g2 ?w3 = medge H w" using nb by (rule medge_cong) simp
  from b2 have gw2: "graph_within U g2" by (rule built_within)
  then have ok2: "graph_ok g2" by (simp add: graph_within_def)
  then have ha: "hm_ok (adj' g2)" by (simp add: graph_ok_def)
  from d1 d2 obtain es mv where lu: "lookup (adj' g2) u = Some es" and lv: "lookup (adj' g2) v = Some mv"
    by (metis domD insertI1 insertI2)
  note au = adj_lookup [OF ha lu] and av = adj_lookup [OF ha lv]
  have hes: "hm_ok es" using ok2 lu by (rule graph_ok_inner)
  have nuv: "nbr g2 u v = lookup es v" by (simp add: nbr_def lu)
  have b3: "built F U g2 ?w3" using b2 by (rule built_mono) (use b2 in \<open>simp_all add: built_def\<close>)
  have pc: "props ?w3 (JRef c) = props w (JRef c)" using cw by (simp add: props_def)
  have dd: "dom (lookup (adj' g2)) = insert u (insert v (dom (lookup (adj' H))))"
    using d1 d2 by auto
  have Fd: "F \<le> d" using b2 by (simp add: built_def d_def)
  have nd: "\<not> node_addr g2 d" using built_bounds(1) [OF b2, of d] by (auto simp: d_def)
  have d3: "d < fresh ?w3" and dw: "fresh w \<le> d" by (simp_all add: d_def)
  from object_extend_JRef [of ?w3 d "JRef c"] obtain w4 where
    w4: "object_extend ?w3 (JRef d) (JRef c) = (Inr (), w4)" "fresh w4 = fresh ?w3"
      "\<forall>y. y \<noteq> d \<longrightarrow> dicts w4 y = dicts ?w3 y" "dom (dicts w4) = dom (dicts ?w3)"
      "\<forall>t. dicts ?w3 d = Some t \<longrightarrow> dicts w4 d = Some (fold (\<lambda>q. dict_put (fst q) (snd q)) (props ?w3 (JRef c)) t)"
      "keymaps w4 = keymaps ?w3"
    by blast
  have "dicts ?w3 d = Some []" by (simp add: d_def)
  with w4(5) have "dicts w4 d = Some (fold (\<lambda>q. dict_put (fst q) (snd q)) (props ?w3 (JRef c)) [])"
    by blast
  then have pr: "props w4 (JRef d) = assigned (props w (JRef c)) []"
    unfolding pc by (simp add: props_def assigned_def)
  have s4: "store_ok w4" using b3 w4(2,4) by (auto simp: built_def store_ok_def)
  have fr4: "\<forall>y. y < fresh w \<and> y \<noteq> d \<longrightarrow> dicts w4 y = dicts w y" using w4(3) by simp
  have eqd: "fresh (snd (new_object (snd (new_object w [])) [])) = d" by (simp add: d_def)
  have eqa: "fresh (snd (new_object (snd (new_object (snd (new_object w [])) [])) [])) = pa" by (simp add: pa_def)
  show ?thesis
  proof (cases "lookup es v")
    case (Some r0)
    then have ck: "containsKey es v" using containsKey_lookup [OF hes, of v] by simp
    from Some have g: "HashMap_get es v None = Inr (Some r0)"
      using HashMap_get_lookup [OF lookup_fits [OF Some hes], of None] by simp
    from Some nuv have n0: "nbr g2 u v = Some r0" by simp
    from keyedD [OF ky3 n0] obtain p km where
      r0: "r0 = JRef p" and kp: "keymaps ?w3 p = Some km" and ko: "keymap_ok F K g2 ?w3 km"
      by blast
    from kp have kp2: "keymaps w p = Some km" by simp
    have fk: "fits km k" using K ko kK by (rule keys_ok_fits)
    from ko have hkm: "hm_ok km" by (simp add: keymap_ok_def)
    have sym: "nbr g2 v u = Some (JRef p)" using nbr_sym [OF ok2 n0] r0 by simp
    have pair: "{a, b} = {u, v}" if "nbr g2 a b = Some (JRef p)" for a b
      using ky3 that n0 r0 unfolding keyed_def by blast
    have pairs: "nbr g2 a b = Some (JRef p) \<longleftrightarrow> {a, b} = {u, v}" for a b
      using pair [of a b] n0 sym r0 by (auto simp: doubleton_eq_iff)
    show ?thesis
    proof (cases "lookup km k")
      case None
      have gk: "HashMap_get km k (Some (JRef d)) = Inr (Some (JRef d))"
        using HashMap_get_lookup [OF fk, of "Some (JRef d)"] None by simp
      let ?km = "HashMap_set km k (JRef d)"
      let ?w5 = "w4\<lparr>keymaps := (keymaps w4)(p \<mapsto> ?km)\<rparr>"
      have res: "MultiGraph_add_edge_impl H w u v k (JRef c) = Some (Inr (), g2, ?w5)"
        using dk by (simp add: MultiGraph_add_edge_impl_def n1 n2 au av ck g r0 add_to_keydict_def the_keymap_def
            kp2 gk w4 case_new_object eqd del: fresh_new_object)
      have lk: "lookup ?km = (lookup km)(k \<mapsto> JRef d)" using fk by (rule lookup_HashMap_set)
      have b5: "built F U g2 ?w5"
        using b3 by (rule built_mono) (use s4 w4 in \<open>simp_all add: store_ok_def\<close>)
      have "keymap_ok F K g2 ?w3 ?km" using ko fk kK Fd d3 nd by (rule keymap_ok_set)
      then have ko5: "keymap_ok F K g2 ?w5 ?km" by (rule keymap_ok_mono) (simp_all add: w4(2))
      have pw: "p < fresh ?w3" using ky3 kp unfolding keyed_def by auto
      have ky5: "keyed F K g2 ?w5"
        unfolding keyed_def
      proof (intro conjI allI impI)
        show "dom (keymaps ?w5) \<subseteq> {..<fresh ?w5}" using ky3 pw unfolding keyed_def by (auto simp: w4(2,6))
      next
        fix a b r assume r: "nbr g2 a b = Some r"
        from keyedD [OF ky3 r] obtain q kq where
          q: "r = JRef q" "keymaps ?w3 q = Some kq" "keymap_ok F K g2 ?w3 kq" by blast
        show "\<exists>p km. r = JRef p \<and> keymaps ?w5 p = Some km \<and> keymap_ok F K g2 ?w5 km"
        proof (cases "q = p")
          case True
          with q(1) ko5 show ?thesis by simp
        next
          case False
          have "keymap_ok F K g2 ?w5 kq" using q(3) by (rule keymap_ok_mono) (simp_all add: w4(2))
          with False q show ?thesis by (simp add: w4(6))
        qed
      next
        fix a b c' d' r assume "nbr g2 a b = Some r \<and> nbr g2 c' d' = Some r"
        with ky3 show "{a, b} = {c', d'}" unfolding keyed_def by blast
      qed
      have me: "medge g2 ?w5 a b k' = (if {a, b} = {u, v} \<and> k' = k then Some (JRef d) else medge H w a b k')" for a b k'
      proof (cases "nbr g2 a b = Some (JRef p)")
        case True
        then have "medge g2 ?w5 a b k' = lookup ?km k'" by (simp add: medge_def)
        moreover from True have "medge g2 ?w3 a b k' = lookup km k'" by (simp add: medge_def kp [simplified])
        moreover from True have "{a, b} = {u, v}" by (simp add: pairs)
        ultimately show ?thesis unfolding me2 [symmetric] by (simp add: lk)
      next
        case False
        then have "{a, b} \<noteq> {u, v}" by (simp add: pairs)
        moreover from False have "medge g2 ?w5 a b k' = medge g2 ?w3 a b k'"
          by (auto simp: medge_def w4(6) split: option.splits jsval.splits)
        ultimately show ?thesis unfolding me2 [symmetric] by simp
      qed
      have new: "fresh w \<le> d" by (rule dw)
      have fw: "fresh w \<le> fresh ?w5" by (simp add: w4(2))
      have fr5: "\<forall>y. y < fresh w \<and> y \<noteq> d \<longrightarrow> dicts ?w5 y = dicts w y" using fr4 by simp
      have pr5: "props ?w5 (JRef d) = assigned (props w (JRef c)) []" using pr by (simp add: props_def)
      have gh: "graph_hash g2 = graph_hash H" by (simp add: gh1 gh2)
      have mea: "\<forall>a b k'. medge g2 ?w5 a b k' = (if {a, b} = {u, v} \<and> k' = k then Some (JRef d) else medge H w a b k')"
        using me by blast
      have np: "medge H w u v k = None \<longrightarrow> fresh w \<le> d \<and> props ?w5 (JRef d) = assigned (props w (JRef c)) []"
        using new pr5 by simp
      from res b5 ky5 gh mea fw Fd fr5 np dd show ?thesis
        by (intro exI [of _ g2] exI [of _ ?w5] exI [of _ d] conjI) assumption+
    next
      case S: (Some r1)
      from ko S obtain x0 where x0: "r1 = JRef x0" "F \<le> x0" "x0 < fresh ?w3" "\<not> node_addr g2 x0"
        unfolding keymap_ok_def by blast
      have gk: "HashMap_get km k (Some (JRef d)) = Inr (Some (JRef x0))"
        using HashMap_get_lookup [OF fk, of "Some (JRef d)"] S x0 by simp
      from object_extend_JRef [of ?w3 x0 "JRef c"] obtain w4' where
        w4': "object_extend ?w3 (JRef x0) (JRef c) = (Inr (), w4')" "fresh w4' = fresh ?w3"
          "\<forall>y. y \<noteq> x0 \<longrightarrow> dicts w4' y = dicts ?w3 y" "dom (dicts w4') = dom (dicts ?w3)"
          "keymaps w4' = keymaps ?w3"
        by blast
      let ?km = "HashMap_set km k (JRef x0)"
      let ?w5 = "w4'\<lparr>keymaps := (keymaps w4')(p \<mapsto> ?km)\<rparr>"
      have res: "MultiGraph_add_edge_impl H w u v k (JRef c) = Some (Inr (), g2, ?w5)"
        using dk by (simp add: MultiGraph_add_edge_impl_def n1 n2 au av ck g r0 add_to_keydict_def the_keymap_def
            kp2 gk w4' case_new_object eqd del: fresh_new_object)
      have lk: "lookup ?km = lookup km" using lookup_HashMap_set [OF fk, of "JRef x0"] S x0 by auto
      have s4': "store_ok w4'" using b3 w4'(2,4) by (auto simp: built_def store_ok_def)
      have b5: "built F U g2 ?w5"
        using b3 by (rule built_mono) (use s4' w4' in \<open>simp_all add: store_ok_def\<close>)
      have "keymap_ok F K g2 ?w3 ?km" using ko fk kK x0(2,3,4) by (rule keymap_ok_set)
      then have ko5: "keymap_ok F K g2 ?w5 ?km" by (rule keymap_ok_mono) (simp_all add: w4'(2))
      have pw: "p < fresh ?w3" using ky3 kp unfolding keyed_def by auto
      have ky5: "keyed F K g2 ?w5"
        unfolding keyed_def
      proof (intro conjI allI impI)
        show "dom (keymaps ?w5) \<subseteq> {..<fresh ?w5}" using ky3 pw unfolding keyed_def by (auto simp: w4'(2,5))
      next
        fix a b r assume r: "nbr g2 a b = Some r"
        from keyedD [OF ky3 r] obtain q kq where
          q: "r = JRef q" "keymaps ?w3 q = Some kq" "keymap_ok F K g2 ?w3 kq" by blast
        show "\<exists>p km. r = JRef p \<and> keymaps ?w5 p = Some km \<and> keymap_ok F K g2 ?w5 km"
        proof (cases "q = p")
          case True
          with q(1) ko5 show ?thesis by simp
        next
          case False
          have "keymap_ok F K g2 ?w5 kq" using q(3) by (rule keymap_ok_mono) (simp_all add: w4'(2))
          with False q show ?thesis by (simp add: w4'(5))
        qed
      next
        fix a b c' d' r assume "nbr g2 a b = Some r \<and> nbr g2 c' d' = Some r"
        with ky3 show "{a, b} = {c', d'}" unfolding keyed_def by blast
      qed
      have me: "medge g2 ?w5 a b k' = (if {a, b} = {u, v} \<and> k' = k then Some (JRef x0) else medge H w a b k')" for a b k'
      proof (cases "nbr g2 a b = Some (JRef p)")
        case True
        then have "medge g2 ?w5 a b k' = lookup ?km k'" by (simp add: medge_def)
        moreover from True have "medge g2 ?w3 a b k' = lookup km k'" by (simp add: medge_def kp [simplified])
        moreover from True have "{a, b} = {u, v}" by (simp add: pairs)
        ultimately show ?thesis unfolding me2 [symmetric] using S x0(1) by (simp add: lk)
      next
        case False
        then have "{a, b} \<noteq> {u, v}" by (simp add: pairs)
        moreover from False have "medge g2 ?w5 a b k' = medge g2 ?w3 a b k'"
          by (auto simp: medge_def w4'(5) split: option.splits jsval.splits)
        ultimately show ?thesis unfolding me2 [symmetric] by simp
      qed
      have "medge g2 ?w3 u v k = Some (JRef x0)" using n0 r0 S x0(1) by (simp add: medge_def kp [simplified])
      then have old: "medge H w u v k \<noteq> None" unfolding me2 by simp
      have fw: "fresh w \<le> fresh ?w5" by (simp add: w4'(2))
      have fr5: "\<forall>y. y < fresh w \<and> y \<noteq> x0 \<longrightarrow> dicts ?w5 y = dicts w y" using w4'(3) by simp
      have gh: "graph_hash g2 = graph_hash H" by (simp add: gh1 gh2)
      have mea: "\<forall>a b k'. medge g2 ?w5 a b k' = (if {a, b} = {u, v} \<and> k' = k then Some (JRef x0) else medge H w a b k')"
        using me by blast
      have np: "medge H w u v k = None \<longrightarrow> fresh w \<le> x0 \<and> props ?w5 (JRef x0) = assigned (props w (JRef c)) []"
        using old by auto
      from res b5 ky5 gh mea fw x0(2) fr5 np dd show ?thesis
        by (intro exI [of _ g2] exI [of _ ?w5] exI [of _ x0] conjI) assumption+
    qed
  next
    case None
    then have ck: "\<not> containsKey es v" using containsKey_lookup [OF hes, of v] by simp
    let ?km = "HashMap_set (HashMap None) k (JRef d) :: jsval hashmap"
    let ?w5 = "w4\<lparr>keymaps := (keymaps w4)(pa \<mapsto> ?km), fresh := fresh w4 + 1\<rparr>"
    have nk: "new_keydict ?w2 k (JRef c) = (Inr (JRef pa), ?w5)"
      using dk by (simp add: new_keydict_def Let_def case_new_object w4 new_keymap_def eqd pa_def del: fresh_new_object)
    from graph_within_link [OF gw2 lu lv, of "JRef pa"] obtain g3 g4 where
      c1: "adj_call g2 u (\<lambda>m. ((), HashMap_set m v (JRef pa))) = (Inr (), g3)"
      and c2: "adj_call g3 v (\<lambda>m. ((), HashMap_set m u (JRef pa))) = (Inr (), g4)"
      and gw4: "graph_within U g4" and gh4: "graph_hash g4 = graph_hash g2" and nn4: "nodes' g4 = nodes' g2"
      and nb4: "nbr g4 = (\<lambda>a b. if (a = u \<and> b = v) \<or> (a = v \<and> b = u) then Some (JRef pa) else nbr g2 a b)"
      by blast
    have res: "MultiGraph_add_edge_impl H w u v k (JRef c) = Some (Inr (), g4, ?w5)"
      by (simp add: MultiGraph_add_edge_impl_def n1 n2 au av ck nk c1 c2 del: fresh_new_object)
    have s5: "store_ok ?w5" using s4 by (auto simp: store_ok_def)
    have b4: "built F U g2 ?w5"
      using b3 s5 by (rule built_mono) (simp add: w4(2))
    have nda: "\<not> node_addr g2 pa" using built_bounds(1) [OF b3, of pa] by (auto simp: pa_def)
    have Fa: "F \<le> pa" using Fd by (simp add: pa_def d_def)
    have b5: "built F U g4 ?w5"
      using b4 gw4 nn4 nb4 Fa _ nda by (rule built_link) (simp add: w4(2) pa_def)
    have n4: "node_addr g4 = node_addr g2" by (rule ext) (simp add: node_addr_def nn4)
    have nb4': "nbr g4 a b = (if {a, b} = {u, v} then Some (JRef pa) else nbr g2 a b)" for a b
      unfolding nb4 by (auto simp: doubleton_eq_iff)
    have lk: "lookup ?km = (\<lambda>k'. if k' = k then Some (JRef d) else None)"
      using lookup_HashMap_set [OF keys_ok_fits_empty [OF K kK], of "JRef d"] by (auto simp: fun_eq_iff)
    have "keymap_ok F K g2 ?w3 ?km"
      using keymap_ok_empty keys_ok_fits_empty [OF K kK] kK Fd d3 nd by (rule keymap_ok_set)
    then have ko5: "keymap_ok F K g4 ?w5 ?km" by (rule keymap_ok_mono) (simp_all add: w4(2) n4)
    have fresh_a: "nbr g2 a b \<noteq> Some (JRef pa)" for a b
    proof
      assume "nbr g2 a b = Some (JRef pa)"
      from built_bounds(3) [OF b3 this] built_bounds(2) [OF b3, of pa] show False by (auto simp: pa_def)
    qed
    have ky5: "keyed F K g4 ?w5"
      unfolding keyed_def
    proof (intro conjI allI impI)
      show "dom (keymaps ?w5) \<subseteq> {..<fresh ?w5}" using ky3 unfolding keyed_def by (auto simp: w4(2,6) pa_def)
    next
      fix a b r assume r: "nbr g4 a b = Some r"
      show "\<exists>p km. r = JRef p \<and> keymaps ?w5 p = Some km \<and> keymap_ok F K g4 ?w5 km"
      proof (cases "{a, b} = {u, v}")
        case True
        with r have "r = JRef pa" by (simp add: nb4')
        with ko5 show ?thesis by simp
      next
        case False
        with r have r2: "nbr g2 a b = Some r" by (simp add: nb4')
        from keyedD [OF ky3 r2] obtain q kq where
          q: "r = JRef q" "keymaps ?w3 q = Some kq" "keymap_ok F K g2 ?w3 kq" by blast
        have "q \<noteq> pa" using fresh_a [of a b] r2 q(1) by auto
        moreover have "keymap_ok F K g4 ?w5 kq" using q(3) by (rule keymap_ok_mono) (simp_all add: w4(2) n4)
        ultimately show ?thesis using q by (simp add: w4(6))
      qed
    next
      fix a b c' d' r assume r: "nbr g4 a b = Some r \<and> nbr g4 c' d' = Some r"
      show "{a, b} = {c', d'}"
      proof (cases "{a, b} = {u, v}")
        case True
        with r have "r = JRef pa" by (simp add: nb4')
        with r fresh_a [of c' d'] have "{c', d'} = {u, v}" by (auto simp: nb4' split: if_splits)
        with True show ?thesis by simp
      next
        case False
        with r have r2: "nbr g2 a b = Some r" by (simp add: nb4')
        with fresh_a [of a b] have "r \<noteq> JRef pa" by auto
        with r have "nbr g2 c' d' = Some r" by (auto simp: nb4' split: if_splits)
        with ky3 r2 show ?thesis unfolding keyed_def by blast
      qed
    qed
    have nuv0: "nbr g2 a b = None" if "{a, b} = {u, v}" for a b
    proof -
      from None nuv have n: "nbr g2 u v = None" by simp
      have "nbr g2 v u = None"
      proof (rule ccontr)
        assume "nbr g2 v u \<noteq> None"
        then obtain r where "nbr g2 v u = Some r" by auto
        from nbr_sym [OF ok2 this] n show False by simp
      qed
      with n that show ?thesis by (auto simp: doubleton_eq_iff)
    qed
    have me: "medge g4 ?w5 a b k' = (if {a, b} = {u, v} \<and> k' = k then Some (JRef d) else medge H w a b k')" for a b k'
    proof (cases "{a, b} = {u, v}")
      case True
      then have "medge g4 ?w5 a b k' = lookup ?km k'" by (simp add: medge_def nb4')
      moreover from True have "medge g2 ?w3 a b k' = None" by (simp add: medge_def nuv0)
      ultimately show ?thesis unfolding me2 [symmetric] using True by (simp add: lk)
    next
      case False
      have "medge g4 ?w5 a b k' = medge g2 ?w3 a b k'"
        using False fresh_a [of a b] by (auto simp: medge_def nb4' w4(6) split: option.splits jsval.splits)
      with False show ?thesis unfolding me2 [symmetric] by simp
    qed
    have fw: "fresh w \<le> fresh ?w5" by (simp add: w4(2))
    have new: "fresh w \<le> d" by (rule dw)
    have fr5: "\<forall>y. y < fresh w \<and> y \<noteq> d \<longrightarrow> dicts ?w5 y = dicts w y" using fr4 by simp
    have pr5: "props ?w5 (JRef d) = assigned (props w (JRef c)) []" using pr by (simp add: props_def)
    have gh: "graph_hash g4 = graph_hash H" by (simp add: gh1 gh2 gh4)
    have dom4: "dom (lookup (adj' g4)) = dom (lookup (adj' g2))"
      using gw4 gw2 nn4 by (simp add: graph_within_def graph_ok_def)
    have dd4: "dom (lookup (adj' g4)) = insert u (insert v (dom (lookup (adj' H))))" using dom4 dd by simp
    have mea: "\<forall>a b k'. medge g4 ?w5 a b k' = (if {a, b} = {u, v} \<and> k' = k then Some (JRef d) else medge H w a b k')"
      using me by blast
    have np: "medge H w u v k = None \<longrightarrow> fresh w \<le> d \<and> props ?w5 (JRef d) = assigned (props w (JRef c)) []"
      using new pr5 by simp
    from res b5 ky5 gh mea fw Fd fr5 np dd4 show ?thesis
      by (intro exI [of _ g4] exI [of _ ?w5] exI [of _ d] conjI) assumption+
  qed
qed

subsection \<open>The edge loop of the multigraph branch\<close>

lemma relabel_keyed_edge_built:
  assumes b: "built F U H w" and ky: "keyed F K H w" and K: "keys_ok K"
    and uU: "u \<in> U" and vU: "v \<in> U" and kK: "k \<in> K" and a0: "a0 < F" and da: "dicts w a0 = Some []"
  shows "\<exists>H' w' x.
      (case object_clone w dd of (c, w2) \<Rightarrow>
         MultiGraph_add_edges_from_step MultiGraph_add_edge_impl (JRef a0) (E4 u v k c) (H, w2))
        = Some (Inr (), H', w')
    \<and> built F U H' w' \<and> keyed F K H' w' \<and> graph_hash H' = graph_hash H
    \<and> (\<forall>a b k'. medge H' w' a b k' = (if {a, b} = {u, v} \<and> k' = k then Some (JRef x) else medge H w a b k'))
    \<and> fresh w \<le> fresh w' \<and> F \<le> x
    \<and> (\<forall>y. y < fresh w \<and> y \<noteq> x \<longrightarrow> dicts w' y = dicts w y)
    \<and> (medge H w u v k = None \<longrightarrow> fresh w \<le> x
          \<and> props w' (JRef x) = assigned (assigned (props w dd) []) [])
    \<and> dom (lookup (adj' H')) = insert u (insert v (dom (lookup (adj' H))))"
proof -
  let ?w2 = "snd (new_object w (props w dd))"
  let ?w0 = "snd (new_object ?w2 [])"
  let ?w3 = "snd (new_object ?w0 (props ?w0 (JRef a0)))"
  define e where "e = fresh ?w0"
  from b have Fw: "F \<le> fresh w" and sw: "store_ok w" by (simp_all add: built_def)
  have pa: "props ?w0 (JRef a0) = []" using a0 da Fw by (simp add: props_def)
  have ew: "fresh w \<le> e" and e3: "e < fresh ?w3" by (simp_all add: e_def)
  from object_extend_JRef [of ?w3 e "JRef (fresh w)"] obtain w4 where
    w4: "object_extend ?w3 (JRef e) (JRef (fresh w)) = (Inr (), w4)" "fresh w4 = fresh ?w3"
      "\<forall>y. y \<noteq> e \<longrightarrow> dicts w4 y = dicts ?w3 y" "dom (dicts w4) = dom (dicts ?w3)"
      "\<forall>t. dicts ?w3 e = Some t \<longrightarrow> dicts w4 e
          = Some (fold (\<lambda>q. dict_put (fst q) (snd q)) (props ?w3 (JRef (fresh w))) t)"
      "keymaps w4 = keymaps ?w3"
    by blast
  have p3: "props ?w3 (JRef (fresh w)) = props w dd" by (simp add: props_def)
  have "dicts ?w3 e = Some []" by (simp add: pa e_def)
  with w4(5) have "dicts w4 e = Some (assigned (props w dd) [])"
    unfolding p3 assigned_def by blast
  then have pd: "props w4 (JRef e) = assigned (props w dd) []" by (simp add: props_def)
  have s4: "store_ok w4" using sw w4(2,4) by (auto simp: store_ok_def)
  have b4: "built F U H w4" using b s4 by (rule built_mono) (simp add: w4(2))
  have k4: "keyed F K H w4" using ky by (rule keyed_mono) (simp_all add: w4(2,6))
  have c4: "e < fresh w4" using e3 by (simp add: w4(2))
  from MultiGraph_add_edge_impl_built [OF b4 k4 K uU vU kK c4] obtain H' w' x where
    r: "MultiGraph_add_edge_impl H w4 u v k (JRef e) = Some (Inr (), H', w')" and b': "built F U H' w'"
    and k': "keyed F K H' w'" and gh: "graph_hash H' = graph_hash H"
    and me: "\<forall>a b k'. medge H' w' a b k' = (if {a, b} = {u, v} \<and> k' = k then Some (JRef x) else medge H w4 a b k')"
    and fw: "fresh w4 \<le> fresh w'" and Fx: "F \<le> x"
    and fr: "\<forall>y. y < fresh w4 \<and> y \<noteq> x \<longrightarrow> dicts w' y = dicts w4 y"
    and new: "medge H w4 u v k = None \<longrightarrow> fresh w4 \<le> x
          \<and> props w' (JRef x) = assigned (props w4 (JRef e)) []"
    and dm: "dom (lookup (adj' H')) = insert u (insert v (dom (lookup (adj' H))))"
    by (elim exE conjE) (rule that, assumption+)
  have m4: "medge H w4 = medge H w" by (rule medge_cong) (simp_all add: w4(6))
  have eqe: "fresh (snd (new_object (snd (new_object w (props w dd))) [])) = e" by (simp add: e_def)
  have run: "(case object_clone w dd of (c, w2) \<Rightarrow>
         MultiGraph_add_edges_from_step MultiGraph_add_edge_impl (JRef a0) (E4 u v k c) (H, w2))
        = Some (Inr (), H', w')"
    by (simp add: object_clone_eq MultiGraph_add_edges_from_step_def Let_def case_new_object eqe w4(1) r
        del: fresh_new_object)
  have fr': "\<forall>y. y < fresh w \<and> y \<noteq> x \<longrightarrow> dicts w' y = dicts w y"
  proof (intro allI impI)
    fix y assume y: "y < fresh w \<and> y \<noteq> x"
    then have "dicts w' y = dicts w4 y" using fr w4(2) by simp
    also have "\<dots> = dicts ?w3 y" using w4(3) y ew by simp
    also have "\<dots> = dicts w y" using y by simp
    finally show "dicts w' y = dicts w y" .
  qed
  have new': "medge H w u v k = None \<longrightarrow> fresh w \<le> x
          \<and> props w' (JRef x) = assigned (assigned (props w dd) []) []"
    using new w4(2) unfolding pd m4 by auto
  have "fresh w \<le> fresh w'" using fw w4(2) by simp
  with run b' k' gh me [unfolded m4] Fx fr' new' dm show ?thesis
    by (intro exI [of _ H'] exI [of _ w'] exI [of _ x] conjI) assumption+
qed

text \<open>The relabelled pair and the key of an edge of \<open>G\<close>.\<close>

definition keyed_pair_of :: "(key \<Rightarrow> key) \<Rightarrow> key \<times> key \<times> key \<times> jsval \<Rightarrow> key set \<times> key" where
  "keyed_pair_of f t = ({f (fst t), f (fst (snd t))}, fst (snd (snd t)))"

lemma relabel_keyed_edges_built:
  fixes f :: "key \<Rightarrow> key"
  defines "Q \<equiv> keyed_pair_of f"
  assumes "built F U H w" and "keyed F K H w" and "keys_ok K" and "a0 < F" and "dicts w a0 = Some []"
    and "\<forall>t\<in>set ts. fst (Q t) \<subseteq> U \<and> snd (Q t) \<in> K"
    and "\<forall>t\<in>set ts. \<forall>y. snd (snd (snd t)) = JRef y \<longrightarrow> y < F"
    and "f = mapping_get m"
  shows "\<exists>H' w'. forEach_option (relabel_keyed_edge MultiGraph_add_edge_impl (JRef a0) m)
                    (map (\<lambda>t. E4 (fst t) (fst (snd t)) (fst (snd (snd t))) (snd (snd (snd t)))) ts) (H, w)
            = Some (Inr (), H', w')
    \<and> built F U H' w' \<and> keyed F K H' w' \<and> graph_hash H' = graph_hash H \<and> fresh w \<le> fresh w'
    \<and> (\<forall>y<F. dicts w' y = dicts w y)
    \<and> (\<forall>a b k. medge H' w' a b k \<noteq> None \<longleftrightarrow> medge H w a b k \<noteq> None \<or> (\<exists>t\<in>set ts. Q t = ({a, b}, k)))
    \<and> (\<forall>a b k. (\<forall>t\<in>set ts. Q t \<noteq> ({a, b}, k)) \<longrightarrow> medge H' w' a b k = medge H w a b k)
    \<and> dom (lookup (adj' H')) = dom (lookup (adj' H)) \<union> \<Union> ((fst \<circ> Q) ` set ts)
    \<and> (distinct (map Q ts) \<and> (\<forall>t\<in>set ts. medge H w (f (fst t)) (f (fst (snd t))) (fst (snd (snd t))) = None) \<longrightarrow>
          (\<forall>y<fresh w. dicts w' y = dicts w y)
        \<and> (\<forall>t\<in>set ts. \<exists>x. medge H' w' (f (fst t)) (f (fst (snd t))) (fst (snd (snd t))) = Some (JRef x) \<and> fresh w \<le> x
               \<and> props w' (JRef x) = assigned (assigned (props w (snd (snd (snd t)))) []) []))"
  using assms(2,3,6,7,8)
proof (induction ts arbitrary: H w)
  case Nil
  then show ?case by simp
next
  case (Cons t ts)
  let ?u = "f (fst t)" and ?v = "f (fst (snd t))" and ?k = "fst (snd (snd t))" and ?r = "snd (snd (snd t))"
  have Qt: "Q t = ({?u, ?v}, ?k)" by (simp add: Q_def keyed_pair_of_def)
  from Cons.prems(4) have uU: "?u \<in> U" and vU: "?v \<in> U" and kK: "?k \<in> K" by (simp_all add: Qt)
  from Cons.prems(1) have Fw: "F \<le> fresh w" by (simp add: built_def)
  from relabel_keyed_edge_built [OF Cons.prems(1,2) assms(4) uU vU kK assms(5) Cons.prems(3), of ?r]
  obtain H1 w1 x where
    run1: "(case object_clone w ?r of (c, w2) \<Rightarrow>
         MultiGraph_add_edges_from_step MultiGraph_add_edge_impl (JRef a0) (E4 ?u ?v ?k c) (H, w2))
        = Some (Inr (), H1, w1)"
    and b1: "built F U H1 w1" and k1: "keyed F K H1 w1" and gh1: "graph_hash H1 = graph_hash H"
    and me1: "\<forall>a b k'. medge H1 w1 a b k' = (if {a, b} = {?u, ?v} \<and> k' = ?k then Some (JRef x) else medge H w a b k')"
    and fw1: "fresh w \<le> fresh w1" and Fx: "F \<le> x"
    and fr1: "\<forall>y. y < fresh w \<and> y \<noteq> x \<longrightarrow> dicts w1 y = dicts w y"
    and new1: "medge H w ?u ?v ?k = None \<longrightarrow> fresh w \<le> x
          \<and> props w1 (JRef x) = assigned (assigned (props w ?r) []) []"
    and dm1: "dom (lookup (adj' H1)) = insert ?u (insert ?v (dom (lookup (adj' H))))"
    by (elim exE conjE) (rule that, assumption+)
  have me1': "medge H1 w1 a b k' = (if Q t = ({a, b}, k') then Some (JRef x) else medge H w a b k')" for a b k'
    unfolding me1 [rule_format] Qt by auto
  have step: "relabel_keyed_edge MultiGraph_add_edge_impl (JRef a0) m (E4 (fst t) (fst (snd t)) ?k ?r) (H, w)
      = Some (Inr (), H1, w1)"
    using run1 [unfolded assms(9)] by (simp add: relabel_keyed_edge_def Let_def)
  have frF: "\<forall>y<F. dicts w1 y = dicts w y" using fr1 Fx Fw by auto
  then have a1: "dicts w1 a0 = Some []" using assms(5) Cons.prems(3) by simp
  from Cons.prems(4,5) have p3: "\<forall>t\<in>set ts. fst (Q t) \<subseteq> U \<and> snd (Q t) \<in> K"
    and p4: "\<forall>t\<in>set ts. \<forall>y. snd (snd (snd t)) = JRef y \<longrightarrow> y < F"
    by simp_all
  from Cons.IH [OF b1 k1 a1 p3 p4] obtain H' w' where
    run: "forEach_option (relabel_keyed_edge MultiGraph_add_edge_impl (JRef a0) m)
                    (map (\<lambda>t. E4 (fst t) (fst (snd t)) (fst (snd (snd t))) (snd (snd (snd t)))) ts) (H1, w1)
            = Some (Inr (), H', w')"
    and b': "built F U H' w'" and k': "keyed F K H' w'" and gh: "graph_hash H' = graph_hash H1"
    and fw: "fresh w1 \<le> fresh w'"
    and frF': "\<forall>y<F. dicts w' y = dicts w1 y"
    and ne: "\<forall>a b k. medge H' w' a b k \<noteq> None \<longleftrightarrow> medge H1 w1 a b k \<noteq> None \<or> (\<exists>t\<in>set ts. Q t = ({a, b}, k))"
    and same: "\<forall>a b k. (\<forall>t\<in>set ts. Q t \<noteq> ({a, b}, k)) \<longrightarrow> medge H' w' a b k = medge H1 w1 a b k"
    and dm: "dom (lookup (adj' H')) = dom (lookup (adj' H1)) \<union> \<Union> ((fst \<circ> Q) ` set ts)"
    and inj: "distinct (map Q ts) \<and> (\<forall>t\<in>set ts. medge H1 w1 (f (fst t)) (f (fst (snd t))) (fst (snd (snd t))) = None) \<longrightarrow>
          (\<forall>y<fresh w1. dicts w' y = dicts w1 y)
        \<and> (\<forall>t\<in>set ts. \<exists>x. medge H' w' (f (fst t)) (f (fst (snd t))) (fst (snd (snd t))) = Some (JRef x) \<and> fresh w1 \<le> x
               \<and> props w' (JRef x) = assigned (assigned (props w1 (snd (snd (snd t)))) []) [])"
    by (elim exE conjE) (rule that, assumption+)
  have c1: "forEach_option (relabel_keyed_edge MultiGraph_add_edge_impl (JRef a0) m)
                (map (\<lambda>t. E4 (fst t) (fst (snd t)) (fst (snd (snd t))) (snd (snd (snd t)))) (t # ts)) (H, w)
            = Some (Inr (), H', w')"
    by (simp add: step run)
  have c2: "graph_hash H' = graph_hash H" by (simp add: gh gh1)
  have c3: "fresh w \<le> fresh w'" using fw fw1 by simp
  have c4: "\<forall>y<F. dicts w' y = dicts w y" using frF frF' by simp
  have c5: "\<forall>a b k. medge H' w' a b k \<noteq> None \<longleftrightarrow> medge H w a b k \<noteq> None \<or> (\<exists>t\<in>set (t # ts). Q t = ({a, b}, k))"
    unfolding ne [rule_format] me1' by auto
  have c6: "\<forall>a b k. (\<forall>t\<in>set (t # ts). Q t \<noteq> ({a, b}, k)) \<longrightarrow> medge H' w' a b k = medge H w a b k"
    using same by (simp add: me1')
  have c7: "dom (lookup (adj' H')) = dom (lookup (adj' H)) \<union> \<Union> ((fst \<circ> Q) ` set (t # ts))"
    unfolding dm dm1 by (auto simp: Qt)
  have c8: "(\<forall>y<fresh w. dicts w' y = dicts w y)
        \<and> (\<forall>t\<in>set (t # ts). \<exists>x. medge H' w' (f (fst t)) (f (fst (snd t))) (fst (snd (snd t))) = Some (JRef x) \<and> fresh w \<le> x
               \<and> props w' (JRef x) = assigned (assigned (props w (snd (snd (snd t)))) []) [])"
    if q: "distinct (map Q (t # ts)) \<and> (\<forall>t\<in>set (t # ts). medge H w (f (fst t)) (f (fst (snd t))) (fst (snd (snd t))) = None)"
  proof -
    from q have d: "distinct (map Q ts)" and qn: "Q t \<notin> Q ` set ts"
      and n0: "medge H w ?u ?v ?k = None"
      and nr: "\<forall>t\<in>set ts. medge H w (f (fst t)) (f (fst (snd t))) (fst (snd (snd t))) = None"
      by simp_all
    from qn have nt: "\<forall>t'\<in>set ts. Q t' \<noteq> Q t" by (metis image_eqI)
    from new1 n0 have xw: "fresh w \<le> x" and px: "props w1 (JRef x) = assigned (assigned (props w ?r) []) []"
      by simp_all
    have "\<forall>t'\<in>set ts. medge H1 w1 (f (fst t')) (f (fst (snd t'))) (fst (snd (snd t'))) = None"
    proof
      fix t' assume t': "t' \<in> set ts"
      with nt have "Q t \<noteq> ({f (fst t'), f (fst (snd t'))}, fst (snd (snd t')))"
        by (auto simp: Q_def keyed_pair_of_def)
      with nr t' show "medge H1 w1 (f (fst t')) (f (fst (snd t'))) (fst (snd (snd t'))) = None" by (simp add: me1')
    qed
    with inj d have i1: "\<forall>y<fresh w1. dicts w' y = dicts w1 y"
      and i2: "\<forall>t\<in>set ts. \<exists>x. medge H' w' (f (fst t)) (f (fst (snd t))) (fst (snd (snd t))) = Some (JRef x) \<and> fresh w1 \<le> x
               \<and> props w' (JRef x) = assigned (assigned (props w1 (snd (snd (snd t)))) []) []"
      by simp_all
    have f1: "\<forall>y<fresh w. dicts w' y = dicts w y"
    proof (intro allI impI)
      fix y assume y: "y < fresh w"
      with fw1 i1 have "dicts w' y = dicts w1 y" by simp
      also from y xw fr1 have "\<dots> = dicts w y" by simp
      finally show "dicts w' y = dicts w y" .
    qed
    have hd: "\<exists>x. medge H' w' ?u ?v ?k = Some (JRef x) \<and> fresh w \<le> x
               \<and> props w' (JRef x) = assigned (assigned (props w ?r) []) []"
    proof -
      from nt have "\<forall>t'\<in>set ts. Q t' \<noteq> ({?u, ?v}, ?k)" by (simp add: Qt)
      with same have "medge H' w' ?u ?v ?k = medge H1 w1 ?u ?v ?k" by blast
      also have "\<dots> = Some (JRef x)" by (simp add: me1' Qt)
      finally have e: "medge H' w' ?u ?v ?k = Some (JRef x)" .
      have e1: "medge H1 w1 ?u ?v ?k = Some (JRef x)" by (simp add: me1' Qt)
      have "x < fresh w1"
      proof -
        from e1 obtain p km where p: "nbr H1 ?u ?v = Some (JRef p)" "keymaps w1 p = Some km" "lookup km ?k = Some (JRef x)"
          by (auto simp: medge_def split: option.splits jsval.splits)
        from keyedD [OF k1 p(1)] p(2) have "keymap_ok F K H1 w1 km" by auto
        with p(3) show ?thesis unfolding keymap_ok_def by blast
      qed
      with i1 have "dicts w' x = dicts w1 x" by simp
      then have "props w' (JRef x) = props w1 (JRef x)" by (simp add: props_def)
      with e xw px show ?thesis by simp
    qed
    have tl: "\<exists>x. medge H' w' (f (fst t')) (f (fst (snd t'))) (fst (snd (snd t'))) = Some (JRef x) \<and> fresh w \<le> x
               \<and> props w' (JRef x) = assigned (assigned (props w (snd (snd (snd t')))) []) []"
      if t': "t' \<in> set ts" for t'
    proof -
      from i2 t' obtain x' where x': "medge H' w' (f (fst t')) (f (fst (snd t'))) (fst (snd (snd t'))) = Some (JRef x')"
        "fresh w1 \<le> x'" "props w' (JRef x') = assigned (assigned (props w1 (snd (snd (snd t')))) []) []"
        by blast
      have "props w1 (snd (snd (snd t'))) = props w (snd (snd (snd t')))"
      proof (rule props_frame)
        fix y assume "snd (snd (snd t')) = JRef y"
        with p4 t' have "y < F" by blast
        with frF show "dicts w1 y = dicts w y" by simp
      qed
      with x' fw1 show ?thesis by auto
    qed
    from f1 hd tl show ?thesis by simp
  qed
  from c1 b' k' c2 c3 c4 c5 c6 c7 c8 show ?case
    by (intro exI [of _ H'] exI [of _ w'] conjI impI) (assumption | (rule c8 [THEN conjunct1], assumption) | (rule c8 [THEN conjunct2], assumption))+
qed

lemma nested_chain_all:
  assumes "\<And>x s. x \<in> set xs \<Longrightarrow> f1 x s = (Inr (ys x, \<lambda>s1. s1), st x)"
    and "\<And>x y. f2 y (st x) = Some (g x y)"
  shows "nested_chain xs f1 f2 s = Inr (concat (map (\<lambda>x. map (g x) (ys x)) xs))"
  using assms(1)
proof (induction xs arbitrary: s)
  case Nil
  show ?case by simp
next
  case (Cons x xs)
  have "nested_chain xs f1 f2 (st x) = Inr (concat (map (\<lambda>x. map (g x) (ys x)) xs))"
    by (rule Cons.IH) (simp add: Cons.prems)
  then show ?case by (simp add: Cons.prems assms(2) map_filter_def)
qed

lemma distinct_concat_map:
  assumes "distinct (map g xs)"
    and "\<And>x. x \<in> set xs \<Longrightarrow> distinct (map h (F x))"
    and "\<And>x y. x \<in> set xs \<Longrightarrow> y \<in> set (F x) \<Longrightarrow> pr (h y) = g x"
  shows "distinct (map h (concat (map F xs)))"
  using assms
proof (induction xs)
  case Nil
  show ?case by simp
next
  case (Cons x xs)
  have "distinct (map h (concat (map F xs)))" by (rule Cons.IH) (use Cons.prems in auto)
  moreover have "distinct (map h (F x))" by (rule Cons.prems(2)) simp
  moreover have "h y \<noteq> h z" if "y \<in> set (F x)" and "z \<in> set (concat (map F xs))" for y z
  proof
    assume e: "h y = h z"
    from that(2) obtain x' where x': "x' \<in> set xs" "z \<in> set (F x')" by auto
    from Cons.prems(3) [of x y] that(1) have "pr (h y) = g x" by simp
    moreover from Cons.prems(3) [of x' z] x' have "pr (h z) = g x'" by simp
    ultimately have "g x = g x'" using e by simp
    with Cons.prems(1) x'(1) show False by auto
  qed
  ultimately show ?case by (auto simp: distinct_map)
qed

lemma in_concat_map: "y \<in> set (concat (map F xs)) \<longleftrightarrow> (\<exists>x\<in>set xs. y \<in> set (F x))"
  by auto

text \<open>
  The keyed edges \<^verbatim>\<open>[u, v, key, data]\<close> of a multigraph as \<^verbatim>\<open>edges_iter(true, true)\<close>
  yields them: for each pair of neighbours, in the order of the edge iterator of Graph,
  the entries of its key-map.
\<close>

definition keyed_edges :: "'z graph_scheme \<Rightarrow> world \<Rightarrow> (key \<times> key \<times> key \<times> jsval) list" where
  "keyed_edges g w =
     concat (map (\<lambda>t. case the_keymap w (Some (snd (snd t))) of
                         Some (a, km) \<Rightarrow> map (\<lambda>e. (fst t, fst (snd t), fst e, snd e)) (entries km)
                       | None \<Rightarrow> [])
                 (edge_triples g))"

lemma keyed_edges_facts:
  assumes ok: "graph_ok g"
    and km: "\<forall>a b r. nbr g a b = Some r \<longrightarrow> (\<exists>p km. r = JRef p \<and> keymaps w p = Some km \<and> hm_ok km)"
  shows "MultiGraph_edges_iter g w None True True
      = Inr (map (\<lambda>t. E4 (fst t) (fst (snd t)) (fst (snd (snd t))) (snd (snd (snd t)))) (keyed_edges g w))"
    and "\<And>t. t \<in> set (keyed_edges g w)
          \<Longrightarrow> medge g w (fst t) (fst (snd t)) (fst (snd (snd t))) = Some (snd (snd (snd t)))"
    and "\<And>u v k. medge g w u v k \<noteq> None
          \<Longrightarrow> \<exists>t\<in>set (keyed_edges g w). ((fst t = u \<and> fst (snd t) = v) \<or> (fst t = v \<and> fst (snd t) = u))
                 \<and> fst (snd (snd t)) = k"
    and "distinct (map (\<lambda>t. (fst t, fst (snd t), fst (snd (snd t)))) (keyed_edges g w))"
    and "\<And>t t'. t \<in> set (keyed_edges g w) \<Longrightarrow> t' \<in> set (keyed_edges g w)
          \<Longrightarrow> fst t = fst (snd t') \<Longrightarrow> fst (snd t) = fst t' \<Longrightarrow> fst t = fst (snd t)"
proof -
  let ?ts = "edge_triples g"
  let ?F = "\<lambda>t :: key \<times> key \<times> jsval. case the_keymap w (Some (snd (snd t))) of
                         Some (a, km) \<Rightarrow> map (\<lambda>e. (fst t, fst (snd t), fst e, snd e)) (entries km)
                       | None \<Rightarrow> []"
  note tf = edge_triples_facts [OF ok]
  have tk: "\<exists>p km. snd (snd t) = JRef p \<and> keymaps w p = Some km \<and> hm_ok km
              \<and> nbr g (fst t) (fst (snd t)) = Some (JRef p)" if "t \<in> set ?ts" for t
    using km tf(2) [OF that] by fastforce
  have mem: "t' \<in> set (keyed_edges g w) \<longleftrightarrow>
      (\<exists>t\<in>set ?ts. \<exists>p km. snd (snd t) = JRef p \<and> keymaps w p = Some km
          \<and> fst t' = fst t \<and> fst (snd t') = fst (snd t)
          \<and> lookup km (fst (snd (snd t'))) = Some (snd (snd (snd t'))))" for t'
  proof
    assume "t' \<in> set (keyed_edges g w)"
    then obtain t where t: "t \<in> set ?ts" "t' \<in> set (?F t)"
      unfolding keyed_edges_def in_concat_map by blast
    from tk [OF t(1)] obtain p km where p: "snd (snd t) = JRef p" "keymaps w p = Some km" "hm_ok km" by blast
    from t(2) p have "\<exists>e\<in>set (entries km). t' = (fst t, fst (snd t), fst e, snd e)"
      by (auto simp: the_keymap_def)
    then obtain e where e: "e \<in> set (entries km)" "t' = (fst t, fst (snd t), fst e, snd e)" by blast
    from e(1) have "lookup km (fst e) = Some (snd e)" by (simp add: set_entries [OF p(3)] case_prod_beta)
    with e(2) have "snd (snd t) = JRef p \<and> keymaps w p = Some km
          \<and> fst t' = fst t \<and> fst (snd t') = fst (snd t)
          \<and> lookup km (fst (snd (snd t'))) = Some (snd (snd (snd t')))"
      using p by simp
    with t(1) show "\<exists>t\<in>set ?ts. \<exists>p km. snd (snd t) = JRef p \<and> keymaps w p = Some km
          \<and> fst t' = fst t \<and> fst (snd t') = fst (snd t)
          \<and> lookup km (fst (snd (snd t'))) = Some (snd (snd (snd t')))"
      by blast
  next
    assume "\<exists>t\<in>set ?ts. \<exists>p km. snd (snd t) = JRef p \<and> keymaps w p = Some km
          \<and> fst t' = fst t \<and> fst (snd t') = fst (snd t)
          \<and> lookup km (fst (snd (snd t'))) = Some (snd (snd (snd t')))"
    then obtain t p km where t: "t \<in> set ?ts" "snd (snd t) = JRef p" "keymaps w p = Some km"
      "fst t' = fst t" "fst (snd t') = fst (snd t)" "lookup km (fst (snd (snd t'))) = Some (snd (snd (snd t')))"
      by blast
    from tk [OF t(1)] t(2,3) have hm: "hm_ok km" by auto
    have "(fst (snd (snd t')), snd (snd (snd t'))) \<in> set (entries km)" using t(6) by (simp add: set_entries [OF hm] case_prod_beta)
    then have "(fst t, fst (snd t), fst (snd (snd t')), snd (snd (snd t'))) \<in> set (?F t)"
      using t(2,3) by (force simp: the_keymap_def)
    moreover have "t' = (fst t, fst (snd t), fst (snd (snd t')), snd (snd (snd t')))"
      using t(4,5) by (metis prod.collapse)
    ultimately show "t' \<in> set (keyed_edges g w)" using t(1)
      unfolding keyed_edges_def in_concat_map by auto
  qed
  show "MultiGraph_edges_iter g w None True True
      = Inr (map (\<lambda>t. E4 (fst t) (fst (snd t)) (fst (snd (snd t))) (snd (snd (snd t)))) (keyed_edges g w))"
  proof -
    let ?f1 = "\<lambda>nd (s :: key \<times> key). case nd of
                          E3 n b kd \<Rightarrow>
                            (case the_keymap w (Some kd) of
                               None \<Rightarrow> (Inl TypeError, (n, b))
                             | Some (a, km) \<Rightarrow>
                                 (case getEntries km of
                                    Inl e \<Rightarrow> (Inl e, (n, b))
                                  | Inr es \<Rightarrow> (Inr (es, \<lambda>s1. s1), (n, b))))
                        | _ \<Rightarrow> (Inl NotModelled, s)"
    let ?f2 = "\<lambda>(edata :: key \<times> jsval) (s :: key \<times> key). Some (E4 (fst s) (snd s) (fst edata) (snd edata))"
    let ?E = "\<lambda>t :: key \<times> key \<times> jsval. E3 (fst t) (fst (snd t)) (snd (snd t))"
    let ?ys = "\<lambda>nd. case nd of E3 n b kd \<Rightarrow> (case the_keymap w (Some kd) of Some (a, km) \<Rightarrow> entries km | None \<Rightarrow> []) | _ \<Rightarrow> []"
    let ?st = "\<lambda>nd. case nd of E3 n b kd \<Rightarrow> (n, b) | _ \<Rightarrow> (KNull, KNull)"
    let ?g = "\<lambda>nd (edata :: key \<times> jsval). E4 (fst (?st nd)) (snd (?st nd)) (fst edata) (snd edata)"
    have one: "?f1 x s = (Inr (?ys x, \<lambda>s1. s1), ?st x)" if "x \<in> set (map ?E ?ts)" for x s
    proof -
      from that obtain t where t: "t \<in> set ?ts" "x = ?E t" by auto
      from tk [OF t(1)] obtain p km where p: "snd (snd t) = JRef p" "keymaps w p = Some km" "hm_ok km" by blast
      show ?thesis by (simp add: t(2) p the_keymap_def getEntries_entries [OF p(3)])
    qed
    have "nested_chain (map ?E ?ts) ?f1 ?f2 (KNull, KNull)
        = Inr (concat (map (\<lambda>x. map (?g x) (?ys x)) (map ?E ?ts)))"
      by (rule nested_chain_all) (simp_all add: one)
    also have "concat (map (\<lambda>x. map (?g x) (?ys x)) (map ?E ?ts))
        = map (\<lambda>t. E4 (fst t) (fst (snd t)) (fst (snd (snd t))) (snd (snd (snd t)))) (keyed_edges g w)"
      unfolding keyed_edges_def map_concat map_map
      by (rule arg_cong [where f = concat], rule map_cong) (auto split: option.splits)
    finally show ?thesis
      by (simp add: MultiGraph_edges_iter_def tf(1))
  qed
  show m2: "medge g w (fst t) (fst (snd t)) (fst (snd (snd t))) = Some (snd (snd (snd t)))"
    if "t \<in> set (keyed_edges g w)" for t
  proof -
    from that [unfolded mem] obtain t0 p km where t0: "t0 \<in> set ?ts" "snd (snd t0) = JRef p" "keymaps w p = Some km"
      "fst t = fst t0" "fst (snd t) = fst (snd t0)" "lookup km (fst (snd (snd t))) = Some (snd (snd (snd t)))"
      by blast
    from tf(2) [OF t0(1)] t0(2,4,5) have "nbr g (fst t) (fst (snd t)) = Some (JRef p)" by simp
    with t0(3,6) show ?thesis by (simp add: medge_def)
  qed
  show "\<exists>t\<in>set (keyed_edges g w). ((fst t = u \<and> fst (snd t) = v) \<or> (fst t = v \<and> fst (snd t) = u))
                 \<and> fst (snd (snd t)) = k"
    if "medge g w u v k \<noteq> None" for u v k
  proof -
    from that obtain p km r where p: "nbr g u v = Some (JRef p)" "keymaps w p = Some km" "lookup km k = Some r"
      by (auto simp: medge_def split: option.splits jsval.splits)
    from p(1) have "nbr g u v \<noteq> None" by simp
    from tf(3) [OF this] obtain t where t: "t \<in> set ?ts"
      "(fst t = u \<and> fst (snd t) = v) \<or> (fst t = v \<and> fst (snd t) = u)" by blast
    from tf(2) [OF t(1)] have n: "nbr g (fst t) (fst (snd t)) = Some (snd (snd t))" .
    have "snd (snd t) = JRef p"
      using t(2) n p(1) nbr_sym [OF ok p(1)] by auto
    with t(1) p(2,3) have "(fst t, fst (snd t), k, r) \<in> set (keyed_edges g w)"
      unfolding mem by auto
    with t(2) show ?thesis by force
  qed
  show "distinct (map (\<lambda>t. (fst t, fst (snd t), fst (snd (snd t)))) (keyed_edges g w))"
    unfolding keyed_edges_def
  proof (rule distinct_concat_map [where g = "\<lambda>t. (fst t, fst (snd t))" and pr = "\<lambda>q. (fst q, fst (snd q))"])
    show "distinct (map (\<lambda>t. (fst t, fst (snd t))) ?ts)" by (rule tf(4))
  next
    fix x assume x: "x \<in> set ?ts"
    from tk [OF x] obtain p km where p: "snd (snd x) = JRef p" "keymaps w p = Some km" "hm_ok km" by blast
    have "map (\<lambda>t. (fst t, fst (snd t), fst (snd (snd t)))) (?F x)
        = map (\<lambda>k. (fst x, fst (snd x), k)) (map fst (entries km))"
      by (simp add: p the_keymap_def comp_def)
    moreover have "distinct (map (\<lambda>k. (fst x, fst (snd x), k)) (map fst (entries km)))"
      using distinct_entries [OF p(3)] by (simp add: distinct_map inj_on_def)
    ultimately show "distinct (map (\<lambda>t. (fst t, fst (snd t), fst (snd (snd t)))) (?F x))" by simp
  next
    fix x y assume "x \<in> set ?ts" and "y \<in> set (?F x)"
    then show "(fst (fst y, fst (snd y), fst (snd (snd y))), fst (snd (fst y, fst (snd y), fst (snd (snd y)))))
        = (fst x, fst (snd x))"
      by (auto split: option.splits)
  qed
  show "fst t = fst (snd t)"
    if "t \<in> set (keyed_edges g w)" "t' \<in> set (keyed_edges g w)" "fst t = fst (snd t')" "fst (snd t) = fst t'"
    for t t'
  proof -
    from that(1) [unfolded mem] obtain t0 where t0: "t0 \<in> set ?ts" "fst t = fst t0" "fst (snd t) = fst (snd t0)"
      by blast
    from that(2) [unfolded mem] obtain t1 where t1: "t1 \<in> set ?ts" "fst t' = fst t1" "fst (snd t') = fst (snd t1)"
      by blast
    from tf(5) [OF t0(1) t1(1)] that(3,4) t0(2,3) t1(2,3) show ?thesis by simp
  qed
qed

subsection \<open>The whole call\<close>

lemma relabel_copy_nodes_built:
  fixes f :: "key \<Rightarrow> key"
  assumes f: "f = mapping_get m" and b: "built F U H2 w2" and hn: "hm_ok (nodes' G)"
    and U: "f ` dom (lookup (nodes' G)) \<subseteq> U"
  shows "\<exists>H4 w4. relabel_copy_nodes Graph_add_node_impl G m H2 w2 = (Inr H4, w4)
     \<and> built F U H4 w4 \<and> nbr H4 = nbr H2 \<and> fresh w2 \<le> fresh w4
     \<and> (\<forall>y. y < F \<or> edge_addr H2 y \<longrightarrow> dicts w4 y = dicts w2 y)
     \<and> node_frame H2 w2 H4 w4"
proof -
  have ns: "nodes G = Inr (map fst (entries (nodes' G)))" by (simp add: nodes_def getEntries_entries [OF hn])
  have nd: "nodes_data G = Inr (entries (nodes' G))" by (simp add: nodes_data_def getEntries_entries [OF hn])
  have keys: "fst ` set (entries (nodes' G)) = dom (lookup (nodes' G))" using hn by (rule fst_entries)
  let ?l1 = "map ((\<lambda>n. Node (f n)) \<circ> fst) (entries (nodes' G))"
  let ?l2 = "map (\<lambda>entry. NodeAttr (f (fst entry)) (snd entry)) (entries (nodes' G))"
  have k1: "\<forall>n\<in>set ?l1. node_key n \<in> U" using keys U by auto
  have k2: "\<forall>n\<in>set ?l2. node_key n \<in> U" using keys U by auto
  from add_nodes_from_built [OF b k1] obtain H3 w3 where
    r3: "add_nodes_from Graph_add_node_impl H2 w2 ?l1 JUndefined = (Inr (), H3, w3)"
    and b3: "built F U H3 w3" and nb3: "nbr H3 = nbr H2" and fw3: "fresh w2 \<le> fresh w3"
    and fr3: "\<forall>y. y < F \<or> edge_addr H2 y \<longrightarrow> dicts w3 y = dicts w2 y"
    and dm3: "dom (lookup (adj' H3)) = dom (lookup (adj' H2)) \<union> node_key ` set ?l1"
    and nf3: "node_frame H2 w2 H3 w3"
    by (elim exE conjE) (rule that, assumption+)
  from add_nodes_from_built [OF b3 k2] obtain H4 w4 where
    r4: "add_nodes_from Graph_add_node_impl H3 w3 ?l2 JUndefined = (Inr (), H4, w4)"
    and b4: "built F U H4 w4" and nb4: "nbr H4 = nbr H3" and fw4: "fresh w3 \<le> fresh w4"
    and fr4: "\<forall>y. y < F \<or> edge_addr H3 y \<longrightarrow> dicts w4 y = dicts w3 y"
    and dm4: "dom (lookup (adj' H4)) = dom (lookup (adj' H3)) \<union> node_key ` set ?l2"
    and nf4: "node_frame H3 w3 H4 w4"
    by (elim exE conjE) (rule that, assumption+)
  have e3: "edge_addr H3 = edge_addr H2" using nb3 by (rule edge_addr_cong)
  have run: "relabel_copy_nodes Graph_add_node_impl G m H2 w2 = (Inr H4, w4)"
    by (simp add: relabel_copy_nodes_def ns nd r3 [unfolded f] r4 [unfolded f])
  have nf: "node_frame H2 w2 H4 w4" using nf3 fw3 nf4 by (rule node_frame_trans)
  have fr: "\<forall>y. y < F \<or> edge_addr H2 y \<longrightarrow> dicts w4 y = dicts w2 y"
    using fr3 fr4 unfolding e3 by simp
  have fw: "fresh w2 \<le> fresh w4" using fw3 fw4 by simp
  have nb: "nbr H4 = nbr H2" by (simp add: nb3 nb4)
  from run b4 nb fw fr nf show ?thesis
    by (intro exI [of _ H4] exI [of _ w4] conjI) assumption+
qed

lemma the_keymap_cong: "keymaps w' = keymaps w \<Longrightarrow> the_keymap w' = the_keymap w"
  by (intro ext) (simp add: the_keymap_def split: option.splits jsval.splits)

lemma keyed_edges_cong:
  assumes "keymaps w' = keymaps w"
  shows "keyed_edges g w' = keyed_edges g w"
  unfolding keyed_edges_def the_keymap_cong [OF assms] ..

lemma keyed_empty:
  assumes "dom (keymaps w) \<subseteq> {..<fresh w}" and "nbr H = (\<lambda>a b. None)"
  shows "keyed F K H w"
  using assms by (simp add: keyed_def)

lemma medgeD:
  assumes "keyed F K H w" and "medge H w a b k = Some r"
  shows "\<exists>x. r = JRef x \<and> F \<le> x \<and> x < fresh w \<and> \<not> node_addr H x"
proof -
  from assms(2) obtain p km where p: "nbr H a b = Some (JRef p)" "keymaps w p = Some km" "lookup km k = Some r"
    by (auto simp: medge_def split: option.splits jsval.splits)
  from keyedD [OF assms(1) p(1)] p(2) have "keymap_ok F K H w km" by auto
  with p(3) show ?thesis unfolding keymap_ok_def by blast
qed

lemma MultiGraph_relabel_copy_run:
  fixes f :: "key \<Rightarrow> key" and G :: graph
  defines "N \<equiv> dom (lookup (nodes' G))"
  assumes f: "f = mapping_get m" and ok: "graph_ok G" and sw: "store_ok w"
    and kw: "dom (keymaps w) \<subseteq> {..<fresh w}"
    and kms: "\<forall>a b r. nbr G a b = Some r \<longrightarrow> (\<exists>p km. r = JRef p \<and> keymaps w p = Some km \<and> hm_ok km)"
    and al: "\<forall>t\<in>set (keyed_edges G w). \<forall>y. snd (snd (snd t)) = JRef y \<longrightarrow> y < fresh w"
    and K: "keys_ok K" and kK: "\<forall>t\<in>set (keyed_edges G w). fst (snd (snd t)) \<in> K"
    and inj: "inj_on (keyHash (nodes' G)) (f ` N)"
    and df: "\<forall>n\<in>N. isDef (f n) \<and> \<not> isArray (f n)"
  shows "\<exists>H w'. MultiGraph_relabel_copy G w m = Some (Inr H, w')
     \<and> built (fresh w + 1) (f ` N) H w' \<and> keyed (fresh w + 1) K H w'
     \<and> (\<forall>y<fresh w. dicts w' y = dicts w y)
     \<and> (\<forall>a b k. medge H w' a b k \<noteq> None \<longleftrightarrow> (\<exists>t\<in>set (keyed_edges G w). keyed_pair_of f t = ({a, b}, k)))
     \<and> (distinct (map (keyed_pair_of f) (keyed_edges G w)) \<longrightarrow>
          (\<forall>t\<in>set (keyed_edges G w). \<exists>x. medge H w' (f (fst t)) (f (fst (snd t))) (fst (snd (snd t))) = Some (JRef x)
             \<and> fresh w \<le> x
             \<and> props w' (JRef x) = assigned (assigned (props w (snd (snd (snd t)))) []) []))"
proof -
  let ?U = "f ` N"
  let ?F = "fresh w + 1"
  let ?w1 = "snd (new_object w [])"
  define H0 where "H0 = set_name (Graph_empty (graph' G) (graph_hash G)) (''('' @ name G @ '')'')"
  let ?ts = "keyed_edges G w"
  from ok have hn: "hm_ok (nodes' G)" and ha: "hm_ok (adj' G)" and on: "opts_hash (nodes' G) = graph_hash G"
    and dn: "dom (lookup (nodes' G)) = dom (lookup (adj' G))"
    by (simp_all add: graph_ok_def)
  have kh: "keyHash (HashMap (graph_hash G) :: unit hashmap) = keyHash (nodes' G)"
    by (rule keyHash_cong) (simp add: on)
  have U: "\<forall>k\<in>?U. isDef k \<and> \<not> isArray k" using df by auto
  have inj0: "inj_on (keyHash (HashMap (graph_hash G) :: unit hashmap)) ?U" unfolding kh by (rule inj)
  have s1: "store_ok ?w1" using sw by simp
  have Fle: "?F \<le> fresh ?w1" by simp
  note e0 = built_empty [OF inj0 U s1 Fle, of "graph' G" "''('' @ name G @ '')''", folded H0_def]
  have k0: "keyed ?F K H0 ?w1" using kw e0(2) by (intro keyed_empty) auto
  have start: "add_edges_from_start w JUndefined = (Inr (JRef (fresh w)), ?w1)"
    by (simp add: add_edges_from_start_def truthy_def is_object_def case_new_object)
  have a0: "fresh w < ?F" by simp
  have d0: "dicts ?w1 (fresh w) = Some []" by simp
  note kf = keyed_edges_facts [OF ok kms]
  have inN: "fst t \<in> N \<and> fst (snd t) \<in> N" if "t \<in> set ?ts" for t
  proof -
    from kf(2) [OF that] have "nbr G (fst t) (fst (snd t)) \<noteq> None"
      by (auto simp: medge_def split: option.splits)
    then obtain r where "nbr G (fst t) (fst (snd t)) = Some r" by blast
    from nbr_dom [OF ok this] show ?thesis by (simp add: N_def dn)
  qed
  have pU: "\<forall>t\<in>set ?ts. fst (keyed_pair_of f t) \<subseteq> ?U \<and> snd (keyed_pair_of f t) \<in> K"
  proof
    fix t assume t: "t \<in> set ?ts"
    from inN [OF t] kK t show "fst (keyed_pair_of f t) \<subseteq> ?U \<and> snd (keyed_pair_of f t) \<in> K"
      by (simp add: keyed_pair_of_def)
  qed
  have alF: "\<forall>t\<in>set ?ts. \<forall>y. snd (snd (snd t)) = JRef y \<longrightarrow> y < ?F"
  proof (intro ballI allI impI)
    fix t y assume "t \<in> set ?ts" and "snd (snd (snd t)) = JRef y"
    with al have "y < fresh w" by blast
    then show "y < ?F" by simp
  qed
  from relabel_keyed_edges_built [OF e0(1) k0 K a0 d0 pU alF f] obtain H2 w2 where
    r2: "forEach_option (relabel_keyed_edge MultiGraph_add_edge_impl (JRef (fresh w)) m)
            (map (\<lambda>t. E4 (fst t) (fst (snd t)) (fst (snd (snd t))) (snd (snd (snd t)))) ?ts) (H0, ?w1)
          = Some (Inr (), H2, w2)"
    and b2: "built ?F ?U H2 w2" and k2: "keyed ?F K H2 w2" and fw2: "fresh ?w1 \<le> fresh w2"
    and fr2: "\<forall>y<?F. dicts w2 y = dicts ?w1 y"
    and ne2: "\<forall>a b k. medge H2 w2 a b k \<noteq> None \<longleftrightarrow> medge H0 ?w1 a b k \<noteq> None \<or> (\<exists>t\<in>set ?ts. keyed_pair_of f t = ({a, b}, k))"
    and in2: "distinct (map (keyed_pair_of f) ?ts)
          \<and> (\<forall>t\<in>set ?ts. medge H0 ?w1 (f (fst t)) (f (fst (snd t))) (fst (snd (snd t))) = None) \<longrightarrow>
          (\<forall>y<fresh ?w1. dicts w2 y = dicts ?w1 y)
        \<and> (\<forall>t\<in>set ?ts. \<exists>x. medge H2 w2 (f (fst t)) (f (fst (snd t))) (fst (snd (snd t))) = Some (JRef x) \<and> fresh ?w1 \<le> x
               \<and> props w2 (JRef x) = assigned (assigned (props ?w1 (snd (snd (snd t)))) []) [])"
    by (elim exE conjE) (rule that, assumption+)
  have m0: "medge H0 ?w1 a b k = None" for a b k by (simp add: medge_def e0(2))
  have UN: "f ` dom (lookup (nodes' G)) \<subseteq> ?U" by (simp add: N_def)
  from relabel_copy_nodes_built [OF f b2 hn UN] obtain H4 w4 where
    r4: "relabel_copy_nodes Graph_add_node_impl G m H2 w2 = (Inr H4, w4)"
    and b4: "built ?F ?U H4 w4" and nb4: "nbr H4 = nbr H2" and fw4: "fresh w2 \<le> fresh w4"
    and fr4: "\<forall>y. y < ?F \<or> edge_addr H2 y \<longrightarrow> dicts w4 y = dicts w2 y"
    and nf4: "node_frame H2 w2 H4 w4"
    by (elim exE conjE) (rule that, assumption+)
  from nf4 have km4: "keymaps w4 = keymaps w2"
    and fd4: "\<forall>y. y < fresh w2 \<and> \<not> node_addr H2 y \<longrightarrow> dicts w4 y = dicts w2 y"
    and na4: "\<forall>y. node_addr H4 y \<longrightarrow> node_addr H2 y \<or> fresh w2 \<le> y"
    by (simp_all add: node_frame_def)
  have k4: "keyed ?F K H4 w4" using k2 fw4 km4 nb4 by (rule keyed_mono) (rule na4 [rule_format])
  have me4: "medge H4 w4 = medge H2 w2" using nb4 km4 by (rule medge_cong)
  have H0n: "set_name (Graph_empty (graph' G) (graph_hash G)) (CHR ''('' # name G @ '')'') = H0"
    by (simp add: H0_def)
  have run: "MultiGraph_relabel_copy G w m = Some (Inr H4, w4)"
    by (simp add: MultiGraph_relabel_copy_def relabel_copy_multi_def Let_def H0n start kf(1) r2 r4)
  have frame: "\<forall>y<fresh w. dicts w4 y = dicts w y"
  proof (intro allI impI)
    fix y assume y: "y < fresh w"
    then have "dicts w4 y = dicts w2 y" using fr4 by simp
    also have "\<dots> = dicts ?w1 y" using y fr2 by simp
    also have "\<dots> = dicts w y" using y by simp
    finally show "dicts w4 y = dicts w y" .
  qed
  have edges: "\<forall>a b k. medge H4 w4 a b k \<noteq> None \<longleftrightarrow> (\<exists>t\<in>set ?ts. keyed_pair_of f t = ({a, b}, k))"
    unfolding me4 using ne2 by (simp add: m0)
  have recs: "\<forall>t\<in>set ?ts. \<exists>x. medge H4 w4 (f (fst t)) (f (fst (snd t))) (fst (snd (snd t))) = Some (JRef x)
             \<and> fresh w \<le> x
             \<and> props w4 (JRef x) = assigned (assigned (props w (snd (snd (snd t)))) []) []"
    if d: "distinct (map (keyed_pair_of f) ?ts)"
  proof
    fix t assume t: "t \<in> set ?ts"
    from in2 d have "\<forall>t\<in>set ?ts. \<exists>x. medge H2 w2 (f (fst t)) (f (fst (snd t))) (fst (snd (snd t))) = Some (JRef x) \<and> fresh ?w1 \<le> x
               \<and> props w2 (JRef x) = assigned (assigned (props ?w1 (snd (snd (snd t)))) []) []"
      by (simp add: m0)
    with t obtain x where x: "medge H2 w2 (f (fst t)) (f (fst (snd t))) (fst (snd (snd t))) = Some (JRef x)"
      "fresh ?w1 \<le> x"
      "props w2 (JRef x) = assigned (assigned (props ?w1 (snd (snd (snd t)))) []) []"
      by blast
    have "props ?w1 (snd (snd (snd t))) = props w (snd (snd (snd t)))"
    proof (rule props_frame)
      fix y assume "snd (snd (snd t)) = JRef y"
      with al t have "y < fresh w" by blast
      then show "dicts ?w1 y = dicts w y" by simp
    qed
    with x(3) have p2: "props w2 (JRef x) = assigned (assigned (props w (snd (snd (snd t)))) []) []" by simp
    from medgeD [OF k2 x(1)] have "x < fresh w2" "\<not> node_addr H2 x" by simp_all
    with fd4 have "dicts w4 x = dicts w2 x" by simp
    then have "props w4 (JRef x) = props w2 (JRef x)" by (simp add: props_def)
    moreover from x(2) have "fresh w \<le> x" by simp
    ultimately show "\<exists>x. medge H4 w4 (f (fst t)) (f (fst (snd t))) (fst (snd (snd t))) = Some (JRef x)
             \<and> fresh w \<le> x
             \<and> props w4 (JRef x) = assigned (assigned (props w (snd (snd (snd t)))) []) []"
      using x(1) p2 by (simp add: me4)
  qed
  from run b4 k4 frame edges recs show ?thesis
    by (intro exI [of _ H4] exI [of _ w4] conjI impI) (assumption | (rule recs, assumption))+
qed

text \<open>
  What the statement about copy-mode relabel asks of its input.

  \<open>in_range k\<close>: if \<open>k\<close> is a number, it is an integer of magnitude below \<open>2 ^ 53\<close>, one
  that JavaScript represents exactly and prints with all its digits. \<open>plain_label k\<close>:
  \<open>k\<close> is in range and is neither an array nor a function or other special object, so
  that the property name under which a mapping is asked for \<open>k\<close> is the string form the
  embedding gives.

  \<open>labels_ok G m\<close>: the nodes of \<open>G\<close> are plain labels; their new labels (the mapping's
  value for a node that names a property of the mapping, own or inherited, the node itself
  otherwise) are defined, are not arrays, are in range, and have pairwise distinct hashes
  in the maps of the graph.

  \<open>keyed_record g w u v k\<close> is \<^verbatim>\<open>adj(u).get(v).get(k)\<close>: the record of the edge with
  key \<open>k\<close> between \<open>u\<close> and \<open>v\<close> in a multigraph.

  \<open>Graph_in w G\<close>: \<open>G\<close> is a well-formed simple undirected graph whose node records and
  edge records are records of the proper store \<open>w\<close>. \<open>MultiGraph_in w G\<close>: \<open>G\<close> is a
  well-formed undirected multigraph in the proper store \<open>w\<close>: its node records are records
  of \<open>w\<close>, the value of every pair of neighbours is a key-map of \<open>w\<close> in a proper state,
  every edge key is neither undefined nor \<^verbatim>\<open>null\<close> and in range, every edge record is a
  record of \<open>w\<close>, and the edge keys of \<open>G\<close> have pairwise distinct hashes in a key-map.
\<close>

definition in_range :: "key \<Rightarrow> bool" where
  "in_range k = (case k of KNum i \<Rightarrow> \<bar>i\<bar> < 2 ^ 53 | _ \<Rightarrow> True)"

definition plain_label :: "key \<Rightarrow> bool" where
  "plain_label k = (in_range k \<and> (case k of KArray uid \<Rightarrow> False | KOther uid \<Rightarrow> False | _ \<Rightarrow> True))"

definition labels_ok :: "'z graph_scheme \<Rightarrow> mapping \<Rightarrow> bool" where
  "labels_ok G m \<longleftrightarrow>
     inj_on (keyHash (nodes' G)) (mapping_get m ` dom (lookup (nodes' G)))
     \<and> (\<forall>n\<in>dom (lookup (nodes' G)).
           plain_label n \<and> isDef (mapping_get m n) \<and> \<not> isArray (mapping_get m n) \<and> in_range (mapping_get m n))"

definition keyed_record :: "'z graph_scheme \<Rightarrow> world \<Rightarrow> key \<Rightarrow> key \<Rightarrow> key \<Rightarrow> jsval option" where
  "keyed_record g w u v k =
     (case the_keymap w (edge_record g u v) of
        Some (a, km) \<Rightarrow> (case HashMap_get km k None of Inr r \<Rightarrow> r | Inl e \<Rightarrow> None)
      | None \<Rightarrow> None)"

definition Graph_in :: "world \<Rightarrow> graph \<Rightarrow> bool" where
  "Graph_in w G \<longleftrightarrow>
     graph_ok G \<and> store_ok w
     \<and> (\<forall>n r. lookup (nodes' G) n = Some r \<longrightarrow> (\<exists>y d. r = JRef y \<and> dicts w y = Some d))
     \<and> (\<forall>u v r. edge_record G u v = Some r \<longrightarrow> (\<exists>y d. r = JRef y \<and> dicts w y = Some d))"

definition MultiGraph_in :: "world \<Rightarrow> graph \<Rightarrow> bool" where
  "MultiGraph_in w G \<longleftrightarrow>
     graph_ok G \<and> store_ok w \<and> dom (keymaps w) \<subseteq> {..<fresh w}
     \<and> (\<forall>n r. lookup (nodes' G) n = Some r \<longrightarrow> (\<exists>y d. r = JRef y \<and> dicts w y = Some d))
     \<and> (\<forall>u v r. edge_record G u v = Some r \<longrightarrow> (\<exists>p km. r = JRef p \<and> keymaps w p = Some km \<and> hm_ok km))
     \<and> (\<forall>u v k r. keyed_record G w u v k = Some r \<longrightarrow>
           isDefAndNotNull k \<and> in_range k \<and> (\<exists>y d. r = JRef y \<and> dicts w y = Some d))
     \<and> inj_on (keyHash (HashMap None :: jsval hashmap)) {k. \<exists>u v. keyed_record G w u v k \<noteq> None}"

lemma get_lookup:
  assumes "hm_ok m"
  shows "(case HashMap_get m k None of Inr r \<Rightarrow> r | Inl e \<Rightarrow> None) = lookup m k"
proof (cases "map' m (keyHash m k)")
  case None
  then show ?thesis by (simp add: HashMap_get_def lookup_def)
next
  case (Some e)
  obtain k' x where e: "e = (k', x)" by (cases e)
  from hm_ok_entry [OF assms Some [unfolded e]] have "isDef k'" by simp
  with Some e show ?thesis by (auto simp: HashMap_get_def lookup_def)
qed

lemma keyed_record_medge:
  assumes "graph_ok g"
    and "\<forall>a b r. nbr g a b = Some r \<longrightarrow> (\<exists>p km. r = JRef p \<and> keymaps w p = Some km \<and> hm_ok km)"
  shows "keyed_record g w u v k = medge g w u v k"
proof (cases "nbr g u v")
  case None
  then show ?thesis by (simp add: keyed_record_def medge_def edge_record_nbr [OF assms(1)] the_keymap_def)
next
  case (Some r)
  with assms(2) obtain p km where p: "r = JRef p" "keymaps w p = Some km" "hm_ok km" by blast
  with Some show ?thesis
    by (simp add: keyed_record_def medge_def edge_record_nbr [OF assms(1)] the_keymap_def get_lookup)
qed

lemma medge_sym:
  assumes "graph_ok g"
  shows "medge g w a b k = medge g w b a k"
proof -
  have "nbr g a b = nbr g b a"
  proof (cases "nbr g a b")
    case None
    show ?thesis
    proof (cases "nbr g b a")
      case N: None
      with None show ?thesis by simp
    next
      case (Some r)
      from nbr_sym [OF assms Some] None show ?thesis by simp
    qed
  next
    case (Some r)
    from nbr_sym [OF assms Some] Some show ?thesis by simp
  qed
  then show ?thesis by (simp add: medge_def)
qed

lemma distinct_keyed_pairs:
  assumes ok: "graph_ok G"
    and km: "\<forall>a b r. nbr G a b = Some r \<longrightarrow> (\<exists>p km. r = JRef p \<and> keymaps w p = Some km \<and> hm_ok km)"
    and inj: "inj_on f (dom (lookup (adj' G)))"
  shows "distinct (map (keyed_pair_of f) (keyed_edges G w))"
proof -
  let ?g = "\<lambda>t :: key \<times> key \<times> key \<times> jsval. (fst t, fst (snd t), fst (snd (snd t)))"
  let ?h = "\<lambda>p :: key \<times> key \<times> key. ({f (fst p), f (fst (snd p))}, snd (snd p))"
  let ?ts = "keyed_edges G w"
  note kf = keyed_edges_facts [OF ok km]
  have inN: "fst t \<in> dom (lookup (adj' G)) \<and> fst (snd t) \<in> dom (lookup (adj' G))" if "t \<in> set ?ts" for t
  proof -
    from kf(2) [OF that] have "nbr G (fst t) (fst (snd t)) \<noteq> None"
      by (auto simp: medge_def split: option.splits)
    then obtain r where "nbr G (fst t) (fst (snd t)) = Some r" by blast
    from nbr_dom [OF ok this] show ?thesis .
  qed
  have "inj_on ?h (set (map ?g ?ts))"
  proof (rule inj_onI)
    fix p p' assume p: "p \<in> set (map ?g ?ts)" and p': "p' \<in> set (map ?g ?ts)" and e: "?h p = ?h p'"
    from p obtain t where t: "t \<in> set ?ts" "p = ?g t" by auto
    from p' obtain t' where t': "t' \<in> set ?ts" "p' = ?g t'" by auto
    from e t(2) t'(2) have k: "fst (snd (snd t)) = fst (snd (snd t'))"
      and "{f (fst t), f (fst (snd t))} = {f (fst t'), f (fst (snd t'))}"
      by simp_all
    then have "(f (fst t) = f (fst t') \<and> f (fst (snd t)) = f (fst (snd t')))
        \<or> (f (fst t) = f (fst (snd t')) \<and> f (fst (snd t)) = f (fst t'))"
      by (simp add: doubleton_eq_iff)
    with inN [OF t(1)] inN [OF t'(1)] inj
    have "(fst t = fst t' \<and> fst (snd t) = fst (snd t')) \<or> (fst t = fst (snd t') \<and> fst (snd t) = fst t')"
      by (auto dest: inj_onD)
    then show "p = p'"
    proof
      assume "fst t = fst t' \<and> fst (snd t) = fst (snd t')"
      with t(2) t'(2) k show ?thesis by simp
    next
      assume c: "fst t = fst (snd t') \<and> fst (snd t) = fst t'"
      with kf(5) [OF t(1) t'(1)] have "fst t = fst (snd t)" by simp
      with c t(2) t'(2) k show ?thesis by auto
    qed
  qed
  with kf(4) have "distinct (map ?h (map ?g ?ts))" by (simp only: distinct_map simp_thms)
  moreover have "map ?h (map ?g ?ts) = map (keyed_pair_of f) ?ts"
    unfolding map_map by (rule map_cong) (simp_all add: keyed_pair_of_def)
  ultimately show ?thesis by (simp only:)
qed

lemma MultiGraph_relabel_copy_flat:
  assumes mg: "MultiGraph_in w G" and lb: "labels_ok G m"
  shows "\<exists>H w'. MultiGraph_relabel_copy G w m = Some (Inr H, w') \<and> graph_ok H
     \<and> (\<forall>a b k. keyed_record H w' a b k \<noteq> None \<longleftrightarrow>
           (\<exists>u v. keyed_record G w u v k \<noteq> None \<and> a = mapping_get m u \<and> b = mapping_get m v))
     \<and> (\<forall>u v k r. keyed_record G w u v k = Some r \<longrightarrow>
          (\<exists>x. keyed_record H w' (mapping_get m u) (mapping_get m v) k = Some (JRef x)
             \<and> JRef x \<noteq> r \<and> fresh w \<le> x
             \<and> (inj_on (mapping_get m) (dom (lookup (nodes' G))) \<and> distinct (map fst (props w r))
                  \<longrightarrow> props w' (JRef x) = props w r)))
     \<and> (\<forall>y<fresh w. dicts w' y = dicts w y)"
proof -
  define f where "f = mapping_get m"
  define K where "K = {k. \<exists>u v. keyed_record G w u v k \<noteq> None}"
  let ?ts = "keyed_edges G w"
  let ?N = "dom (lookup (nodes' G))"
  from mg have ok: "graph_ok G" and sw: "store_ok w" and kw: "dom (keymaps w) \<subseteq> {..<fresh w}"
    and er: "\<forall>u v r. edge_record G u v = Some r \<longrightarrow> (\<exists>p km. r = JRef p \<and> keymaps w p = Some km \<and> hm_ok km)"
    and kr: "\<forall>u v k r. keyed_record G w u v k = Some r \<longrightarrow>
           isDefAndNotNull k \<and> in_range k \<and> (\<exists>y d. r = JRef y \<and> dicts w y = Some d)"
    and ki: "inj_on (keyHash (HashMap None :: jsval hashmap)) K"
    by (simp_all add: MultiGraph_in_def K_def)
  from lb have inj: "inj_on (keyHash (nodes' G)) (f ` ?N)"
    and df: "\<forall>n\<in>?N. isDef (f n) \<and> \<not> isArray (f n)"
    by (simp_all add: labels_ok_def f_def)
  from ok have dn: "?N = dom (lookup (adj' G))" by (simp add: graph_ok_def)
  have kms: "\<forall>a b r. nbr G a b = Some r \<longrightarrow> (\<exists>p km. r = JRef p \<and> keymaps w p = Some km \<and> hm_ok km)"
    using er unfolding edge_record_nbr [OF ok] .
  have krm: "keyed_record G w u v k = medge G w u v k" for u v k using ok kms by (rule keyed_record_medge)
  note kf = keyed_edges_facts [OF ok kms]
  have Kok: "keys_ok K"
    unfolding keys_ok_def
  proof (intro conjI ballI)
    show "inj_on (keyHash (HashMap None :: jsval hashmap)) K" by (rule ki)
  next
    fix k assume "k \<in> K"
    then obtain u v r where "keyed_record G w u v k = Some r" unfolding K_def by auto
    with kr show "isDefAndNotNull k" by blast
  qed
  have old: "y < fresh w" if "keyed_record G w u v k = Some (JRef y)" for u v k y
  proof -
    from kr that obtain d where "dicts w y = Some d" by blast
    with sw show ?thesis by (auto simp: store_ok_def)
  qed
  have al: "\<forall>t\<in>set ?ts. \<forall>y. snd (snd (snd t)) = JRef y \<longrightarrow> y < fresh w"
  proof (intro ballI allI impI)
    fix t y assume "t \<in> set ?ts" and "snd (snd (snd t)) = JRef y"
    with kf(2) have "keyed_record G w (fst t) (fst (snd t)) (fst (snd (snd t))) = Some (JRef y)" by (simp add: krm)
    then show "y < fresh w" by (rule old)
  qed
  have kK: "\<forall>t\<in>set ?ts. fst (snd (snd t)) \<in> K"
  proof
    fix t assume "t \<in> set ?ts"
    with kf(2) have "keyed_record G w (fst t) (fst (snd t)) (fst (snd (snd t))) \<noteq> None" by (simp add: krm)
    then show "fst (snd (snd t)) \<in> K" unfolding K_def by blast
  qed
  from MultiGraph_relabel_copy_run [OF f_def ok sw kw kms al Kok kK inj df] obtain H w' where
    run: "MultiGraph_relabel_copy G w m = Some (Inr H, w')" and b: "built (fresh w + 1) (f ` ?N) H w'"
    and ky: "keyed (fresh w + 1) K H w'"
    and frame: "\<forall>y<fresh w. dicts w' y = dicts w y"
    and edges: "\<forall>a b k. medge H w' a b k \<noteq> None \<longleftrightarrow> (\<exists>t\<in>set ?ts. keyed_pair_of f t = ({a, b}, k))"
    and recs: "distinct (map (keyed_pair_of f) ?ts) \<longrightarrow>
          (\<forall>t\<in>set ?ts. \<exists>x. medge H w' (f (fst t)) (f (fst (snd t))) (fst (snd (snd t))) = Some (JRef x)
             \<and> fresh w \<le> x
             \<and> props w' (JRef x) = assigned (assigned (props w (snd (snd (snd t)))) []) [])"
    by (elim exE conjE) (rule that, assumption+)
  from b have okH: "graph_ok H" by (simp add: built_def graph_within_def)
  have kmsH: "\<forall>a b r. nbr H a b = Some r \<longrightarrow> (\<exists>p km. r = JRef p \<and> keymaps w' p = Some km \<and> hm_ok km)"
  proof (intro allI impI)
    fix a b r assume "nbr H a b = Some r"
    from keyedD [OF ky this] show "\<exists>p km. r = JRef p \<and> keymaps w' p = Some km \<and> hm_ok km"
      unfolding keymap_ok_def by blast
  qed
  have krH: "keyed_record H w' a b k = medge H w' a b k" for a b k using okH kmsH by (rule keyed_record_medge)
  have find: "\<exists>t\<in>set ?ts. snd (snd (snd t)) = r \<and> fst (snd (snd t)) = k
        \<and> ((fst t = u \<and> fst (snd t) = v) \<or> (fst t = v \<and> fst (snd t) = u))"
    if "medge G w u v k = Some r" for u v k r
  proof -
    from that kf(3) [of u v k] obtain t where
      t: "t \<in> set ?ts" "(fst t = u \<and> fst (snd t) = v) \<or> (fst t = v \<and> fst (snd t) = u)" "fst (snd (snd t)) = k"
      by auto
    from that have "medge G w v u k = Some r" by (simp add: medge_sym [OF ok, of w v u])
    with that t(2,3) kf(2) [OF t(1)] have "snd (snd (snd t)) = r" by auto
    with t show ?thesis by blast
  qed
  have nbrs: "keyed_record H w' a b k \<noteq> None \<longleftrightarrow> (\<exists>u v. keyed_record G w u v k \<noteq> None \<and> a = f u \<and> b = f v)" for a b k
  proof
    assume "keyed_record H w' a b k \<noteq> None"
    then have "medge H w' a b k \<noteq> None" by (simp add: krH)
    with edges obtain t where t: "t \<in> set ?ts" "keyed_pair_of f t = ({a, b}, k)" by blast
    from kf(2) [OF t(1)] have n1: "medge G w (fst t) (fst (snd t)) (fst (snd (snd t))) \<noteq> None" by simp
    then have n2: "medge G w (fst (snd t)) (fst t) (fst (snd (snd t))) \<noteq> None"
      by (simp add: medge_sym [OF ok, of w "fst (snd t)"])
    from t(2) have "fst (snd (snd t)) = k"
      and "(f (fst t) = a \<and> f (fst (snd t)) = b) \<or> (f (fst t) = b \<and> f (fst (snd t)) = a)"
      by (simp_all add: keyed_pair_of_def doubleton_eq_iff)
    with n1 n2 show "\<exists>u v. keyed_record G w u v k \<noteq> None \<and> a = f u \<and> b = f v"
      unfolding krm by blast
  next
    assume "\<exists>u v. keyed_record G w u v k \<noteq> None \<and> a = f u \<and> b = f v"
    then obtain u v where uv: "medge G w u v k \<noteq> None" "a = f u" "b = f v" unfolding krm by blast
    then obtain r where "medge G w u v k = Some r" by auto
    from find [OF this] obtain t where t: "t \<in> set ?ts" "fst (snd (snd t)) = k"
      "(fst t = u \<and> fst (snd t) = v) \<or> (fst t = v \<and> fst (snd t) = u)" by blast
    then have "keyed_pair_of f t = ({a, b}, k)" using uv(2,3) by (auto simp: keyed_pair_of_def)
    with t(1) edges have "medge H w' a b k \<noteq> None" by blast
    then show "keyed_record H w' a b k \<noteq> None" by (simp add: krH)
  qed
  have records: "\<exists>x. keyed_record H w' (f u) (f v) k = Some (JRef x) \<and> JRef x \<noteq> r \<and> fresh w \<le> x
             \<and> (inj_on f ?N \<and> distinct (map fst (props w r)) \<longrightarrow> props w' (JRef x) = props w r)"
    if e: "keyed_record G w u v k = Some r" for u v k r
  proof -
    from e have n: "medge G w u v k = Some r" by (simp add: krm)
    from find [OF n] obtain t where t: "t \<in> set ?ts" "snd (snd (snd t)) = r" "fst (snd (snd t)) = k"
      "(fst t = u \<and> fst (snd t) = v) \<or> (fst t = v \<and> fst (snd t) = u)" by blast
    then have p: "keyed_pair_of f t = ({f u, f v}, k)" by (auto simp: keyed_pair_of_def)
    with t(1) edges have "medge H w' (f u) (f v) k \<noteq> None" by blast
    then obtain r' where r': "medge H w' (f u) (f v) k = Some r'" by auto
    from medgeD [OF ky r'] obtain x where x: "r' = JRef x" "fresh w + 1 \<le> x" by blast
    then have xw: "fresh w \<le> x" by simp
    have ne: "JRef x \<noteq> r"
    proof
      assume "JRef x = r"
      with e have "keyed_record G w u v k = Some (JRef x)" by simp
      from old [OF this] x(2) show False by simp
    qed
    have flat: "props w' (JRef x) = props w r" if i: "inj_on f ?N" and d: "distinct (map fst (props w r))"
    proof -
      from i have "distinct (map (keyed_pair_of f) ?ts)" unfolding dn by (rule distinct_keyed_pairs [OF ok kms])
      with recs t(1,2,3) obtain x' where x': "medge H w' (f (fst t)) (f (fst (snd t))) k = Some (JRef x')"
        "props w' (JRef x') = assigned (assigned (props w r) []) []"
        by blast
      from t(4) x'(1) medge_sym [OF okH, of w' "f u" "f v" k] have "medge H w' (f u) (f v) k = Some (JRef x')" by auto
      with r' x(1) have "x' = x" by simp
      moreover have "assigned (props w r) [] = props w r" using d by (simp add: assigned_distinct)
      ultimately show ?thesis using x'(2) by simp
    qed
    from r' x(1) ne xw flat show ?thesis by (auto simp: krH)
  qed
  from run okH nbrs records frame show ?thesis
    unfolding f_def by (intro exI [of _ H] exI [of _ w'] conjI allI impI) (assumption | blast)+
qed


section \<open>Copy-mode relabel: the claim\<close>

text \<open>
  A store with a record \<^verbatim>\<open>{length: {unit: 'km'}}\<close> (the inner record at address 0, the
  outer one at address 1), and the graph \<^verbatim>\<open>G = new jsnx.Graph(); G.add_edge('a', 'b',
  {length: {unit: 'km'}})\<close> in it.
\<close>

definition store0 :: world where
  "store0 = \<lparr>dicts = [0 \<mapsto> [(''unit'', JStr ''km'')], 1 \<mapsto> [(''length'', JRef 0)]],
             keymaps = (\<lambda>a. None), fresh = 2\<rparr>"

definition road :: "graph \<times> world" where
  "road = snd (Graph_add_edge (Graph_empty [] None) store0 (KStr ''a'') (KStr ''b'') (JRef 1))"

lemmas eval_simps = HashMap_simps Graph_simps DiGraph_simps relabel_simps Let_def
      iter_from.simps map_filter_def Graph_relabel_copy_def relabel_copy_def relabel_copy_nodes_def
      relabel_edge_def
      set_name_def name_def dict_put_def mapping_get_def Object_prototype_def add_nodes_from_def nodes_def nodes_data_def
      add_nodes_from_step_def show_int_def digit_char_def Graph_edges_iter_def Graph_generate_edges_iter_def
      Graph_adjacency_iter_def

lemma road_record:
  "edge_record (fst road) (KStr ''a'') (KStr ''b'') = Some (JRef 4)
   \<and> props (snd road) (JRef 4) = [(''length'', JRef 0)] \<and> fresh (snd road) = 5"
  by (simp add: road_def store0_def eval_simps)


lemma built_road:
  "built 0 {KStr ''a'', KStr ''b''} (fst road) (snd road)"
  "dom (lookup (adj' (fst road))) = {KStr ''a'', KStr ''b''}"
  "graph_hash (fst road) = None"
proof -
  let ?U = "{KStr ''a'', KStr ''b''}"
  have b0: "built 0 ?U (Graph_empty [] None) store0"
    by (rule built_Graph_empty)
       (simp_all add: keyHash_def HashMap_def isDef_def isArray_def store_ok_def store0_def)
  have c: "1 < fresh store0" by (simp add: store0_def)
  from Graph_add_edge_built [OF b0 _ _ c, of "KStr ''a''" "KStr ''b''"] obtain H' w' where
    r: "Graph_add_edge (Graph_empty [] None) store0 (KStr ''a'') (KStr ''b'') (JRef 1) = (Inr (), H', w')"
    and b: "built 0 ?U H' w'" and gh: "graph_hash H' = graph_hash (Graph_empty [] None)"
    and dm: "dom (lookup (adj' H')) = insert (KStr ''a'') (insert (KStr ''b'') (dom (lookup (adj' (Graph_empty [] None)))))"
    by auto
  from r have e: "road = (H', w')" by (simp add: road_def)
  from b show "built 0 ?U (fst road) (snd road)" by (simp add: e)
  from dm show "dom (lookup (adj' (fst road))) = ?U" by (simp add: e Graph_empty_def dom_def)
  from gh show "graph_hash (fst road) = None" by (simp add: e Graph_empty_def)
qed

lemma road_nodes:
  "lookup (nodes' (fst road)) (KStr ''a'') = Some (JRef 2)"
  "lookup (nodes' (fst road)) (KStr ''b'') = Some (JRef 3)"
  "dicts (snd road) 2 = Some []" "dicts (snd road) 3 = Some []"
  "dicts (snd road) 4 = Some [(''length'', JRef 0)]"
  by (simp_all add: road_def store0_def eval_simps lookup_def)

lemma road_hypotheses:
  "Graph_in (snd road) (fst road)"
  "labels_ok (fst road) [(''a'', KStr ''x'')]"
  "inj_on (mapping_get [(''a'', KStr ''x'')]) (dom (lookup (nodes' (fst road))))"
proof -
  note b = built_road(1)
  from b have ok: "graph_ok (fst road)" by (simp add: built_def graph_within_def)
  from b have sw: "store_ok (snd road)" by (simp add: built_def)
  from ok have dn: "dom (lookup (nodes' (fst road))) = {KStr ''a'', KStr ''b''}"
    and oh: "opts_hash (nodes' (fst road)) = None"
    by (simp_all add: graph_ok_def built_road(2,3))
  have nr: "\<exists>y d. r = JRef y \<and> dicts (snd road) y = Some d" if "lookup (nodes' (fst road)) n = Some r" for n r
  proof -
    from that have "n \<in> dom (lookup (nodes' (fst road)))" by blast
    then have "n = KStr ''a'' \<or> n = KStr ''b''" unfolding dn by simp
    with that road_nodes show ?thesis by auto
  qed
  have er: "\<exists>y d. r = JRef y \<and> dicts (snd road) y = Some d" if "edge_record (fst road) u v = Some r" for u v r
  proof -
    from that have n: "nbr (fst road) u v = Some r" by (simp add: edge_record_nbr [OF ok])
    from nbr_dom [OF ok n] have "u \<in> {KStr ''a'', KStr ''b''}" "v \<in> {KStr ''a'', KStr ''b''}"
      by (simp_all add: built_road(2))
    moreover have "nbr (fst road) (KStr ''a'') (KStr ''b'') = Some (JRef 4)"
      using road_record by (simp add: edge_record_nbr [OF ok])
    moreover from nbr_sym [OF ok this] have "nbr (fst road) (KStr ''b'') (KStr ''a'') = Some (JRef 4)" .
    moreover have "nbr (fst road) (KStr ''a'') (KStr ''a'') = None" "nbr (fst road) (KStr ''b'') (KStr ''b'') = None"
      by (simp_all add: nbr_def lookup_def road_def store0_def eval_simps)
    ultimately have "r = JRef 4" using n by auto
    with road_nodes(5) show ?thesis by simp
  qed
  from ok sw nr er show "Graph_in (snd road) (fst road)" unfolding Graph_in_def by blast
  have kh: "keyHash (nodes' (fst road)) = keyHash (HashMap None :: unit hashmap)"
    by (rule keyHash_cong) (simp add: oh)
  show "labels_ok (fst road) [(''a'', KStr ''x'')]"
    unfolding labels_ok_def kh dn
    by (simp add: mapping_get_def Object_prototype_def keyHash_def HashMap_def isDef_def isArray_def
        plain_label_def in_range_def)
  show "inj_on (mapping_get [(''a'', KStr ''x'')]) (dom (lookup (nodes' (fst road))))"
    unfolding dn by (simp add: mapping_get_def Object_prototype_def)
qed

text \<open>
  The multigraph \<^verbatim>\<open>G = new jsnx.MultiGraph(); G.add_edge('a', 'b', 'ic', {length: {unit:
  'km'}})\<close> in the same store.
\<close>

definition rail :: "graph \<times> world" where
  "rail = (case MultiGraph_add_edge (Graph_empty [] None) store0 (KStr ''a'') (KStr ''b'') (KStr ''ic'') (JRef 1) of
             Some (r, s) \<Rightarrow> s
           | None \<Rightarrow> (Graph_empty [] None, store0))"

lemma rail_record:
  "keyed_record (fst rail) (snd rail) (KStr ''a'') (KStr ''b'') (KStr ''ic'') = Some (JRef 4)
   \<and> props (snd rail) (JRef 4) = [(''length'', JRef 0)] \<and> fresh (snd rail) = 6"
  by (simp add: rail_def store0_def eval_simps MultiGraph_simps keyed_record_def edge_record_def)


lemma rail_nodes:
  "lookup (nodes' (fst rail)) (KStr ''a'') = Some (JRef 2)"
  "lookup (nodes' (fst rail)) (KStr ''b'') = Some (JRef 3)"
  "dicts (snd rail) 2 = Some []" "dicts (snd rail) 3 = Some []"
  "dicts (snd rail) 4 = Some [(''length'', JRef 0)]"
  by (simp_all add: rail_def store0_def eval_simps MultiGraph_simps lookup_def)

lemma rail_hypotheses:
  "MultiGraph_in (snd rail) (fst rail)"
  "labels_ok (fst rail) [(''a'', KStr ''x'')]"
  "inj_on (mapping_get [(''a'', KStr ''x'')]) (dom (lookup (nodes' (fst rail))))"
proof -
  let ?U = "{KStr ''a'', KStr ''b''}"
  let ?K = "{KStr ''ic''}"
  let ?G0 = "Graph_empty [] None"
  have b0: "built 0 ?U ?G0 store0"
    by (rule built_Graph_empty)
       (simp_all add: keyHash_def HashMap_def isDef_def isArray_def store_ok_def store0_def)
  have n0: "nbr ?G0 = (\<lambda>a b. None)" by (intro ext) (simp add: nbr_def Graph_empty_def)
  have k0: "keyed 0 ?K ?G0 store0" using _ n0 by (rule keyed_empty) (simp add: store0_def)
  have K: "keys_ok ?K" by (simp add: keys_ok_def isDefAndNotNull_def)
  have c: "1 < fresh store0" by (simp add: store0_def)
  from MultiGraph_add_edge_impl_built [OF b0 k0 K _ _ _ c, of "KStr ''a''" "KStr ''b''" "KStr ''ic''"]
  obtain H' w' x where
    r: "MultiGraph_add_edge_impl ?G0 store0 (KStr ''a'') (KStr ''b'') (KStr ''ic'') (JRef 1) = Some (Inr (), H', w')"
    and b: "built 0 ?U H' w'" and ky: "keyed 0 ?K H' w'" and gh: "graph_hash H' = graph_hash ?G0"
    and me: "\<forall>a b k'. medge H' w' a b k' = (if {a, b} = {KStr ''a'', KStr ''b''} \<and> k' = KStr ''ic'' then Some (JRef x)
                 else medge ?G0 store0 a b k')"
    and dm: "dom (lookup (adj' H')) = insert (KStr ''a'') (insert (KStr ''b'') (dom (lookup (adj' ?G0))))"
    by auto
  from r have e: "rail = (H', w')"
    by (simp add: rail_def MultiGraph_add_edge_def multi_add_edge_def truthy_def is_object_def)
  from b have ok: "graph_ok (fst rail)" and sw: "store_ok (snd rail)"
    by (simp_all add: e built_def graph_within_def)
  from ky have kw: "dom (keymaps (snd rail)) \<subseteq> {..<fresh (snd rail)}" by (simp add: e keyed_def)
  from dm have da: "dom (lookup (adj' (fst rail))) = ?U" by (simp add: e Graph_empty_def dom_def)
  from ok da have dn: "dom (lookup (nodes' (fst rail))) = ?U" by (simp add: graph_ok_def)
  from ok gh have oh: "opts_hash (nodes' (fst rail)) = None" by (simp add: graph_ok_def e Graph_empty_def)
  have kms: "\<forall>a b r. nbr (fst rail) a b = Some r \<longrightarrow> (\<exists>p km. r = JRef p \<and> keymaps (snd rail) p = Some km \<and> hm_ok km)"
  proof (intro allI impI)
    fix a b r assume "nbr (fst rail) a b = Some r"
    then have "nbr H' a b = Some r" by (simp add: e)
    from keyedD [OF ky this] show "\<exists>p km. r = JRef p \<and> keymaps (snd rail) p = Some km \<and> hm_ok km"
      unfolding keymap_ok_def e by auto
  qed
  have krm: "keyed_record (fst rail) (snd rail) u v k = medge H' w' u v k" for u v k
    using keyed_record_medge [OF ok kms] by (simp add: e)
  have m0: "medge ?G0 store0 a b k = None" for a b k by (simp add: medge_def n0)
  from rail_record have "medge H' w' (KStr ''a'') (KStr ''b'') (KStr ''ic'') = Some (JRef 4)" by (simp add: krm)
  with me have x4: "x = 4" by simp
  have only: "k = KStr ''ic'' \<and> r = JRef 4" if "keyed_record (fst rail) (snd rail) u v k = Some r" for u v k r
    using that me unfolding krm x4 by (auto simp: m0 split: if_splits)
  have nr: "\<exists>y d. r = JRef y \<and> dicts (snd rail) y = Some d" if "lookup (nodes' (fst rail)) n = Some r" for n r
  proof -
    from that have "n \<in> dom (lookup (nodes' (fst rail)))" by blast
    then have "n = KStr ''a'' \<or> n = KStr ''b''" unfolding dn by simp
    with that rail_nodes show ?thesis by auto
  qed
  have er: "\<forall>u v r. edge_record (fst rail) u v = Some r
      \<longrightarrow> (\<exists>p km. r = JRef p \<and> keymaps (snd rail) p = Some km \<and> hm_ok km)"
    using kms unfolding edge_record_nbr [OF ok] .
  have kr: "isDefAndNotNull k \<and> in_range k \<and> (\<exists>y d. r = JRef y \<and> dicts (snd rail) y = Some d)"
    if "keyed_record (fst rail) (snd rail) u v k = Some r" for u v k r
    using only [OF that] rail_nodes(5) by (simp add: isDefAndNotNull_def in_range_def)
  have "{k. \<exists>u v. keyed_record (fst rail) (snd rail) u v k \<noteq> None} \<subseteq> ?K" using only by auto
  then have ki: "inj_on (keyHash (HashMap None :: jsval hashmap)) {k. \<exists>u v. keyed_record (fst rail) (snd rail) u v k \<noteq> None}"
    by (rule inj_on_subset [rotated]) simp
  from ok sw kw nr er kr ki show "MultiGraph_in (snd rail) (fst rail)" unfolding MultiGraph_in_def by blast
  have kh: "keyHash (nodes' (fst rail)) = keyHash (HashMap None :: unit hashmap)"
    by (rule keyHash_cong) (simp add: oh)
  show "labels_ok (fst rail) [(''a'', KStr ''x'')]"
    unfolding labels_ok_def kh dn
    by (simp add: mapping_get_def Object_prototype_def keyHash_def HashMap_def isDef_def isArray_def
        plain_label_def in_range_def)
  show "inj_on (mapping_get [(''a'', KStr ''x'')]) (dom (lookup (nodes' (fst rail))))"
    unfolding dn by (simp add: mapping_get_def Object_prototype_def)
qed

text \<open>
  The lookup in the mapping finds inherited properties: with the empty mapping \<^verbatim>\<open>{}\<close>
  the node \<^verbatim>\<open>'toString'\<close> is relabelled to the function \<^verbatim>\<open>Object.prototype.toString\<close>;
  an own property of that name takes precedence; a node that names no property passes
  through.
\<close>

lemma mapping_get_inherited:
  "mapping_get [] (KStr ''toString'') = KOther 1"
  "mapping_get [(''toString'', KStr ''t'')] (KStr ''toString'') = KStr ''t''"
  "mapping_get [] (KStr ''a'') = KStr ''a''"
  by (simp_all add: mapping_get_def Object_prototype_def)

text \<open>
  The directed variants are outside the amended statement. In a DiGraph the edge iterator
  yields nothing (C3), so the copy has the relabelled nodes and no edge: for the digraph
  with the single edge (1, 2) and the empty mapping, the result has the nodes 1 and 2, and
  2 is not a successor of 1. (The constructor of DiGraph, moreover, throws a TypeError when
  the graph has attributes.) In a MultiDiGraph \<^verbatim>\<open>edges_iter(true, true)\<close>, the call that
  \<^verbatim>\<open>relabel_copy_\<close> makes, yields the tuples \<^verbatim>\<open>[u, v, data]\<close> without keys (the keys
  come with \<^verbatim>\<open>edges_iter(null, true, true)\<close>); \<^verbatim>\<open>relabel_copy_\<close> then takes the data
  record for the key and \<^verbatim>\<open>undefined\<close> for the data, so neither the keys nor the
  records of the edges reach the copy.
\<close>

lemma DiGraph_relabel_copy_loses_edges:
  "(let s = snd (DiGraph_add_edge (DiGraph_empty None) world_empty (KNum 1) (KNum 2) JUndefined)
    in neighbour (fst s) (KNum 1) (KNum 2)
       \<and> (case DiGraph_relabel_copy (fst s) (snd s) [] of
             (Inr H, w) \<Rightarrow> nodes H = Inr [KNum 1, KNum 2] \<and> \<not> neighbour H (KNum 1) (KNum 2)
           | (Inl e, w) \<Rightarrow> False))"
  by (simp add: HashMap_simps Graph_simps DiGraph_simps relabel_simps convert_simps Let_def
      iter_from.simps map_filter_def DiGraph_relabel_copy_def relabel_copy_def relabel_copy_nodes_def
      relabel_edge_def DiGraph_new_def set_name_def name_def dict_put_def mapping_get_def
      Object_prototype_def add_nodes_from_def add_nodes_from_step_def show_int_def digit_char_def)


lemma MultiDiGraph_edges_iter_drops_keys:
  "(case MultiDiGraph_add_edge (DiGraph_empty None) world_empty (KStr ''a'') (KStr ''b'') (KStr ''ic'') JUndefined of
      Some (r, g, w) \<Rightarrow>
        r = Inr ()
        \<and> MultiDiGraph_edges_iter g w (Some (Flag True)) (Some True) None
            = Inr [E3 (KStr ''a'') (KStr ''b'') (JRef 3)]
        \<and> MultiDiGraph_edges_iter g w None (Some True) (Some True)
            = Inr [E4 (KStr ''a'') (KStr ''b'') (KStr ''ic'') (JRef 3)]
    | None \<Rightarrow> False)"
  by (simp add: HashMap_simps Graph_simps DiGraph_simps MultiGraph_simps Let_def iter_from.simps
      MultiDiGraph_edges_iter_def MultiDiGraph_generate_edges_iter_def map_filter_def add_node_def
      world_empty_def)



end
